(* ===== verification/Prelude.thy ===== *)
theory Prelude
  imports Main "HOL-Library.Word" "HOL-Library.Monad_Syntax"
begin

text \<open>
  What every component shares: the integer types of \<^verbatim>\<open>include/types.h\<close>, the theorem
  collections that carry the automation, and generic facts on 32-bit addresses. An address range
  of \<open>n\<close> bytes from \<open>a\<close> is \<open>span a n\<close>; it may wrap around the end of the address space, as the
  hardware's does. Two ranges that share no byte are \<open>apart\<close>, a condition that the simplifier
  decides for constant offsets from one base and that \<open>apart_natI\<close> derives from the order of the
  ranges.
\<close>

unbundle bit_operations_syntax

type_synonym u8 = "8 word"
type_synonym u16 = "16 word"
type_synonym u32 = "32 word"

named_theorems mem_frame \<open>a load does not see a store, a fill or a copy that is apart from it\<close>
named_theorems apart_intros \<open>rules that show two address ranges apart\<close>
named_theorems list_effects \<open>what a list operation does to the link fields of every node\<close>

section \<open>Address arithmetic\<close>

definition span :: "u32 \<Rightarrow> nat \<Rightarrow> u32 set" where
  "span a n = {x. unat (x - a) < n}"

definition apart :: "u32 \<Rightarrow> nat \<Rightarrow> u32 \<Rightarrow> nat \<Rightarrow> bool" where
  "apart a n b k \<longleftrightarrow> n \<le> unat (b - a) \<and> k \<le> unat (a - b)"

lemma span_iff: "x \<in> span a n \<longleftrightarrow> unat (x - a) < n"
  by (simp add: span_def)

lemma unat_less_2p32: "unat (x :: u32) < 4294967296"
  using unsigned_less [of x] by simp

lemma unat_minus_cases:
  "unat (x - y :: u32) =
    (if unat y \<le> unat x then unat x - unat y else unat x + 4294967296 - unat y)"
  using unat_less_2p32 [of x] unat_less_2p32 [of y]
  by (simp add: unat_sub_if_size word_size word_le_nat_alt)

lemma unat_plus_le: "unat (a + b) \<le> unat a + unat (b :: u32)"
  by (simp add: unat_word_ariths(1))

lemma unat_plus_small:
  "unat (a :: u32) + unat k < 4294967296 \<Longrightarrow> unat (a + k) = unat a + unat k"
  by (simp add: unat_word_ariths)

lemma span_nat_iff:
  "unat a + n \<le> 4294967296 \<Longrightarrow> x \<in> span a n \<longleftrightarrow> unat a \<le> unat x \<and> unat x < unat a + n"
  using unat_less_2p32 [of x] unat_less_2p32 [of a]
  by (auto simp: span_iff unat_minus_cases split: if_splits)

lemma apart_sym: "apart a n b k \<longleftrightarrow> apart b k a n"
  by (auto simp: apart_def)

lemma apart_disjoint: "apart a n b k \<Longrightarrow> x \<in> span a n \<Longrightarrow> x \<notin> span b k"
  using unat_less_2p32 [of x] unat_less_2p32 [of a] unat_less_2p32 [of b]
  by (auto simp: apart_def span_iff unat_minus_cases split: if_splits)

lemma apart_natI [apart_intros]:
  "unat a + n \<le> unat b \<Longrightarrow> 0 < n \<Longrightarrow> unat b + k \<le> 4294967296 \<Longrightarrow> apart a n b k"
  using unat_less_2p32 [of a] unat_less_2p32 [of b]
  by (auto simp: apart_def unat_minus_cases)

lemma apart_natI2 [apart_intros]:
  "unat b + k \<le> unat a \<Longrightarrow> 0 < k \<Longrightarrow> unat a + n \<le> 4294967296 \<Longrightarrow> apart a n b k"
  using apart_natI apart_sym by blast

lemma span_offset:
  assumes "x \<in> span (a + i) n'" and "unat i + n' \<le> n" and "n \<le> 4294967296"
  shows "x \<in> span a n"
proof -
  have eq: "x - a = (x - (a + i)) + i" by simp
  have "unat (x - (a + i)) < n'" using assms(1) by (simp add: span_iff)
  then have "unat (x - (a + i)) + unat i < n" using assms(2) by linarith
  then have "unat ((x - (a + i)) + i) < n"
    using unat_plus_small [of "x - (a + i)" i] assms(3) by simp
  then show ?thesis by (simp only: span_iff eq)
qed

lemma span_mono: "x \<in> span a n \<Longrightarrow> n \<le> k \<Longrightarrow> x \<in> span a k"
  by (simp add: span_iff)

lemma self_in_span: "0 < n \<Longrightarrow> a \<in> span a n"
  by (simp add: span_iff)

end
