(* ===== verification/Machine.thy ===== *)
theory Machine
  imports Prelude
begin

text \<open>
  The machine the kernel runs on, as the C code sees it: a byte memory addressed by 32-bit virtual
  addresses, the port writes it has issued, what each port reads as, the panics raised so far, and the
  address \<open>rodata\<close> at which the linker placed each string literal.
  Then the memory routines of \<^verbatim>\<open>lib/stdlib/stdlib.c\<close>, the string routines of
  \<^verbatim>\<open>lib/string/string.c\<close> and the port primitives of \<^verbatim>\<open>cpu/portio.c\<close>.
  Multi-byte values are little endian. The lemmas say what each store, fill and copy leaves
  unchanged, which every later component rests on.
\<close>

section \<open>The machine state\<close>

type_synonym bytes = "u32 \<Rightarrow> u8"

record machine =
  mem :: bytes
  ports :: "(u32 \<times> u8) list"
  port_in :: "u16 \<Rightarrow> u8"
  panics :: "string list"
  rodata :: "string \<Rightarrow> u32"

section \<open>Loads and stores\<close>

definition load16 :: "bytes \<Rightarrow> u32 \<Rightarrow> u16" where
  "load16 m a = ucast (m a) OR push_bit 8 (ucast (m (a + 1)))"

definition load32 :: "bytes \<Rightarrow> u32 \<Rightarrow> u32" where
  "load32 m a = ucast (m a) OR push_bit 8 (ucast (m (a + 1)))
     OR push_bit 16 (ucast (m (a + 2))) OR push_bit 24 (ucast (m (a + 3)))"

definition store8 :: "bytes \<Rightarrow> u32 \<Rightarrow> u8 \<Rightarrow> bytes" where
  "store8 m a v = m(a := v)"

definition store16 :: "bytes \<Rightarrow> u32 \<Rightarrow> u16 \<Rightarrow> bytes" where
  "store16 m a v = m(a := ucast v, a + 1 := ucast (drop_bit 8 v))"

definition store32 :: "bytes \<Rightarrow> u32 \<Rightarrow> u32 \<Rightarrow> bytes" where
  "store32 m a v = m(a := ucast v, a + 1 := ucast (drop_bit 8 v),
     a + 2 := ucast (drop_bit 16 v), a + 3 := ucast (drop_bit 24 v))"

lemma load16_cong: "(\<And>x. x \<in> span a 2 \<Longrightarrow> m x = m' x) \<Longrightarrow> load16 m a = load16 m' a"
  by (simp add: load16_def span_iff)

lemma load32_cong: "(\<And>x. x \<in> span a 4 \<Longrightarrow> m x = m' x) \<Longrightarrow> load32 m a = load32 m' a"
  by (simp add: load32_def span_iff)

lemma store8_outside: "x \<noteq> a \<Longrightarrow> store8 m a v x = m x"
  by (simp add: store8_def)

lemma store16_outside: "x \<notin> span a 2 \<Longrightarrow> store16 m a v x = m x"
  by (auto simp: store16_def span_iff)

lemma store32_outside: "x \<notin> span a 4 \<Longrightarrow> store32 m a v x = m x"
  by (auto simp: store32_def span_iff)

lemma load8_store8 [simp]: "store8 m a v a = v"
  by (simp add: store8_def)

lemma load16_store16 [simp]: "load16 (store16 m a v) a = v"
  by (rule bit_word_eqI) (auto simp: load16_def store16_def bit_simps)

lemma load32_store32 [simp]: "load32 (store32 m a v) a = v"
proof (rule bit_word_eqI)
  fix n assume "n < LENGTH(32)"
  then consider "n < 8" | "8 \<le> n" "n < 16" | "16 \<le> n" "n < 24" | "24 \<le> n" "n < 32"
    by fastforce
  then show "bit (load32 (store32 m a v) a) n = bit v n"
    by cases (auto simp: load32_def store32_def bit_simps)
qed

text \<open>A load of one width does not see a store of another, or of the same, that is apart.\<close>

lemma apart_store8: "apart b n a 1 \<Longrightarrow> x \<in> span b n \<Longrightarrow> store8 m a v x = m x"
  by (rule store8_outside) (auto dest: apart_disjoint simp: span_iff)

lemma apart_store16: "apart b n a 2 \<Longrightarrow> x \<in> span b n \<Longrightarrow> store16 m a v x = m x"
  by (rule store16_outside) (auto dest: apart_disjoint)

lemma apart_store32: "apart b n a 4 \<Longrightarrow> x \<in> span b n \<Longrightarrow> store32 m a v x = m x"
  by (rule store32_outside) (auto dest: apart_disjoint)

lemma load_store_apart [mem_frame]:
  "apart b 1 a 1 \<Longrightarrow> store8 m a w8 b = m b"
  "apart b 1 a 2 \<Longrightarrow> store16 m a w16 b = m b"
  "apart b 1 a 4 \<Longrightarrow> store32 m a w32 b = m b"
  "apart b 2 a 1 \<Longrightarrow> load16 (store8 m a w8) b = load16 m b"
  "apart b 2 a 2 \<Longrightarrow> load16 (store16 m a w16) b = load16 m b"
  "apart b 2 a 4 \<Longrightarrow> load16 (store32 m a w32) b = load16 m b"
  "apart b 4 a 1 \<Longrightarrow> load32 (store8 m a w8) b = load32 m b"
  "apart b 4 a 2 \<Longrightarrow> load32 (store16 m a w16) b = load32 m b"
  "apart b 4 a 4 \<Longrightarrow> load32 (store32 m a w32) b = load32 m b"
  by (auto intro!: load16_cong load32_cong
      simp: apart_store8 apart_store16 apart_store32 self_in_span)

section \<open>\<^verbatim>\<open>lib/stdlib/stdlib.c\<close>\<close>

text \<open>
  \<^verbatim>\<open>size_t\<close> is a signed \<^verbatim>\<open>int\<close> here and the loops run while the count is not zero, so a
  32-bit count makes \<open>unat count\<close> rounds whatever its sign.
\<close>

lemma word_count_down [simp]: "(c :: u32) \<noteq> 0 \<Longrightarrow> unat (c - 1) < unat c"
  by (simp add: unat_minus_one unat_gt_0)

function memset :: "bytes \<Rightarrow> u32 \<Rightarrow> u8 \<Rightarrow> u32 \<Rightarrow> bytes" where
  "memset m temp v count =
     (if count \<noteq> 0 then memset (store8 m temp v) (temp + 1) v (count - 1) else m)"
  by pat_completeness auto
termination
  by (relation "measure (\<lambda>(m, temp, v, count). unat count)") auto

function memcpy :: "bytes \<Rightarrow> u32 \<Rightarrow> u32 \<Rightarrow> u32 \<Rightarrow> bytes" where
  "memcpy m dp sp count =
     (if count \<noteq> 0 then memcpy (store8 m dp (m sp)) (dp + 1) (sp + 1) (count - 1) else m)"
  by pat_completeness auto
termination
  by (relation "measure (\<lambda>(m, dp, sp, count). unat count)") auto

function memsetw :: "bytes \<Rightarrow> u32 \<Rightarrow> u16 \<Rightarrow> u32 \<Rightarrow> bytes" where
  "memsetw m temp v count =
     (if count \<noteq> 0 then memsetw (store16 m temp v) (temp + 2) v (count - 1) else m)"
  by pat_completeness auto
termination
  by (relation "measure (\<lambda>(m, temp, v, count). unat count)") auto

declare memset.simps [simp del] memcpy.simps [simp del] memsetw.simps [simp del]

lemma unat_dec: "(c :: u32) \<noteq> 0 \<Longrightarrow> unat c = Suc (unat (c - 1))"
  by (simp add: unat_minus_one unat_gt_0 Suc_pred)

lemma span_step:
  assumes "0 < n" and "n \<le> 4294967296"
  shows "x \<in> span a n \<longleftrightarrow> x = a \<or> x \<in> span (a + 1) (n - 1)"
proof (cases "x = a")
  case True
  with assms show ?thesis by (simp add: self_in_span)
next
  case False
  then have nz: "x - a \<noteq> 0" by simp
  have eq: "x - (a + 1) = (x - a) - 1" by simp
  have "unat (x - a) = Suc (unat (x - (a + 1)))"
    by (simp only: eq unat_dec [OF nz])
  with False show ?thesis by (auto simp: span_iff)
qed

lemma memset_apply [simp]: "memset m a v c x = (if x \<in> span a (unat c) then v else m x)"
proof (induction m a v c rule: memset.induct)
  case (1 m a v c)
  show ?case
  proof (cases "c = 0")
    case True
    then show ?thesis by (simp add: memset.simps [of m a v 0] span_iff)
  next
    case False
    have "x \<in> span a (unat c) \<longleftrightarrow> x = a \<or> x \<in> span (a + 1) (unat (c - 1))"
      using span_step [of "unat c" x a] unat_dec [OF False] unat_less_2p32 [of c] by simp
    moreover have "memset (store8 m a v) (a + 1) v (c - 1) x =
        (if x \<in> span (a + 1) (unat (c - 1)) then v else store8 m a v x)"
      by (rule 1 [OF False])
    ultimately show ?thesis
      using False by (cases "x = a") (simp_all add: memset.simps [of m a v c] store8_outside)
  qed
qed

lemma apart_memset: "apart b n a (unat c) \<Longrightarrow> x \<in> span b n \<Longrightarrow> memset m a v c x = m x"
  by (auto dest: apart_disjoint)

lemma load_memset_apart [mem_frame]:
  "apart b 1 a (unat c) \<Longrightarrow> memset m a v c b = m b"
  "apart b 2 a (unat c) \<Longrightarrow> load16 (memset m a v c) b = load16 m b"
  "apart b 4 a (unat c) \<Longrightarrow> load32 (memset m a v c) b = load32 m b"
  by (auto intro!: load16_cong load32_cong simp del: memset_apply
      simp: apart_memset self_in_span)

lemma load32_zeroed:
  assumes "\<And>x. x \<in> span b 4 \<Longrightarrow> m x = 0"
  shows "load32 m b = 0"
  by (simp add: load32_def assms span_iff)

text \<open>A forward copy delivers the source when the two ranges are apart.\<close>

lemma memcpy_apply:
  assumes "apart d (unat c) s (unat c)"
  shows "memcpy m d s c x = (if x \<in> span d (unat c) then m (s + (x - d)) else m x)"
  using assms
proof (induction m d s c rule: memcpy.induct)
  case (1 m d s c)
  show ?case
  proof (cases "c = 0")
    case True
    then show ?thesis by (simp add: memcpy.simps [of m d s 0] span_iff)
  next
    case False
    let ?k = "unat (c - 1)"
    have c: "unat c = Suc ?k" by (rule unat_dec [OF False])
    have ap: "apart (d + 1) ?k (s + 1) ?k" using "1.prems" by (simp add: apart_def c)
    have out: "s + (x - d) \<noteq> d" if "x \<in> span d (unat c)"
    proof -
      have "s + (x - d) \<in> span s (unat c)" using that by (simp add: span_iff)
      moreover have "d \<in> span d (unat c)" by (simp add: c self_in_span)
      ultimately show ?thesis using apart_disjoint [OF "1.prems"] by metis
    qed
    have step: "x \<in> span d (unat c) \<longleftrightarrow> x = d \<or> x \<in> span (d + 1) ?k"
      using span_step [of "unat c" x d] c unat_less_2p32 [of c] by simp
    have eq: "s + 1 + (x - (d + 1)) = s + (x - d)" by simp
    have "memcpy m d s c x = memcpy (store8 m d (m s)) (d + 1) (s + 1) (c - 1) x"
      using False by (simp add: memcpy.simps [of m d s c])
    also have "\<dots> = (if x \<in> span (d + 1) ?k then store8 m d (m s) (s + (x - d))
        else store8 m d (m s) x)"
      using 1(1) [OF False ap] by (simp only: eq)
    finally show ?thesis
      using out step by (cases "x = d") (auto simp: store8_outside)
  qed
qed

section \<open>\<^verbatim>\<open>lib/string/string.c\<close>\<close>

text \<open>
  \<open>cstring m p bs\<close>: the bytes \<open>bs\<close>, none of them zero, lie at \<open>p\<close> and a zero byte follows. The
  length loop has no bound of its own; on a memory without a zero byte it does not return.
\<close>

primrec cstring :: "bytes \<Rightarrow> u32 \<Rightarrow> u8 list \<Rightarrow> bool" where
  "cstring m p [] \<longleftrightarrow> m p = 0"
| "cstring m p (b # bs) \<longleftrightarrow> m p = b \<and> b \<noteq> 0 \<and> cstring m (p + 1) bs"

partial_function (option) strlen_loop :: "bytes \<Rightarrow> u32 \<Rightarrow> u32 \<Rightarrow> u32 option" where
  "strlen_loop m str n =
     (if m str \<noteq> 0 then strlen_loop m (str + 1) (n + 1) else Some n)"

definition strlen :: "bytes \<Rightarrow> u32 \<Rightarrow> u32 option" where
  "strlen m str = strlen_loop m str 0"

lemma strlen_loop_cstring:
  "cstring m p bs \<Longrightarrow> strlen_loop m p k = Some (k + of_nat (length bs))"
  by (induction bs arbitrary: p k) (simp_all add: strlen_loop.simps algebra_simps)

lemma strlen_cstring [simp]: "cstring m p bs \<Longrightarrow> strlen m p = Some (of_nat (length bs))"
  by (simp add: strlen_def strlen_loop_cstring)

lemma cstring_cong:
  "(\<And>x. x \<in> span p (Suc (length bs)) \<Longrightarrow> m x = m' x) \<Longrightarrow> length bs < 4294967296 \<Longrightarrow>
    cstring m p bs = cstring m' p bs"
proof (induction bs arbitrary: p)
  case Nil
  then show ?case by (simp add: span_iff)
next
  case (Cons b bs)
  have sp: "x \<in> span p (Suc (length (b # bs)))"
    if "x = p \<or> x \<in> span (p + 1) (Suc (length bs))" for x
    using span_step [of "Suc (length (b # bs))" x p] that Cons.prems(2) by simp
  have "cstring m (p + 1) bs = cstring m' (p + 1) bs"
    using sp Cons.prems by (intro Cons.IH) simp_all
  with sp Cons.prems(1) show ?case by simp
qed

function strncpy_loop :: "bytes \<Rightarrow> u32 \<Rightarrow> u32 \<Rightarrow> u32 \<Rightarrow> u32 \<Rightarrow> bytes \<times> u32" where
  "strncpy_loop m d s count ret =
     (if m s \<noteq> 0 \<and> count \<noteq> 0
      then strncpy_loop (store8 m d (m s)) (d + 1) (s + 1) (count - 1) (ret + 1)
      else (m, ret))"
  by pat_completeness auto
termination
  by (relation "measure (\<lambda>(m, d, s, count, ret). unat count)") auto

declare strncpy_loop.simps [simp del]

definition strncpy :: "bytes \<Rightarrow> u32 \<Rightarrow> u32 \<Rightarrow> u32 \<Rightarrow> bytes \<times> u32" where
  "strncpy m dest src count = strncpy_loop m dest src count 0"

lemma cstring_store8:
  assumes "cstring m p bs" and "apart p (Suc (length bs)) d 1" and "length bs < 4294967296"
  shows "cstring (store8 m d v) p bs"
proof -
  have "cstring m p bs = cstring (store8 m d v) p bs"
    using assms(2,3) by (intro cstring_cong) (simp_all add: apart_store8)
  with assms(1) show ?thesis by simp
qed

lemma strncpy_loop_cstring:
  assumes "cstring m s bs" and "apart d (Suc (length bs)) s (Suc (length bs))"
    and "length bs < 4294967295" and "n = min (length bs) (unat c)"
  shows "strncpy_loop m d s c ret = (\<lambda>x. if x \<in> span d n then m (s + (x - d)) else m x,
    ret + of_nat n)"
  using assms
proof (induction bs arbitrary: m d s c ret n)
  case Nil
  then show ?case by (simp add: strncpy_loop.simps [of m d s c] span_iff)
next
  case (Cons b bs)
  show ?case
  proof (cases "c = 0")
    case True
    with Cons.prems show ?thesis by (simp add: strncpy_loop.simps [of m d s 0] span_iff)
  next
    case False
    let ?m = "store8 m d b" and ?k = "min (length bs) (unat (c - 1))"
    have n: "n = Suc ?k" using Cons.prems(4) unat_dec [OF False] by simp
    have ap: "Suc (Suc (length bs)) \<le> unat (s - d)" "Suc (Suc (length bs)) \<le> unat (d - s)"
      using Cons.prems(2) by (simp_all add: apart_def)
    then have ap': "apart d (Suc (length bs)) s (Suc (length bs))"
      by (simp add: apart_def)
    have "apart (s + 1) (Suc (length bs)) d 1"
    proof -
      have "d - s \<noteq> 0" using ap(2) by (metis unat_0 not_less_eq_eq zero_le)
      from unat_dec [OF this] have "unat (d - (s + 1)) = unat (d - s) - 1"
        by (simp add: diff_diff_eq)
      moreover have eq: "s + 1 - d = (s - d) + 1" by simp
      moreover have "s - d + 1 \<noteq> 0"
      proof
        assume "s - d + 1 = 0"
        then have "d - s = 1" by (metis add.inverse_unique minus_diff_eq)
        with ap(2) show False by simp
      qed
      then have "1 \<le> unat (s - d + 1)" by (simp add: unat_gt_0 Suc_leI)
      then have "1 \<le> unat (s + 1 - d)" by (simp only: eq)
      ultimately show ?thesis using ap by (simp add: apart_def)
    qed
    then have cs: "cstring ?m (s + 1) bs"
      using Cons.prems(1,3) by (intro cstring_store8) simp_all
    have eq: "s + 1 + (x - (d + 1)) = s + (x - d)" for x by simp
    have "strncpy_loop ?m (d + 1) (s + 1) (c - 1) (ret + 1) =
        (\<lambda>x. if x \<in> span (d + 1) ?k then ?m (s + 1 + (x - (d + 1))) else ?m x,
         ret + 1 + of_nat ?k)"
      using Cons.prems(3) ap' by (intro Cons.IH cs) (simp_all add: apart_def)
    then have IH: "strncpy_loop ?m (d + 1) (s + 1) (c - 1) (ret + 1) =
        (\<lambda>x. if x \<in> span (d + 1) ?k then ?m (s + (x - d)) else ?m x, ret + 1 + of_nat ?k)"
      by (simp only: eq)
    have out: "s + (x - d) \<noteq> d" if "x \<in> span d n" for x
    proof -
      have "n \<le> Suc (Suc (length bs))" using n by simp
      then have "s + (x - d) \<in> span s (Suc (Suc (length bs)))"
        using that by (simp add: span_iff)
      moreover have "d \<in> span d (Suc (Suc (length bs)))" by (simp add: self_in_span)
      ultimately show ?thesis using apart_disjoint [OF Cons.prems(2)] by (metis length_Cons)
    qed
    have step: "x \<in> span d n \<longleftrightarrow> x = d \<or> x \<in> span (d + 1) ?k" for x
      using span_step [of n x d] n Cons.prems(3) by simp
    have "(\<lambda>x. if x \<in> span (d + 1) ?k then ?m (s + (x - d)) else ?m x) =
        (\<lambda>x. if x \<in> span d n then m (s + (x - d)) else m x)"
      using out step Cons.prems(1) by (auto simp: fun_eq_iff store8_def)
    moreover have "strncpy_loop m d s c ret = strncpy_loop ?m (d + 1) (s + 1) (c - 1) (ret + 1)"
      using False Cons.prems(1) by (simp add: strncpy_loop.simps [of m d s c])
    ultimately show ?thesis
      by (simp add: IH n)
  qed
qed

lemma strncpy_cstring:
  assumes "cstring m s bs" and "apart d (Suc (length bs)) s (Suc (length bs))"
    and "length bs < 4294967295" and "n = min (length bs) (unat c)"
  shows "strncpy m d s c = (\<lambda>x. if x \<in> span d n then m (s + (x - d)) else m x, of_nat n)"
  unfolding strncpy_def using strncpy_loop_cstring [OF assms] by simp

section \<open>\<^verbatim>\<open>cpu/portio.c\<close>\<close>

text \<open>
  A port write is recorded with the port number the \<^verbatim>\<open>outb\<close> instruction uses, its low 16 bits;
  reads return what the devices present, the field \<open>port_in\<close>.
\<close>

definition outportb :: "u32 \<Rightarrow> u8 \<Rightarrow> 'a machine_scheme \<Rightarrow> 'a machine_scheme" where
  "outportb port outdata s = s\<lparr>ports := ports s @ [(port AND 0xFFFF, outdata)]\<rparr>"

definition inportb :: "u16 \<Rightarrow> 'a machine_scheme \<Rightarrow> u8" where
  "inportb port s = port_in s port"

text \<open>
  A wide access goes to consecutive byte ports, the low byte at the given one, which is how the processor
  describes the address space of the ports; a device that answers differently to wide accesses is
  another \<open>port_in\<close>.
\<close>

definition outportw :: "u16 \<Rightarrow> u16 \<Rightarrow> 'a machine_scheme \<Rightarrow> 'a machine_scheme" where
  "outportw port d s = outportb (ucast (port + 1)) (ucast (drop_bit 8 d)) (outportb (ucast port) (ucast d) s)"

definition inportw :: "u16 \<Rightarrow> 'a machine_scheme \<Rightarrow> u16" where
  "inportw port s = ucast (inportb port s) OR push_bit 8 (ucast (inportb (port + 1) s))"

definition outportdw :: "u16 \<Rightarrow> u32 \<Rightarrow> 'a machine_scheme \<Rightarrow> 'a machine_scheme" where
  "outportdw port d s = outportw (port + 2) (ucast (drop_bit 16 d)) (outportw port (ucast d) s)"

definition inportdw :: "u16 \<Rightarrow> 'a machine_scheme \<Rightarrow> u32" where
  "inportdw port s = ucast (inportw port s) OR push_bit 16 (ucast (inportw (port + 2) s))"

lemma outportb_simps [simp]:
  "mem (outportb p d s) = mem s" "panics (outportb p d s) = panics s"
  "port_in (outportb p d s) = port_in s"
  "ports (outportb p d s) = ports s @ [(p AND 0xFFFF, d)]"
  by (simp_all add: outportb_def)

end
