(* ===== verification/Tty.thy ===== *)
theory Tty
  imports Machine "HOL-Library.Signed_Division"
begin

text \<open>
  The text terminal of \<^verbatim>\<open>lib/tty/tty.c\<close>: its static variables, the screen of 16-bit cells in
  memory, the two loops that fill and scroll it, and the character interpreter
  \<^verbatim>\<open>tty_putc\<close>. C's \<^verbatim>\<open>/\<close> and \<^verbatim>\<open>%\<close> on \<^verbatim>\<open>int\<close> truncate, so they are \<open>sdiv\<close> and
  \<open>smod\<close>. \<open>tty_wf\<close> is the terminal's invariant (the cursor is on the screen); the abstract
  terminal \<open>term_putc\<close> works on the list of cells, and \<open>tty_putc\<close> refines it.
\<close>

section \<open>State and operations\<close>

record tty = machine +
  tty_w :: int
  tty_h :: int
  tty_color :: int
  tty_x :: int
  tty_y :: int
  tty_scr :: u32

definition tty_cell :: "u16 \<Rightarrow> int \<Rightarrow> u16" where
  "tty_cell c color = c OR push_bit 8 (word_of_int color)"

definition tty_addr :: "u32 \<Rightarrow> int \<Rightarrow> u32" where
  "tty_addr scr t = scr + 2 * word_of_int t"

definition tty_setcursor :: "int \<Rightarrow> int \<Rightarrow> int \<Rightarrow> int \<Rightarrow> 'a tty_scheme \<Rightarrow> 'a tty_scheme" where
  "tty_setcursor x y w h s =
     (let position = (word_of_int (x * 80 + y) :: u16);
          s = outportb 0x3D4 0x0F s;
          s = outportb 0x3D5 (ucast (position AND 0xFF)) s;
          s = outportb 0x3D4 0x0E s
      in outportb 0x3D5 (ucast (drop_bit 8 position AND 0xFF)) s)"

function tty_blank :: "bytes \<Rightarrow> u32 \<Rightarrow> u16 \<Rightarrow> int \<Rightarrow> int \<Rightarrow> bytes" where
  "tty_blank m scr v t n =
     (if t < n then tty_blank (store16 m (tty_addr scr t) v) scr v (t + 1) n else m)"
  by pat_completeness auto
termination
  by (relation "measure (\<lambda>(m, scr, v, t, n). nat (n - t))") auto

function tty_shift :: "bytes \<Rightarrow> u32 \<Rightarrow> int \<Rightarrow> int \<Rightarrow> int \<Rightarrow> bytes" where
  "tty_shift m scr w t n =
     (if t < n
      then tty_shift (store16 m (tty_addr scr t) (load16 m (tty_addr scr (t + w)))) scr w (t + 1) n
      else m)"
  by pat_completeness auto
termination
  by (relation "measure (\<lambda>(m, scr, w, t, n). nat (n - t))") auto

declare tty_blank.simps [simp del] tty_shift.simps [simp del]

definition tty_cls :: "'a tty_scheme \<Rightarrow> 'a tty_scheme" where
  "tty_cls s =
     (let s = s\<lparr>mem := tty_blank (mem s) (tty_scr s) (tty_cell 0x20 (tty_color s))
                 0 (tty_w s * tty_h s)\<rparr>;
          s = s\<lparr>tty_x := 0, tty_y := 0\<rparr>
      in tty_setcursor 0 0 (tty_w s) (tty_h s) s)"

definition tty_scrollup :: "'a tty_scheme \<Rightarrow> 'a tty_scheme" where
  "tty_scrollup s =
     (let last = tty_w s * (tty_h s - 1);
          m = tty_shift (mem s) (tty_scr s) (tty_w s) 0 last
      in s\<lparr>mem := tty_blank m (tty_scr s) (tty_cell 0x20 (tty_color s))
             (max 0 last) (tty_w s * tty_h s)\<rparr>)"

definition tty_switch :: "u8 \<Rightarrow> 'a tty_scheme \<Rightarrow> 'a tty_scheme" where
  "tty_switch c s =
     (if c = 13 then s\<lparr>tty_x := 0\<rparr>
      else if c = 10 then s\<lparr>tty_x := 0, tty_y := tty_y s + 1\<rparr>
      else if c = 8 then
        (let t = tty_x s + tty_y s * tty_w s;
             t = (if t > 0 then t - 1 else t)
         in s\<lparr>tty_x := t smod tty_w s, tty_y := t sdiv tty_w s,
              mem := store16 (mem s) (tty_addr (tty_scr s) t) (tty_cell 0x20 (tty_color s))\<rparr>)
      else if sint c < 32 then s
      else
        (let s = s\<lparr>mem := store16 (mem s) (tty_addr (tty_scr s) (tty_x s + tty_y s * tty_w s))
                    (tty_cell (ucast c) (tty_color s))\<rparr>;
             s = s\<lparr>tty_x := tty_x s + 1\<rparr>
         in if tty_x s = tty_w s then s\<lparr>tty_x := 0, tty_y := tty_y s + 1\<rparr> else s))"

definition tty_putc :: "u8 \<Rightarrow> 'a tty_scheme \<Rightarrow> 'a tty_scheme" where
  "tty_putc c s =
     (let s = tty_switch c s;
          s = (if tty_y s = tty_h s
               then let s = tty_scrollup s in s\<lparr>tty_y := tty_y s - 1\<rparr> else s)
      in tty_setcursor (tty_x s) (tty_y s) (tty_w s) (tty_h s) s)"

definition tty_gotoxy :: "int \<Rightarrow> int \<Rightarrow> 'a tty_scheme \<Rightarrow> 'a tty_scheme" where
  "tty_gotoxy x y s =
     (let s = s\<lparr>tty_x := x smod tty_w s, tty_y := y smod tty_h s\<rparr>
      in tty_setcursor (tty_x s) (tty_y s) (tty_w s) (tty_h s) s)"

definition tty_setcolor :: "u8 \<Rightarrow> 'a tty_scheme \<Rightarrow> 'a tty_scheme" where
  "tty_setcolor color s = s\<lparr>tty_color := uint color\<rparr>"

partial_function (option) tty_write :: "u32 \<Rightarrow> 'a tty_scheme \<Rightarrow> 'a tty_scheme option" where
  "tty_write str s =
     (if mem s str \<noteq> 0 then tty_write (str + 1) (tty_putc (mem s str) s) else Some s)"

definition tty_setup :: "int \<Rightarrow> int \<Rightarrow> u32 \<Rightarrow> 'a tty_scheme \<Rightarrow> 'a tty_scheme" where
  "tty_setup w h screen s =
     tty_cls (s\<lparr>tty_w := w, tty_h := h, tty_x := 0, tty_y := 0, tty_scr := screen\<rparr>)"

section \<open>The screen as a row of cells\<close>

definition tty_wf :: "'a tty_scheme \<Rightarrow> bool" where
  "tty_wf s \<longleftrightarrow> 0 < tty_w s \<and> 0 < tty_h s \<and> 0 \<le> tty_x s \<and> tty_x s < tty_w s
     \<and> 0 \<le> tty_y s \<and> tty_y s < tty_h s
     \<and> int (unat (tty_scr s)) + 2 * (tty_w s * tty_h s) \<le> 4294967296"

definition screen :: "'a tty_scheme \<Rightarrow> u32 set" where
  "screen s = span (tty_scr s) (nat (2 * (tty_w s * tty_h s)))"

lemma unat_tty_off:
  assumes "0 \<le> t" and "t < 2147483648"
  shows "unat (2 * word_of_int t :: u32) = nat (2 * t)"
proof -
  have "2 * word_of_int t = (word_of_int (2 * t) :: u32)" by simp
  moreover have "uint (word_of_int (2 * t) :: u32) = 2 * t mod 4294967296"
    by (simp only: uint_word_of_int) simp
  moreover have "2 * t mod 4294967296 = 2 * t"
    using assms by (intro mod_pos_pos_trivial) linarith+
  ultimately show ?thesis by (simp only: unat_eq_nat_uint)
qed

lemma tty_addr_apart:
  assumes "0 \<le> t" "t < n" "0 \<le> k" "k < n" "t \<noteq> k" "n \<le> 2147483648"
  shows "apart (tty_addr scr t) 2 (tty_addr scr k) 2"
  using assms unat_tty_off [of t] unat_tty_off [of k]
  by (auto simp: apart_def tty_addr_def unat_minus_cases)

lemma tty_addr_span:
  assumes "0 \<le> t" "t < n" "n \<le> 2147483648" "x \<in> span (tty_addr scr t) 2"
  shows "x \<in> span scr (nat (2 * n))"
  using span_offset [of x scr "2 * word_of_int t" 2 "nat (2 * n)"] assms unat_tty_off [of t]
  by (simp add: tty_addr_def)

definition cell_at :: "bytes \<Rightarrow> u32 \<Rightarrow> int \<Rightarrow> u16" where
  "cell_at m scr t = load16 m (tty_addr scr t)"

lemma cell_at_store16:
  assumes "0 \<le> t" "t < n" "0 \<le> k" "k < n" "n \<le> 2147483648"
  shows "cell_at (store16 m (tty_addr scr t) v) scr k = (if k = t then v else cell_at m scr k)"
  using tty_addr_apart [of k n t] assms by (auto simp: cell_at_def mem_frame)

lemma cell_at_blank:
  assumes "0 \<le> t" "n \<le> N" "0 \<le> k" "k < N" "N \<le> 2147483648"
  shows "cell_at (tty_blank m scr v t n) scr k =
    (if t \<le> k \<and> k < n then v else cell_at m scr k)"
  using assms
proof (induction m scr v t n rule: tty_blank.induct)
  case (1 m scr v t n)
  show ?case
  proof (cases "t < n")
    case True
    with 1 show ?thesis
      using cell_at_store16 [of t N k m scr v] by (auto simp: tty_blank.simps [of m scr v t n])
  qed (auto simp: tty_blank.simps [of m scr v t n])
qed

lemma cell_at_shift:
  assumes "0 \<le> t" "0 < w" "n + w \<le> N" "0 \<le> k" "k < N" "N \<le> 2147483648"
  shows "cell_at (tty_shift m scr w t n) scr k =
    (if t \<le> k \<and> k < n then cell_at m scr (k + w) else cell_at m scr k)"
  using assms
proof (induction m scr w t n rule: tty_shift.induct)
  case (1 m scr w t n)
  show ?case
  proof (cases "t < n")
    case True
    let ?m = "store16 m (tty_addr scr t) (load16 m (tty_addr scr (t + w)))"
    have st: "cell_at ?m scr j = (if j = t then cell_at m scr (t + w) else cell_at m scr j)"
      if "0 \<le> j" "j < N" for j
      using cell_at_store16 [of t N j m scr] that 1(2-7) True by (simp add: cell_at_def)
    show ?thesis
      using 1 True st [of k] st [of "k + w"]
      by (auto simp: tty_shift.simps [of m scr w t n])
  qed (auto simp: tty_shift.simps [of m scr w t n])
qed

lemma tty_store_outside:
  "0 \<le> t \<Longrightarrow> t < n \<Longrightarrow> n \<le> 2147483648 \<Longrightarrow> x \<notin> span scr (nat (2 * n)) \<Longrightarrow>
    store16 m (tty_addr scr t) v x = m x"
  using store16_outside tty_addr_span by blast

lemma tty_blank_outside:
  assumes "0 \<le> t" "n \<le> N" "N \<le> 2147483648" "x \<notin> span scr (nat (2 * N))"
  shows "tty_blank m scr v t n x = m x"
  using assms
proof (induction m scr v t n rule: tty_blank.induct)
  case (1 m scr v t n)
  then show ?case
    by (auto simp: tty_blank.simps [of m scr v t n] tty_store_outside [of t N])
qed

lemma tty_shift_outside:
  assumes "0 \<le> t" "n \<le> N" "N \<le> 2147483648" "x \<notin> span scr (nat (2 * N))"
  shows "tty_shift m scr w t n x = m x"
  using assms
proof (induction m scr w t n rule: tty_shift.induct)
  case (1 m scr w t n)
  then show ?case
    by (auto simp: tty_shift.simps [of m scr w t n] tty_store_outside [of t N])
qed

section \<open>The abstract terminal\<close>

record terminal =
  t_w :: nat
  t_h :: nat
  t_blank :: u16
  t_col :: nat
  t_row :: nat
  t_cells :: "u16 list"

definition cells :: "bytes \<Rightarrow> u32 \<Rightarrow> nat \<Rightarrow> u16 list" where
  "cells m scr n = map (\<lambda>t. cell_at m scr (int t)) [0..<n]"

definition term_of :: "'a tty_scheme \<Rightarrow> terminal" where
  "term_of s = \<lparr>t_w = nat (tty_w s), t_h = nat (tty_h s), t_blank = tty_cell 0x20 (tty_color s),
     t_col = nat (tty_x s), t_row = nat (tty_y s),
     t_cells = cells (mem s) (tty_scr s) (nat (tty_w s) * nat (tty_h s))\<rparr>"

definition term_switch :: "u8 \<Rightarrow> u16 \<Rightarrow> terminal \<Rightarrow> terminal" where
  "term_switch c v T =
     (if c = 13 then T\<lparr>t_col := 0\<rparr>
      else if c = 10 then T\<lparr>t_col := 0, t_row := t_row T + 1\<rparr>
      else if c = 8 then
        (let t = t_col T + t_row T * t_w T - 1
         in T\<lparr>t_col := t mod t_w T, t_row := t div t_w T, t_cells := (t_cells T)[t := t_blank T]\<rparr>)
      else if unat c < 32 \<or> 128 \<le> unat c then T
      else if t_col T + 1 = t_w T
        then T\<lparr>t_cells := (t_cells T)[t_col T + t_row T * t_w T := v],
               t_col := 0, t_row := t_row T + 1\<rparr>
        else T\<lparr>t_cells := (t_cells T)[t_col T + t_row T * t_w T := v], t_col := t_col T + 1\<rparr>)"

definition term_scroll :: "terminal \<Rightarrow> terminal" where
  "term_scroll T = T\<lparr>t_cells := drop (t_w T) (t_cells T) @ replicate (t_w T) (t_blank T)\<rparr>"

definition term_putc :: "u8 \<Rightarrow> u16 \<Rightarrow> terminal \<Rightarrow> terminal" where
  "term_putc c v T =
     (let T = term_switch c v T
      in if t_row T = t_h T then (term_scroll T)\<lparr>t_row := t_row T - 1\<rparr> else T)"

lemma length_cells [simp]: "length (cells m scr n) = n"
  by (simp add: cells_def)

lemma nth_cells [simp]: "k < n \<Longrightarrow> cells m scr n ! k = cell_at m scr (int k)"
  by (simp add: cells_def)

lemma cells_store16:
  assumes "0 \<le> t" "t < int n" "n \<le> 2147483648"
  shows "cells (store16 m (tty_addr scr t) v) scr n = (cells m scr n)[nat t := v]"
  using assms
  by (intro nth_equalityI) (auto simp: cell_at_store16 [where n = "int n"] nth_list_update)

lemma sint_less_32: "sint (c :: u8) < 32 \<longleftrightarrow> unat c < 32 \<or> 128 \<le> unat c"
proof -
  have a: "sint c = (int (unat c) + 128) mod 256 - 128"
    using signed_take_bit_eq_take_bit_shift [of 7 "uint c"]
    by (simp add: sint_uint take_bit_eq_mod)
  have u: "unat c < 256" using unsigned_less [of c] by simp
  show ?thesis
  proof (cases "unat c < 128")
    case True
    then have "(int (unat c) + 128) mod 256 = int (unat c) + 128"
      by (intro mod_pos_pos_trivial) linarith+
    with a True show ?thesis by linarith
  next
    case False
    have eq: "int (unat c) + 128 = int (unat c) - 128 + 256" by linarith
    have "(int (unat c) + 128) mod 256 = (int (unat c) - 128) mod 256"
      unfolding eq by (rule mod_add_self2)
    also have "\<dots> = int (unat c) - 128"
      using u False by (intro mod_pos_pos_trivial) linarith+
    finally show ?thesis using a False u by linarith
  qed
qed

text \<open>The invariant without the bound on the row that scrolling restores.\<close>

definition tty_dims :: "'a tty_scheme \<Rightarrow> bool" where
  "tty_dims s \<longleftrightarrow> 0 < tty_w s \<and> 0 < tty_h s
     \<and> int (unat (tty_scr s)) + 2 * (tty_w s * tty_h s) \<le> 4294967296"

lemma tty_dims_size: "tty_dims s \<Longrightarrow> tty_w s * tty_h s \<le> 2147483648"
  unfolding tty_dims_def using of_nat_0_le_iff [of "unat (tty_scr s)"] by linarith

lemma tty_wf_dims:
  "tty_wf s \<longleftrightarrow> tty_dims s \<and> 0 \<le> tty_x s \<and> tty_x s < tty_w s \<and> 0 \<le> tty_y s \<and> tty_y s < tty_h s"
  by (auto simp: tty_wf_def tty_dims_def)

lemma linear_in_screen:
  assumes "0 \<le> (x :: int)" "x < w" "0 \<le> y" "y < h"
  shows "0 \<le> x + y * w" "x + y * w < w * h"
proof -
  have "(y + 1) * w \<le> h * w" using assms by (intro mult_right_mono) simp_all
  then show "x + y * w < w * h" using assms by (simp add: algebra_simps)
  show "0 \<le> x + y * w" using assms by simp
qed


lemma tty_setcursor_simps [simp]:
  "mem (tty_setcursor x y w h s) = mem s" "panics (tty_setcursor x y w h s) = panics s"
  "tty_w (tty_setcursor x y w h s) = tty_w s" "tty_h (tty_setcursor x y w h s) = tty_h s"
  "tty_color (tty_setcursor x y w h s) = tty_color s" "tty_x (tty_setcursor x y w h s) = tty_x s"
  "tty_y (tty_setcursor x y w h s) = tty_y s" "tty_scr (tty_setcursor x y w h s) = tty_scr s"
  by (simp_all add: tty_setcursor_def outportb_def Let_def)

lemma term_of_setcursor [simp]: "term_of (tty_setcursor x y w h s) = term_of s"
  by (simp add: term_of_def)

lemma scrollup_cell:
  assumes "tty_dims s" "0 \<le> k" "k < tty_w s * tty_h s"
  shows "cell_at (mem (tty_scrollup s)) (tty_scr s) k =
    (if k < tty_w s * (tty_h s - 1) then cell_at (mem s) (tty_scr s) (k + tty_w s)
     else tty_cell 0x20 (tty_color s))"
proof -
  let ?n = "tty_w s * tty_h s" and ?l = "tty_w s * (tty_h s - 1)"
  have wh: "0 < tty_w s" "1 \<le> tty_h s" using assms(1) by (simp_all add: tty_dims_def)
  have l: "0 \<le> ?l" "?l + tty_w s = ?n" using wh by (simp_all add: algebra_simps)
  have "cell_at (tty_shift (mem s) (tty_scr s) (tty_w s) 0 ?l) (tty_scr s) k =
      (if 0 \<le> k \<and> k < ?l then cell_at (mem s) (tty_scr s) (k + tty_w s)
       else cell_at (mem s) (tty_scr s) k)"
    using wh l assms tty_dims_size [OF assms(1)] by (intro cell_at_shift [where N = ?n]) simp_all
  moreover have "cell_at (tty_blank m (tty_scr s) v ?l ?n) (tty_scr s) k =
      (if ?l \<le> k \<and> k < ?n then v else cell_at m (tty_scr s) k)" for m v
    using l assms tty_dims_size [OF assms(1)] by (intro cell_at_blank [where N = ?n]) simp_all
  ultimately show ?thesis
    using l assms(2,3) by (simp add: tty_scrollup_def Let_def max_absorb2)
qed

lemma tty_scrollup_simps [simp]:
  "tty_w (tty_scrollup s) = tty_w s" "tty_h (tty_scrollup s) = tty_h s"
  "tty_color (tty_scrollup s) = tty_color s" "tty_x (tty_scrollup s) = tty_x s"
  "tty_y (tty_scrollup s) = tty_y s" "tty_scr (tty_scrollup s) = tty_scr s"
  "panics (tty_scrollup s) = panics s" "ports (tty_scrollup s) = ports s"
  by (simp_all add: tty_scrollup_def Let_def)

lemma term_of_scrollup:
  assumes "tty_dims s"
  shows "term_of (tty_scrollup s) = term_scroll (term_of s)"
proof -
  let ?w = "nat (tty_w s)" and ?h = "nat (tty_h s)"
  let ?cs = "cells (mem s) (tty_scr s) (?w * ?h)"
  have wh: "0 < tty_w s" "1 \<le> tty_h s" using assms by (simp_all add: tty_dims_def)
  then have w: "int ?w = tty_w s" and h: "int ?h = tty_h s" by simp_all
  have n: "int (?w * ?h) = tty_w s * tty_h s" by (simp only: of_nat_mult w h)
  have le: "?w \<le> ?w * ?h" using wh by simp
  have l: "int (?w * ?h - ?w) = tty_w s * (tty_h s - 1)"
    using le by (simp only: of_nat_diff n w) (simp add: algebra_simps)
  have "cells (mem (tty_scrollup s)) (tty_scr s) (?w * ?h) =
      drop ?w ?cs @ replicate ?w (tty_cell 0x20 (tty_color s))"
  proof (rule nth_equalityI)
    show "length (cells (mem (tty_scrollup s)) (tty_scr s) (?w * ?h)) =
        length (drop ?w ?cs @ replicate ?w (tty_cell 0x20 (tty_color s)))"
      using le by simp
  next
    fix k assume "k < length (cells (mem (tty_scrollup s)) (tty_scr s) (?w * ?h))"
    then have k: "k < ?w * ?h" by simp
    then have ki: "int k < tty_w s * tty_h s" by (simp only: of_nat_less_iff flip: n)
    show "cells (mem (tty_scrollup s)) (tty_scr s) (?w * ?h) ! k =
        (drop ?w ?cs @ replicate ?w (tty_cell 0x20 (tty_color s))) ! k"
    proof (cases "k < ?w * ?h - ?w")
      case True
      then have "int k < tty_w s * (tty_h s - 1)" by (simp only: of_nat_less_iff flip: l)
      moreover have "?w + k < ?w * ?h" using True by linarith
      ultimately show ?thesis
        using True ki wh by (simp add: scrollup_cell [OF assms _ ki] nth_append add.commute)
    next
      case False
      then have "\<not> int k < tty_w s * (tty_h s - 1)" by (simp only: of_nat_less_iff flip: l) simp
      moreover have "k - (?w * ?h - ?w) < ?w" using False k le by linarith
      ultimately show ?thesis
        using False k ki by (simp add: scrollup_cell [OF assms _ ki] nth_append)
    qed
  qed
  then show ?thesis by (simp add: term_of_def term_scroll_def)
qed


lemma sdiv_smod_nat:
  "0 \<le> (t :: int) \<Longrightarrow> 0 < w \<Longrightarrow> t smod w = t mod w"
  "0 \<le> (t :: int) \<Longrightarrow> 0 < w \<Longrightarrow> t sdiv w = t div w"
  by (simp_all add: signed_divide_int_def signed_modulo_int_def sgn_if minus_div_mult_eq_mod)

lemma tty_switch_simps [simp]:
  "tty_w (tty_switch c s) = tty_w s" "tty_h (tty_switch c s) = tty_h s"
  "tty_color (tty_switch c s) = tty_color s" "tty_scr (tty_switch c s) = tty_scr s"
  "panics (tty_switch c s) = panics s" "ports (tty_switch c s) = ports s"
  by (simp_all add: tty_switch_def Let_def)

lemma tty_dims_switch [simp]: "tty_dims (tty_switch c s) = tty_dims s"
  by (simp add: tty_dims_def)

lemma backspace_position:
  assumes "0 < w" "0 \<le> (x :: int)" "x < w" "0 \<le> y" "y < h"
  defines "t \<equiv> x + y * w" and "t' \<equiv> (if x + y * w > 0 then x + y * w - 1 else x + y * w)"
  shows "0 \<le> t'" "t' < w * h" "nat t' = nat x + nat y * nat w - 1"
    "0 \<le> t' div w" "t' div w < h" "0 \<le> t' mod w" "t' mod w < w"
proof -
  have lin: "0 \<le> x + y * w" "x + y * w < w * h" using linear_in_screen assms(2-5) by auto
  then show r: "0 \<le> t'" "t' < w * h" by (auto simp: t'_def)
  have "nat (x + y * w) = nat x + nat y * nat w"
    using assms by (simp add: nat_add_distrib nat_mult_distrib)
  then show "nat t' = nat x + nat y * nat w - 1"
    using lin by (auto simp: t'_def nat_diff_distrib)
  show "0 \<le> t' div w" using r assms(1) by (simp add: pos_imp_zdiv_nonneg_iff)
  show "t' div w < h"
  proof (rule ccontr)
    assume "\<not> t' div w < h"
    then have "h * w \<le> t' div w * w" using assms(1) by (intro mult_right_mono) simp_all
    also have "\<dots> \<le> t'" using div_mult_mod_eq [of t' w] assms(1) pos_mod_sign [of w t'] by linarith
    finally show False using r(2) by (simp add: mult.commute)
  qed
  show "0 \<le> t' mod w" "t' mod w < w" using assms(1) by simp_all
qed

lemma tty_switch_cases:
  obtains (cr) "c = 13" "tty_switch c s = s\<lparr>tty_x := 0\<rparr>"
  | (nl) "c = 10" "tty_switch c s = s\<lparr>tty_x := 0, tty_y := tty_y s + 1\<rparr>"
  | (bs) "c = 8"
  | (ignored) "c \<noteq> 13" "c \<noteq> 10" "c \<noteq> 8" "sint c < 32" "tty_switch c s = s"
  | (print) "c \<noteq> 13" "c \<noteq> 10" "c \<noteq> 8" "\<not> sint c < 32"
proof -
  consider "c = 13" | "c = 10" | "c = 8" | "c \<noteq> 13" "c \<noteq> 10" "c \<noteq> 8" "sint c < 32"
    | "c \<noteq> 13" "c \<noteq> 10" "c \<noteq> 8" "\<not> sint c < 32" by blast
  then show ?thesis
  proof cases
    case 1
    then show ?thesis by (intro cr) (simp_all add: tty_switch_def)
  next
    case 2
    then show ?thesis by (intro nl) (simp_all add: tty_switch_def)
  next
    case 3
    then show ?thesis by (rule bs)
  next
    case 4
    then show ?thesis by (intro ignored) (simp_all add: tty_switch_def)
  next
    case 5
    then show ?thesis by (rule print)
  qed
qed

lemma tty_switch_print:
  fixes s :: "'a tty_scheme"
  assumes "c \<noteq> 13" "c \<noteq> 10" "c \<noteq> 8" "\<not> sint c < 32"
  defines "s' \<equiv> s\<lparr>mem := store16 (mem s) (tty_addr (tty_scr s) (tty_x s + tty_y s * tty_w s))
      (tty_cell (ucast c) (tty_color s))\<rparr>"
  shows "tty_switch c s = (if tty_x s + 1 = tty_w s
      then s'\<lparr>tty_x := 0, tty_y := tty_y s + 1\<rparr> else s'\<lparr>tty_x := tty_x s + 1\<rparr>)"
  using assms by (simp add: tty_switch_def Let_def)

lemma tty_switch_bs:
  fixes s :: "'a tty_scheme"
  assumes "0 < tty_w s" "0 \<le> tty_x s" "tty_x s < tty_w s" "0 \<le> tty_y s" "tty_y s < tty_h s"
  defines "t \<equiv> tty_x s + tty_y s * tty_w s"
  defines "t' \<equiv> if t > 0 then t - 1 else t"
  shows "tty_switch 8 s = s\<lparr>tty_x := t' mod tty_w s, tty_y := t' div tty_w s,
      mem := store16 (mem s) (tty_addr (tty_scr s) t') (tty_cell 0x20 (tty_color s))\<rparr>"
proof -
  have "0 \<le> t'" using backspace_position(1) [OF assms(1-5)] by (simp only: t'_def t_def)
  from sdiv_smod_nat [OF this assms(1)] show ?thesis
    by (simp add: tty_switch_def Let_def flip: t_def t'_def)
qed

lemma tty_switch_cursor:
  assumes "tty_wf s"
  shows "0 \<le> tty_x (tty_switch c s) \<and> tty_x (tty_switch c s) < tty_w s
    \<and> 0 \<le> tty_y (tty_switch c s) \<and> tty_y (tty_switch c s) \<le> tty_h s"
proof -
  have dims: "0 < tty_w s" "0 \<le> tty_x s" "tty_x s < tty_w s" "0 \<le> tty_y s" "tty_y s < tty_h s"
    using assms by (simp_all add: tty_wf_def)
  show ?thesis
  proof (cases c s rule: tty_switch_cases)
    case bs
    then show ?thesis
      using tty_switch_bs [OF dims] backspace_position [OF dims] by (simp add: less_imp_le)
  next
    case print
    then show ?thesis using dims by (simp add: tty_switch_print)
  qed (use dims in simp_all)
qed

lemma wf_linear:
  assumes "tty_wf s"
  shows "0 \<le> tty_x s + tty_y s * tty_w s" "tty_x s + tty_y s * tty_w s < tty_w s * tty_h s"
    "nat (tty_x s + tty_y s * tty_w s) = nat (tty_x s) + nat (tty_y s) * nat (tty_w s)"
  using assms linear_in_screen [of "tty_x s" "tty_w s" "tty_y s" "tty_h s"]
  by (simp_all add: tty_wf_def nat_add_distrib nat_mult_distrib)

lemma wf_size:
  assumes "tty_wf s"
  shows "int (nat (tty_w s) * nat (tty_h s)) = tty_w s * tty_h s"
    "nat (tty_w s) * nat (tty_h s) \<le> 2147483648"
proof -
  show eq: "int (nat (tty_w s) * nat (tty_h s)) = tty_w s * tty_h s"
    using assms by (simp add: tty_wf_def)
  have "tty_w s * tty_h s \<le> 2147483648"
    using assms tty_dims_size by (auto simp: tty_wf_dims)
  then show "nat (tty_w s) * nat (tty_h s) \<le> 2147483648"
    by (simp only: flip: eq)
qed

lemma cells_store_linear:
  assumes "tty_wf s" "0 \<le> t" "t < tty_w s * tty_h s"
  shows "cells (store16 (mem s) (tty_addr (tty_scr s) t) v) (tty_scr s)
      (nat (tty_w s) * nat (tty_h s)) =
    (cells (mem s) (tty_scr s) (nat (tty_w s) * nat (tty_h s)))[nat t := v]"
  using assms wf_size [OF assms(1)] by (intro cells_store16) simp_all

lemma term_of_switch_print:
  assumes wf: "tty_wf s" and c: "c \<noteq> 13" "c \<noteq> 10" "c \<noteq> 8" "\<not> sint c < 32"
  shows "term_of (tty_switch c s) = term_switch c (tty_cell (ucast c) (tty_color s)) (term_of s)"
proof -
  have pos: "0 \<le> tty_x s" "tty_x s < tty_w s" "0 \<le> tty_y s" using wf by (simp_all add: tty_wf_def)
  have x: "t_col (term_of s) + 1 = t_w (term_of s) \<longleftrightarrow> tty_x s + 1 = tty_w s"
    using pos by (simp add: term_of_def) arith
  have succ: "nat (tty_x s + 1) = nat (tty_x s) + 1" "nat (tty_y s + 1) = nat (tty_y s) + 1"
    using pos by arith+
  note cs = cells_store_linear [OF wf wf_linear(1,2) [OF wf], unfolded wf_linear(3) [OF wf]]
  let ?v = "tty_cell (ucast c) (tty_color s)"
  let ?T = "(term_of s)\<lparr>t_cells := (t_cells (term_of s))
      [t_col (term_of s) + t_row (term_of s) * t_w (term_of s) := ?v]\<rparr>"
  have "\<not> (unat c < 32 \<or> 128 \<le> unat c)" using c(4) sint_less_32 [of c] by blast
  then have "term_switch c ?v (term_of s) = (if t_col (term_of s) + 1 = t_w (term_of s)
      then ?T\<lparr>t_col := 0, t_row := t_row (term_of s) + 1\<rparr> else ?T\<lparr>t_col := t_col (term_of s) + 1\<rparr>)"
    using c(1-3) by (simp add: term_switch_def)
  then show ?thesis
    unfolding x tty_switch_print [OF c] by (simp add: term_of_def cs succ)
qed

lemma term_of_switch_backspace:
  assumes wf: "tty_wf s"
  shows "term_of (tty_switch 8 s) = term_switch 8 v (term_of s)"
proof -
  let ?t = "tty_x s + tty_y s * tty_w s"
  let ?t' = "if ?t > 0 then ?t - 1 else ?t"
  have dims: "0 < tty_w s" "0 \<le> tty_x s" "tty_x s < tty_w s" "0 \<le> tty_y s" "tty_y s < tty_h s"
    using wf by (simp_all add: tty_wf_def)
  note bp = backspace_position [OF dims]
  have dm: "nat (?t' mod tty_w s) = nat ?t' mod nat (tty_w s)"
    "nat (?t' div tty_w s) = nat ?t' div nat (tty_w s)"
    using bp(1) dims(1) by (simp_all only: nat_mod_distrib nat_div_distrib less_imp_le)
  have "term_of (tty_switch 8 s) = (term_of s)\<lparr>t_col := nat ?t' mod nat (tty_w s),
      t_row := nat ?t' div nat (tty_w s),
      t_cells := (t_cells (term_of s))[nat ?t' := t_blank (term_of s)]\<rparr>"
    unfolding tty_switch_bs [OF dims] using cells_store_linear [OF wf bp(1,2)] dm
    by (simp only: term_of_def) simp
  then show ?thesis
    unfolding bp(3) by (simp add: term_switch_def term_of_def Let_def)
qed

lemma term_of_switch:
  assumes "tty_wf s"
  shows "term_of (tty_switch c s) = term_switch c (tty_cell (ucast c) (tty_color s)) (term_of s)"
proof (cases c s rule: tty_switch_cases)
  case nl
  moreover have "nat (tty_y s + 1) = nat (tty_y s) + 1"
    using assms by (simp add: tty_wf_def nat_add_distrib)
  ultimately show ?thesis by (simp add: term_switch_def term_of_def)
next
  case bs
  then show ?thesis using term_of_switch_backspace [OF assms] by simp
next
  case ignored
  then show ?thesis by (simp add: term_switch_def sint_less_32)
next
  case print
  then show ?thesis by (rule term_of_switch_print [OF assms])
qed (simp add: term_switch_def term_of_def)

lemma term_of_putc:
  assumes "tty_wf s"
  shows "term_of (tty_putc c s) = term_putc c (tty_cell (ucast c) (tty_color s)) (term_of s)"
proof -
  let ?s = "tty_switch c s"
  have dims: "tty_dims ?s" using assms by (simp add: tty_wf_dims)
  have cur: "0 \<le> tty_y ?s" "0 < tty_h ?s"
    using tty_switch_cursor [OF assms] assms by (simp_all add: tty_wf_def)
  then have eq: "t_row (term_of ?s) = t_h (term_of ?s) \<longleftrightarrow> tty_y ?s = tty_h ?s"
    by (auto simp: term_of_def)
  have scroll: "term_of ((tty_scrollup ?s)\<lparr>tty_y := tty_y (tty_scrollup ?s) - 1\<rparr>) =
      (term_scroll (term_of ?s))\<lparr>t_row := t_row (term_of ?s) - 1\<rparr>"
    using term_of_scrollup [OF dims] cur
    by (simp add: term_of_def term_scroll_def nat_diff_distrib')
  show ?thesis
  proof (cases "tty_y ?s = tty_h ?s")
    case True
    then show ?thesis
      using eq scroll by (simp add: tty_putc_def term_putc_def Let_def flip: term_of_switch [OF assms])
  next
    case False
    then show ?thesis
      using eq by (simp add: tty_putc_def term_putc_def Let_def flip: term_of_switch [OF assms])
  qed
qed

lemma tty_switch_outside:
  assumes wf: "tty_wf s" and "x \<notin> screen s"
  shows "mem (tty_switch c s) x = mem s x"
proof -
  have dims: "0 < tty_w s" "0 \<le> tty_x s" "tty_x s < tty_w s" "0 \<le> tty_y s" "tty_y s < tty_h s"
    using wf by (simp_all add: tty_wf_def)
  note bp = backspace_position [OF dims]
  have "store16 (mem s) (tty_addr (tty_scr s) t) v x = mem s x"
    if "0 \<le> t" "t < tty_w s * tty_h s" for t v
    using that assms tty_dims_size [of s]
    by (intro tty_store_outside [of t "tty_w s * tty_h s"]) (simp_all add: screen_def tty_wf_dims)
  from this [OF bp(1,2)] this [OF wf_linear(1,2) [OF wf]] show ?thesis
    by (auto simp: tty_switch_def Let_def)
qed

lemma tty_scrollup_outside:
  assumes "tty_dims s" "x \<notin> screen s"
  shows "mem (tty_scrollup s) x = mem s x"
proof -
  let ?n = "tty_w s * tty_h s" and ?l = "tty_w s * (tty_h s - 1)"
  have wh: "0 < tty_w s" "1 \<le> tty_h s" using assms(1) by (simp_all add: tty_dims_def)
  then have l: "0 \<le> ?l" "?l \<le> ?n" by (simp_all add: algebra_simps)
  then show ?thesis
    using tty_dims_size [OF assms(1)] assms(2)
    by (simp add: tty_scrollup_def Let_def max_absorb2 screen_def
        tty_blank_outside [where N = ?n] tty_shift_outside [where N = ?n])
qed

lemma tty_putc_simps [simp]:
  "tty_w (tty_putc c s) = tty_w s" "tty_h (tty_putc c s) = tty_h s"
  "tty_color (tty_putc c s) = tty_color s" "tty_scr (tty_putc c s) = tty_scr s"
  "panics (tty_putc c s) = panics s" "screen (tty_putc c s) = screen s"
  by (simp_all add: tty_putc_def Let_def screen_def)

lemma tty_putc_outside:
  assumes "tty_wf s" "x \<notin> screen s"
  shows "mem (tty_putc c s) x = mem s x"
  using assms tty_switch_outside [OF assms]
  by (simp add: tty_putc_def Let_def tty_scrollup_outside tty_wf_dims screen_def)

lemma tty_wf_putc:
  assumes "tty_wf s"
  shows "tty_wf (tty_putc c s)"
proof -
  have "0 < tty_h s" using assms by (simp add: tty_wf_def)
  with tty_switch_cursor [OF assms, of c] assms show ?thesis
    by (auto simp: tty_wf_dims tty_putc_def Let_def tty_dims_def)
qed

end
