(* ===== verification/Printf.thy ===== *)
theory Printf
  imports Tty
begin

text \<open>
  The format interpreter \<^verbatim>\<open>do_printf\<close> of \<^verbatim>\<open>lib/stdio/doprintf.c\<close> and the kernel's
  \<^verbatim>\<open>kprintf\<close> on top of it. The interpreter is the C state machine: \<open>pr_case0\<close> to
  \<open>pr_case4\<close> are the five cases of its switch, each falling through to the next where the code does,
  and \<open>pr_loop\<close> is the scanning loop. The format is read from memory through its pointer, so a format
  that ends in \<^verbatim>\<open>%\<close> runs on past its terminator as the code does. Arguments are the words the
  caller pushed; taking one too many has no result. The output function is a parameter, as in C; what
  it must promise is the locale \<open>char_sink\<close> of \<open>Printf_Spec\<close>, which \<open>tty_putc\<close> provides.
\<close>

section \<open>The conversion buffer\<close>

definition PR_LJ :: u32 where "PR_LJ = 0x01"
definition PR_CA :: u32 where "PR_CA = 0x02"
definition PR_SG :: u32 where "PR_SG = 0x04"
definition PR_32 :: u32 where "PR_32 = 0x08"
definition PR_16 :: u32 where "PR_16 = 0x10"
definition PR_WS :: u32 where "PR_WS = 0x20"
definition PR_LZ :: u32 where "PR_LZ = 0x40"
definition PR_FP :: u32 where "PR_FP = 0x80"

lemmas PR_defs = PR_LJ_def PR_CA_def PR_SG_def PR_32_def PR_16_def PR_WS_def PR_LZ_def PR_FP_def

datatype radix = Octal | Decimal | Hex

primrec radix_val :: "radix \<Rightarrow> u32" where
  "radix_val Octal = 8"
| "radix_val Decimal = 10"
| "radix_val Hex = 16"

definition pr_digit :: "u32 \<Rightarrow> u32 \<Rightarrow> u8" where
  "pr_digit flags temp =
     (if temp < 10 then ucast (temp + 0x30)
      else if flags AND PR_CA \<noteq> 0 then ucast (temp - 10 + 0x41)
      else ucast (temp - 10 + 0x61))"

text \<open>
  The buffer is filled downwards from its terminating zero; \<open>where\<close> is the part of it from the
  pointer up to the terminator.
\<close>

lemma div_radix_less: "num div radix_val r \<noteq> 0 \<Longrightarrow> unat (num div radix_val r) < unat num"
proof -
  assume "num div radix_val r \<noteq> 0"
  then have "0 < unat num" by (auto simp: unat_gt_0)
  moreover have "1 < unat (radix_val r)" by (cases r) simp_all
  ultimately show ?thesis by (simp add: unat_div)
qed

function pr_num :: "u32 \<Rightarrow> radix \<Rightarrow> u32 \<Rightarrow> u8 list \<Rightarrow> u8 list" where
  "pr_num flags r num where =
     (let temp = num mod radix_val r;
          where = pr_digit flags temp # where;
          num = num div radix_val r
      in if num \<noteq> 0 then pr_num flags r num where else where)"
  by pat_completeness auto
termination
  by (relation "measure (\<lambda>(flags, r, num, where). unat num)") (simp_all add: div_radix_less)

declare pr_num.simps [simp del]

section \<open>The interpreter\<close>

record pr_locals =
  pr_state :: u32
  pr_flags :: u32
  pr_wd :: u32
  pr_count :: u32
  pr_args :: "u32 list"

text \<open>What is emitted for a conversion: the local buffer or a string in memory.\<close>

datatype pr_src = Buf "u8 list" | Str u32

definition pr_reset :: "pr_locals \<Rightarrow> pr_locals" where
  "pr_reset L = L\<lparr>pr_state := 0, pr_flags := 0, pr_wd := 0\<rparr>"

function pr_padl :: "(u8 \<Rightarrow> 's \<Rightarrow> 's) \<Rightarrow> u8 \<Rightarrow> u32 \<Rightarrow> u32 \<Rightarrow> u32 \<Rightarrow> 's \<Rightarrow> u32 \<times> u32 \<times> 's" where
  "pr_padl fn c given_wd actual_wd count s =
     (if given_wd > actual_wd
      then pr_padl fn c (given_wd - 1) actual_wd (count + 1) (fn c s)
      else (given_wd, count, s))"
  by pat_completeness auto
termination
proof (relation "measure (\<lambda>(fn, c, given_wd, actual_wd, count, s). unat given_wd)")
  fix given_wd actual_wd :: u32
  assume "actual_wd < given_wd"
  then have "given_wd \<noteq> 0" by auto
  then show "((fn, c, given_wd - 1, actual_wd, count + 1, fn c s),
      fn, c, given_wd, actual_wd, count, s)
      \<in> measure (\<lambda>(fn, c, given_wd, actual_wd, count, s). unat given_wd)" for fn c count s
    by simp
qed simp

function pr_padr :: "(u8 \<Rightarrow> 's \<Rightarrow> 's) \<Rightarrow> u32 \<Rightarrow> u32 \<Rightarrow> 's \<Rightarrow> u32 \<times> 's" where
  "pr_padr fn given_wd count s =
     (if given_wd \<noteq> 0 then pr_padr fn (given_wd - 1) (count + 1) (fn 0x20 s) else (count, s))"
  by pat_completeness auto
termination
  by (relation "measure (\<lambda>(fn, given_wd, count, s). unat given_wd)") auto

declare pr_padl.simps [simp del] pr_padr.simps [simp del]

fun pr_emit_buf :: "(u8 \<Rightarrow> 's \<Rightarrow> 's) \<Rightarrow> u8 list \<Rightarrow> u32 \<Rightarrow> 's \<Rightarrow> u32 \<times> 's" where
  "pr_emit_buf fn [] count s = (count, s)"
| "pr_emit_buf fn (b # bs) count s =
     (if b \<noteq> 0 then pr_emit_buf fn bs (count + 1) (fn b s) else (count, s))"

partial_function (option) pr_emit_mem ::
  "(u8 \<Rightarrow> 'a machine_scheme \<Rightarrow> 'a machine_scheme) \<Rightarrow> u32 \<Rightarrow> u32 \<Rightarrow> 'a machine_scheme
    \<Rightarrow> (u32 \<times> 'a machine_scheme) option" where
  "pr_emit_mem fn where count s =
     (if mem s where \<noteq> 0 then pr_emit_mem fn (where + 1) (count + 1) (fn (mem s where) s)
      else Some (count, s))"

primrec pr_emit ::
  "(u8 \<Rightarrow> 'a machine_scheme \<Rightarrow> 'a machine_scheme) \<Rightarrow> pr_src \<Rightarrow> u32 \<Rightarrow> 'a machine_scheme
    \<Rightarrow> (u32 \<times> 'a machine_scheme) option" where
  "pr_emit fn (Buf bs) count s = Some (pr_emit_buf fn bs count s)"
| "pr_emit fn (Str p) count s = pr_emit_mem fn p count s"

definition pr_EMIT2 ::
  "(u8 \<Rightarrow> 'a machine_scheme \<Rightarrow> 'a machine_scheme) \<Rightarrow> pr_src \<Rightarrow> u32 \<Rightarrow> pr_locals
    \<Rightarrow> 'a machine_scheme \<Rightarrow> (pr_locals \<times> 'a machine_scheme) option" where
  "pr_EMIT2 fn src actual_wd L s =
     (let flags = pr_flags L;
          (wd, count, s) =
            (if flags AND PR_LJ = 0
             then pr_padl fn (if flags AND PR_LZ \<noteq> 0 then 0x30 else 0x20) (pr_wd L) actual_wd
                    (pr_count L) s
             else (pr_wd L, pr_count L, s));
          (count, s) =
            (if flags AND (PR_WS OR PR_LZ) = PR_WS then (count + 1, fn 0x2D s) else (count, s))
      in do {
        (count, s) \<leftarrow> pr_emit fn src count s;
        let wd = (if wd < actual_wd then 0 else wd - actual_wd);
        let (count, s) = pr_padr fn wd count s;
        Some (pr_reset (L\<lparr>pr_count := count\<rparr>), s)
      })"

primrec pr_strlen :: "bytes \<Rightarrow> pr_src \<Rightarrow> u32 option" where
  "pr_strlen m (Buf bs) = Some (of_nat (length (takeWhile (\<lambda>b. b \<noteq> 0) bs)))"
| "pr_strlen m (Str p) = strlen m p"

definition pr_EMIT ::
  "(u8 \<Rightarrow> 'a machine_scheme \<Rightarrow> 'a machine_scheme) \<Rightarrow> pr_src \<Rightarrow> pr_locals
    \<Rightarrow> 'a machine_scheme \<Rightarrow> (pr_locals \<times> 'a machine_scheme) option" where
  "pr_EMIT fn src L s = do {
     actual_wd \<leftarrow> pr_strlen (mem s) src;
     let flags = pr_flags L;
     let actual_wd = (if flags AND PR_WS \<noteq> 0 then actual_wd + 1 else actual_wd);
     let (L, s) = (if flags AND (PR_WS OR PR_LZ) = (PR_WS OR PR_LZ)
                   then (L\<lparr>pr_count := pr_count L + 1\<rparr>, fn 0x2D s) else (L, s));
     pr_EMIT2 fn src actual_wd L s
   }"

definition pr_va_num :: "u32 \<Rightarrow> u32 \<Rightarrow> u32" where
  "pr_va_num flags a =
     (if flags AND PR_32 \<noteq> 0 then a
      else if flags AND PR_16 \<noteq> 0
        then (if flags AND PR_SG \<noteq> 0 then scast (ucast a :: u16) else ucast (ucast a :: u16))
      else a)"

definition pr_DO_NUM ::
  "(u8 \<Rightarrow> 'a machine_scheme \<Rightarrow> 'a machine_scheme) \<Rightarrow> radix \<Rightarrow> pr_locals
    \<Rightarrow> 'a machine_scheme \<Rightarrow> (pr_locals \<times> 'a machine_scheme) option" where
  "pr_DO_NUM fn r L s =
     (case pr_args L of
        [] \<Rightarrow> None
      | a # args \<Rightarrow>
          (let num = pr_va_num (pr_flags L) a;
               (flags, num) =
                 (if pr_flags L AND PR_SG \<noteq> 0 \<and> sint num < 0
                  then (pr_flags L OR PR_WS, - num) else (pr_flags L, num))
           in pr_EMIT fn (Buf (pr_num flags r num [])) (L\<lparr>pr_flags := flags, pr_args := args\<rparr>) s))"

definition pr_case4 ::
  "(u8 \<Rightarrow> 'a machine_scheme \<Rightarrow> 'a machine_scheme) \<Rightarrow> u32 \<Rightarrow> pr_locals
    \<Rightarrow> 'a machine_scheme \<Rightarrow> (pr_locals \<times> 'a machine_scheme) option" where
  "pr_case4 fn fmt L s =
     (let c = mem s fmt
      in if c = 0x58 then pr_DO_NUM fn Hex (L\<lparr>pr_flags := pr_flags L OR PR_CA\<rparr>) s
         else if c = 0x78 \<or> c = 0x70 \<or> c = 0x6E then pr_DO_NUM fn Hex L s
         else if c = 0x64 \<or> c = 0x69
           then pr_DO_NUM fn Decimal (L\<lparr>pr_flags := pr_flags L OR PR_SG\<rparr>) s
         else if c = 0x75 then pr_DO_NUM fn Decimal L s
         else if c = 0x6F then pr_DO_NUM fn Octal L s
         else if c = 0x63 then
           (case pr_args L of
              [] \<Rightarrow> None
            | a # args \<Rightarrow> pr_EMIT2 fn (Buf [ucast a]) 1
                (L\<lparr>pr_flags := pr_flags L AND NOT PR_LZ, pr_args := args\<rparr>) s)
         else if c = 0x73 then
           (case pr_args L of
              [] \<Rightarrow> None
            | a # args \<Rightarrow> pr_EMIT fn (Str a)
                (L\<lparr>pr_flags := pr_flags L AND NOT PR_LZ, pr_args := args\<rparr>) s)
         else Some (pr_reset L, s))"

definition pr_case3 ::
  "(u8 \<Rightarrow> 'a machine_scheme \<Rightarrow> 'a machine_scheme) \<Rightarrow> u32 \<Rightarrow> pr_locals
    \<Rightarrow> 'a machine_scheme \<Rightarrow> (pr_locals \<times> 'a machine_scheme) option" where
  "pr_case3 fn fmt L s =
     (let c = mem s fmt
      in if c = 0x46 then Some (L\<lparr>pr_flags := pr_flags L OR PR_FP\<rparr>, s)
         else if c = 0x4E then Some (L, s)
         else if c = 0x6C then Some (L\<lparr>pr_flags := pr_flags L OR PR_32\<rparr>, s)
         else if c = 0x68 then Some (L\<lparr>pr_flags := pr_flags L OR PR_16\<rparr>, s)
         else pr_case4 fn fmt (L\<lparr>pr_state := pr_state L + 1\<rparr>) s)"

definition pr_case2 ::
  "(u8 \<Rightarrow> 'a machine_scheme \<Rightarrow> 'a machine_scheme) \<Rightarrow> u32 \<Rightarrow> pr_locals
    \<Rightarrow> 'a machine_scheme \<Rightarrow> (pr_locals \<times> 'a machine_scheme) option" where
  "pr_case2 fn fmt L s =
     (let c = mem s fmt
      in if 0x30 \<le> c \<and> c \<le> 0x39
         then Some (L\<lparr>pr_wd := 10 * pr_wd L + (ucast c - 0x30)\<rparr>, s)
         else pr_case3 fn fmt (L\<lparr>pr_state := pr_state L + 1\<rparr>) s)"

definition pr_case1 ::
  "(u8 \<Rightarrow> 'a machine_scheme \<Rightarrow> 'a machine_scheme) \<Rightarrow> u32 \<Rightarrow> pr_locals
    \<Rightarrow> 'a machine_scheme \<Rightarrow> (u32 \<times> pr_locals \<times> 'a machine_scheme) option" where
  "pr_case1 fn fmt L s =
     (let c = mem s fmt
      in if c = 0x25
         then Some (fmt, pr_reset (L\<lparr>pr_count := pr_count L + 1\<rparr>), fn 0x25 s)
         else if c = 0x2D
         then Some (fmt, (if pr_flags L AND PR_LJ \<noteq> 0 then pr_reset L
                          else L\<lparr>pr_flags := pr_flags L OR PR_LJ\<rparr>), s)
         else
           (let L = L\<lparr>pr_state := pr_state L + 1\<rparr>;
                (fmt, L) = (if c = 0x30 then (fmt + 1, L\<lparr>pr_flags := pr_flags L OR PR_LZ\<rparr>)
                            else (fmt, L))
            in map_option (Pair fmt) (pr_case2 fn fmt L s)))"

definition pr_case0 ::
  "(u8 \<Rightarrow> 'a machine_scheme \<Rightarrow> 'a machine_scheme) \<Rightarrow> u32 \<Rightarrow> pr_locals
    \<Rightarrow> 'a machine_scheme \<Rightarrow> (u32 \<times> pr_locals \<times> 'a machine_scheme) option" where
  "pr_case0 fn fmt L s =
     (let c = mem s fmt
      in if c \<noteq> 0x25
         then Some (fmt, L\<lparr>pr_count := pr_count L + 1\<rparr>, fn c s)
         else pr_case1 fn (fmt + 1) (L\<lparr>pr_state := pr_state L + 1\<rparr>) s)"

definition pr_switch ::
  "(u8 \<Rightarrow> 'a machine_scheme \<Rightarrow> 'a machine_scheme) \<Rightarrow> u32 \<Rightarrow> pr_locals
    \<Rightarrow> 'a machine_scheme \<Rightarrow> (u32 \<times> pr_locals \<times> 'a machine_scheme) option" where
  "pr_switch fn fmt L s =
     (if pr_state L = 0 then pr_case0 fn fmt L s
      else if pr_state L = 1 then pr_case1 fn fmt L s
      else if pr_state L = 2 then map_option (Pair fmt) (pr_case2 fn fmt L s)
      else if pr_state L = 3 then map_option (Pair fmt) (pr_case3 fn fmt L s)
      else if pr_state L = 4 then map_option (Pair fmt) (pr_case4 fn fmt L s)
      else Some (fmt, pr_reset L, s))"

partial_function (option) pr_loop ::
  "(u8 \<Rightarrow> 'a machine_scheme \<Rightarrow> 'a machine_scheme) \<Rightarrow> u32 \<Rightarrow> pr_locals
    \<Rightarrow> 'a machine_scheme \<Rightarrow> (u32 \<times> 'a machine_scheme) option" where
  "pr_loop fn fmt L s =
     (if mem s fmt \<noteq> 0
      then Option.bind (pr_switch fn fmt L s) (\<lambda>(fmt, L, s). pr_loop fn (fmt + 1) L s)
      else Some (pr_count L, s))"

definition do_printf ::
  "u32 \<Rightarrow> u32 list \<Rightarrow> (u8 \<Rightarrow> 'a machine_scheme \<Rightarrow> 'a machine_scheme)
    \<Rightarrow> 'a machine_scheme \<Rightarrow> (u32 \<times> 'a machine_scheme) option" where
  "do_printf fmt args fn s =
     pr_loop fn fmt \<lparr>pr_state = 0, pr_flags = 0, pr_wd = 0, pr_count = 0, pr_args = args\<rparr> s"

section \<open>\<^verbatim>\<open>kprintf\<close>\<close>

definition kprintf :: "u32 \<Rightarrow> u32 list \<Rightarrow> 'a tty_scheme \<Rightarrow> 'a tty_scheme option" where
  "kprintf fmt args s = map_option snd (do_printf fmt args tty_putc s)"

text \<open>
  \<^verbatim>\<open>panic\<close> of \<^verbatim>\<open>main.c\<close> prints and executes \<^verbatim>\<open>hlt\<close>. The halt lasts until the next
  interrupt; then the caller goes on, which is why \<open>panic\<close> is an ordinary step that returns. The
  message is recorded in \<open>panics\<close>. With interrupts off nothing after it is reached.
\<close>

definition panic :: "string \<Rightarrow> 'a tty_scheme \<Rightarrow> 'a tty_scheme option" where
  "panic msg s =
     map_option (\<lambda>s. s\<lparr>panics := panics s @ [msg]\<rparr>)
       (kprintf (rodata s (''PANIC! - %s'' @ [CHR 0x0A])) [rodata s msg] s)"

end
