(* ===== verification/Bitmap.thy ===== *)
theory Bitmap
  imports Machine
begin

text \<open>
  The bitmap of \<^verbatim>\<open>lib/ds/bitmap.c\<close>: one bit per object in the bytes from \<^verbatim>\<open>base\<close>, with
  every operation checked against \<^verbatim>\<open>limit\<close>. \<open>bit_at\<close> reads bit \<open>n\<close> of a byte array; the
  operations set and clear exactly that bit. \<open>page_map\<close> is the part of the contract the page
  allocator relies on.
\<close>

record bitmap =
  bm_base :: u32
  bm_limit :: u32

function bitmap_clear_bytes :: "u32 \<Rightarrow> u32 \<Rightarrow> u32 \<Rightarrow> bytes \<Rightarrow> bytes" where
  "bitmap_clear_bytes base i bytes m =
     (if i < bytes then bitmap_clear_bytes base (i + 1) bytes (store8 m (base + i) 0) else m)"
  by pat_completeness auto
termination
proof (relation "measure (\<lambda>(base, i, bytes, m). unat bytes - unat i)")
  fix i bytes base :: u32 and m
  assume "i < bytes"
  then have lt: "unat i < unat bytes" by (simp add: word_less_nat_alt)
  then have "unat (i + 1) = unat i + 1"
    using unat_plus_small [of i 1] unat_less_2p32 [of bytes] by simp
  with lt show "((base, i + 1, bytes, store8 m (base + i) 0), base, i, bytes, m)
      \<in> measure (\<lambda>(base, i, bytes, m). unat bytes - unat i)" by simp
qed simp

declare bitmap_clear_bytes.simps [simp del]

definition bitmap_init :: "bitmap \<Rightarrow> bytes \<Rightarrow> bytes" where
  "bitmap_init bitmap m =
     (let bytes = bm_limit bitmap div 8;
          bytes = (if bm_limit bitmap mod 8 \<noteq> 0 then bytes + 1 else bytes)
      in bitmap_clear_bytes (bm_base bitmap) 0 bytes m)"

definition SET_BIT :: "u8 \<Rightarrow> u32 \<Rightarrow> u8" where
  "SET_BIT x b = x OR push_bit (unat b) 1"

definition CLEAR_BIT :: "u8 \<Rightarrow> u32 \<Rightarrow> u8" where
  "CLEAR_BIT x b = x AND NOT (push_bit (unat b) 1)"

definition GET_BIT :: "u8 \<Rightarrow> u32 \<Rightarrow> u8" where
  "GET_BIT x b = drop_bit (unat b) x AND 1"

definition bitmap_bitset :: "bitmap \<Rightarrow> u32 \<Rightarrow> bytes \<Rightarrow> u8 \<times> bytes" where
  "bitmap_bitset bitmap n m =
     (if n \<ge> bm_limit bitmap then (-1, m)
      else let by = n div 8; bi = n mod 8; a = bm_base bitmap + by
           in (0, store8 m a (SET_BIT (m a) bi)))"

definition bitmap_bitclear :: "bitmap \<Rightarrow> u32 \<Rightarrow> bytes \<Rightarrow> u8 \<times> bytes" where
  "bitmap_bitclear bitmap n m =
     (if n \<ge> bm_limit bitmap then (-1, m)
      else let by = n div 8; bi = n mod 8; a = bm_base bitmap + by
           in (0, store8 m a (CLEAR_BIT (m a) bi)))"

definition bitmap_bitget :: "bitmap \<Rightarrow> u32 \<Rightarrow> bytes \<Rightarrow> u8" where
  "bitmap_bitget bitmap n m =
     (if n \<ge> bm_limit bitmap then -1
      else let by = n div 8; bi = n mod 8 in GET_BIT (m (bm_base bitmap + by)) bi)"

section \<open>The bits of a byte array\<close>

definition bit_at :: "bytes \<Rightarrow> u32 \<Rightarrow> u32 \<Rightarrow> bool" where
  "bit_at m base n = bit (m (base + n div 8)) (unat (n mod 8))"

lemma unat_mod8: "unat (n mod 8 :: u32) < 8"
  by (simp add: unat_mod)

lemma bit_SET_BIT: "unat b < 8 \<Longrightarrow> k < 8 \<Longrightarrow> bit (SET_BIT x b) k \<longleftrightarrow> k = unat b \<or> bit x k"
  by (auto simp: SET_BIT_def bit_simps)

lemma bit_CLEAR_BIT: "unat b < 8 \<Longrightarrow> k < 8 \<Longrightarrow> bit (CLEAR_BIT x b) k \<longleftrightarrow> k \<noteq> unat b \<and> bit x k"
  by (auto simp: CLEAR_BIT_def bit_simps)

lemma GET_BIT_eq: "GET_BIT x b = (if bit x (unat b) then 1 else 0)"
  by (rule bit_word_eqI) (auto simp: GET_BIT_def bit_simps intro!: gr0I)

lemma unat_mod8_eq: "unat (n mod 8) = unat (k mod 8 :: u32) \<longleftrightarrow> n mod 8 = k mod 8"
  by (auto intro: unsigned_word_eqI)

lemma div_mod_eq: "n = k \<longleftrightarrow> n div 8 = k div 8 \<and> n mod 8 = (k mod 8 :: u32)"
  by (metis word_mod_div_equality)

lemma bit_at_set:
  "bit_at (store8 m (base + n div 8) (SET_BIT (m (base + n div 8)) (n mod 8))) base k
    \<longleftrightarrow> k = n \<or> bit_at m base k"
  using unat_mod8 [of n] unat_mod8 [of k] div_mod_eq [of k n]
  by (auto simp: bit_at_def store8_def bit_SET_BIT unat_mod8_eq)

lemma bit_at_clear:
  "bit_at (store8 m (base + n div 8) (CLEAR_BIT (m (base + n div 8)) (n mod 8))) base k
    \<longleftrightarrow> k \<noteq> n \<and> bit_at m base k"
  using unat_mod8 [of n] unat_mod8 [of k] div_mod_eq [of k n]
  by (auto simp: bit_at_def store8_def bit_CLEAR_BIT unat_mod8_eq)

lemma bitmap_bitget_eq:
  "bitmap_bitget b n m = (if bm_limit b \<le> n then -1 else if bit_at m (bm_base b) n then 1 else 0)"
  by (simp add: bitmap_bitget_def bit_at_def GET_BIT_eq Let_def)

lemma bitmap_bitset_ok:
  assumes "n < bm_limit b"
  shows "fst (bitmap_bitset b n m) = 0"
    and "bit_at (snd (bitmap_bitset b n m)) (bm_base b) k \<longleftrightarrow> k = n \<or> bit_at m (bm_base b) k"
  using assms [folded not_le] bit_at_set by (simp_all add: bitmap_bitset_def Let_def)

lemma bitmap_bitclear_ok:
  assumes "n < bm_limit b"
  shows "fst (bitmap_bitclear b n m) = 0"
    and "bit_at (snd (bitmap_bitclear b n m)) (bm_base b) k \<longleftrightarrow> k \<noteq> n \<and> bit_at m (bm_base b) k"
  using assms [folded not_le] bit_at_clear by (simp_all add: bitmap_bitclear_def Let_def)

text \<open>The bytes of the bitmap, and that the operations write nowhere else.\<close>

definition bitmap_bytes :: "bitmap \<Rightarrow> u32 set" where
  "bitmap_bytes b = span (bm_base b) ((unat (bm_limit b) + 7) div 8)"

lemma bit_byte_in_bitmap:
  assumes "n < bm_limit b"
  shows "bm_base b + n div 8 \<in> bitmap_bytes b"
proof -
  have "unat n < unat (bm_limit b)" using assms by (simp add: word_less_nat_alt)
  then have "unat n div 8 < (unat (bm_limit b) + 7) div 8" by simp
  then show ?thesis by (simp add: bitmap_bytes_def span_iff unat_div)
qed

lemma bitmap_ops_outside:
  assumes "x \<notin> bitmap_bytes b"
  shows "snd (bitmap_bitset b n m) x = m x" "snd (bitmap_bitclear b n m) x = m x"
  using assms bit_byte_in_bitmap [of n b]
  by (auto simp: bitmap_bitset_def bitmap_bitclear_def Let_def store8_def not_le)

lemma bitmap_clear_bytes_apply:
  assumes "i \<le> n"
  shows "bitmap_clear_bytes base i n m x =
    (if i \<le> x - base \<and> x - base < n then 0 else m x)"
  using assms
proof (induction base i n m rule: bitmap_clear_bytes.induct)
  case (1 base i n m)
  show ?case
  proof (cases "i < n")
    case True
    then have lt: "unat i < unat n" by (simp add: word_less_nat_alt)
    then have s: "unat (i + 1) = unat i + 1"
      using unat_plus_small [of i 1] unat_less_2p32 [of n] by simp
    have le: "i + 1 \<le> n" using lt s by (simp add: word_le_nat_alt)
    have cut: "i + 1 \<le> d \<longleftrightarrow> i \<le> d \<and> d \<noteq> i" for d
      using s by (auto simp: word_le_nat_alt) (metis Suc_leI le_neq_implies_less unsigned_word_eqI)
    have at: "x - base = i \<longleftrightarrow> x = base + i" by (auto simp: algebra_simps)
    have "bitmap_clear_bytes base i n m x =
        bitmap_clear_bytes base (i + 1) n (store8 m (base + i) 0) x"
      using True by (simp add: bitmap_clear_bytes.simps [of base i n m])
    also have "\<dots> = (if i + 1 \<le> x - base \<and> x - base < n then 0 else store8 m (base + i) 0 x)"
      by (rule 1(1) [OF True le])
    finally show ?thesis
      using True at by (cases "x = base + i") (auto simp: cut store8_outside)
  next
    case False
    with 1(2) show ?thesis
      by (auto simp: bitmap_clear_bytes.simps [of base n n m])
  qed
qed

lemma round_up_8: "(n + 7) div 8 = (if n mod 8 = 0 then n div 8 else n div 8 + 1 :: nat)"
proof -
  have "n + 7 = (n mod 8 + 7) + 8 * (n div 8)" using div_mult_mod_eq [of n 8] by linarith
  then have "(n + 7) div 8 = n div 8 + (n mod 8 + 7) div 8"
    by (metis add.commute div_mult_self2 zero_neq_numeral)
  moreover have "(n mod 8 + 7) div 8 = (if n mod 8 = 0 then 0 else 1)"
  proof (cases "n mod 8 = 0")
    case False
    have "n mod 8 < 8" by simp
    with False have "n mod 8 + 7 = 8 + (n mod 8 - 1)" "n mod 8 - 1 < 8" by linarith+
    then show ?thesis using False by simp
  qed simp
  ultimately show ?thesis by simp
qed

lemma bitmap_init_bytes:
  "bitmap_init b m x = (if x \<in> bitmap_bytes b then 0 else m x)"
proof -
  let ?l = "bm_limit b" and ?n = "(if bm_limit b mod 8 \<noteq> 0 then bm_limit b div 8 + 1 else bm_limit b div 8)"
  have dv: "unat (?l div 8) = unat ?l div 8" "unat (?l mod 8) = unat ?l mod 8"
    by (simp_all add: unat_div unat_mod)
  have "unat ?l div 8 + 1 < 4294967296" using unat_less_2p32 [of ?l] by linarith
  then have "unat (?l div 8 + 1) = unat ?l div 8 + 1"
    using unat_plus_small [of "?l div 8" 1] dv by simp
  moreover have "?l mod 8 = 0 \<longleftrightarrow> unat ?l mod 8 = 0" using dv(2) by (metis unat_eq_0)
  moreover have "(unat ?l + 7) div 8 = (if unat ?l mod 8 = 0 then unat ?l div 8 else unat ?l div 8 + 1)"
    by (rule round_up_8)
  ultimately have n: "unat ?n = (unat ?l + 7) div 8" using dv by auto
  show ?thesis
    using bitmap_clear_bytes_apply [of 0 ?n "bm_base b" m x]
    by (simp add: bitmap_init_def Let_def bitmap_bytes_def span_iff word_less_nat_alt flip: n)
qed

section \<open>The interface of the page allocator\<close>

text \<open>
  The allocator needs a map from page numbers to a used flag below some limit, and that marking a
  page changes that page only. Everything it does with the map is in terms of these laws.
\<close>

locale page_map =
  fixes used :: "'b \<Rightarrow> bytes \<Rightarrow> u32 \<Rightarrow> bool"
    and mark :: "'b \<Rightarrow> u32 \<Rightarrow> bytes \<Rightarrow> bytes"
    and limit :: "'b \<Rightarrow> u32"
  assumes used_mark: "n < limit b \<Longrightarrow> used b (mark b n m) k \<longleftrightarrow> k = n \<or> used b m k"
begin

lemma used_fold_mark:
  "(\<And>n. n \<in> set ns \<Longrightarrow> n < limit b) \<Longrightarrow>
    used b (fold (mark b) ns m) k \<longleftrightarrow> k \<in> set ns \<or> used b m k"
  by (induction ns arbitrary: m) (auto simp: used_mark)

lemma mark_idem:
  "n < limit b \<Longrightarrow> used b (mark b n (mark b n m)) k \<longleftrightarrow> used b (mark b n m) k"
  by (simp add: used_mark)

end

interpretation pm: page_map "\<lambda>b m n. bit_at m (bm_base b) n" "\<lambda>b n m. snd (bitmap_bitset b n m)"
  bm_limit
  by unfold_locales (rule bitmap_bitset_ok)

end
