(* ===== verification/Paging.thy ===== *)
theory Paging
  imports Printf Bitmap
begin

text \<open>
  The physical page allocator and the page tables of \<^verbatim>\<open>cpu/page.c\<close>. The state holds
  \<^verbatim>\<open>k_sysmem\<close>, the zone array, the allocator bitmap and the kernel address space; the page
  directory and the page tables are reached, as in the code, through the window at \<^verbatim>\<open>pd\<close> that
  the self map opens, one 32-bit entry per page. Memory is the kernel's virtual view: the effect of a
  new mapping on what the mapped page then shows is not part of the state.
\<close>

section \<open>Entries and addresses\<close>

definition PE_MASK_FLAGS :: "u32 \<Rightarrow> u32" where
  "PE_MASK_FLAGS addr = push_bit 12 (drop_bit 12 addr)"

definition GET_PE :: "u32 \<Rightarrow> u32 \<Rightarrow> u32" where
  "GET_PE table entry = table * 1024 + entry"

definition VADDR_PTE :: "u32 \<Rightarrow> u32" where
  "VADDR_PTE addr = drop_bit 12 addr AND 0x3FF"

definition VADDR_PDE :: "u32 \<Rightarrow> u32" where
  "VADDR_PDE addr = drop_bit 22 addr AND 0x3FF"

definition VADDR_FROM_INDEX :: "u32 \<Rightarrow> u32 \<Rightarrow> u32" where
  "VADDR_FROM_INDEX table entry = (table * 4096 + entry * 4) * 1024"

definition VADDR_BASE :: "u32 \<Rightarrow> u32" where
  "VADDR_BASE pd_index = push_bit 22 pd_index"

definition ZONE_DMA :: u32 where "ZONE_DMA = 1"
definition ZONE_NORMAL :: u32 where "ZONE_NORMAL = 2"
definition ZONE_HIGHMEM :: u32 where "ZONE_HIGHMEM = 4"
definition P_PRESENT :: u32 where "P_PRESENT = 1"
definition P_WRITE :: u32 where "P_WRITE = 2"
definition P_USER :: u32 where "P_USER = 4"
definition TEMP_RESERVE :: u32 where "TEMP_RESERVE = 4"
definition K_PAGE_SIZE :: u16 where "K_PAGE_SIZE = 4096"

lemmas zone_defs = ZONE_DMA_def ZONE_NORMAL_def ZONE_HIGHMEM_def
lemmas flag_defs = P_PRESENT_def P_WRITE_def P_USER_def

section \<open>State\<close>

record page_zone =
  allocation_flag :: u32
  base_page :: u32
  end_page :: u32
  usedpages :: u32

record address_space =
  pd :: u32

record paging = tty +
  kb_installed :: u32
  page_zones :: "page_zone list"
  num_zones :: u8
  total_pages :: u32
  free_pages :: u32
  kernel_start :: u32
  kernel_end :: u32
  page_size :: u16
  brk_max :: u32
  k_page_bitmap :: bitmap
  k_addrspc :: address_space
  KERNEL_START :: u32
  KERNEL_END :: u32

section \<open>Page table entries\<close>

definition get_page_table_entry :: "address_space \<Rightarrow> u32 \<Rightarrow> bytes \<Rightarrow> u32" where
  "get_page_table_entry addrspc vaddr m =
     (let pde = VADDR_PDE vaddr; pte = VADDR_PTE vaddr; index = GET_PE pde pte
      in load32 m (pd addrspc + 4 * index))"

definition set_page_table_entry :: "address_space \<Rightarrow> u32 \<Rightarrow> u32 \<Rightarrow> bytes \<Rightarrow> bytes" where
  "set_page_table_entry addrspc vaddr paddr m =
     (let pde = VADDR_PDE vaddr; pte = VADDR_PTE vaddr; index = GET_PE pde pte
      in store32 m (pd addrspc + 4 * index) paddr)"

definition get_page_directory_entry :: "address_space \<Rightarrow> u32 \<Rightarrow> bytes \<Rightarrow> u32" where
  "get_page_directory_entry addrspc vaddr m =
     (let pde = VADDR_PDE vaddr; index = GET_PE 1023 pde
      in load32 m (pd addrspc + 4 * index))"

definition set_page_directory_entry :: "address_space \<Rightarrow> u32 \<Rightarrow> u32 \<Rightarrow> bytes \<Rightarrow> bytes" where
  "set_page_directory_entry addrspc vaddr paddr m =
     (let pde = VADDR_PDE vaddr; index = GET_PE 1023 pde
      in store32 m (pd addrspc + 4 * index) paddr)"

section \<open>The page frame allocator\<close>

fun get_zone_loop :: "u32 \<Rightarrow> page_zone list \<Rightarrow> u32 option" where
  "get_zone_loop page [] = None"
| "get_zone_loop page (z # zs) =
     (if page \<ge> base_page z \<and> page \<le> end_page z then Some (allocation_flag z)
      else get_zone_loop page zs)"

definition get_zone :: "u32 \<Rightarrow> 'a paging_scheme \<Rightarrow> (u32 \<times> 'a paging_scheme) option" where
  "get_zone page s =
     (case get_zone_loop page (take (unat (num_zones s)) (page_zones s)) of
        Some flag \<Rightarrow> Some (flag, s)
      | None \<Rightarrow> do {
          s \<leftarrow> panic ''Zones are not properly defined!'' s;
          Some (0, s)
        })"

text \<open>
  The index of the zone with a flag, \<^verbatim>\<open>num_zones\<close> when there is none; the counter is then one
  past the zones in use, which has no meaning beyond the array.
\<close>

fun zone_index :: "u32 \<Rightarrow> page_zone list \<Rightarrow> nat" where
  "zone_index flag [] = 0"
| "zone_index flag (z # zs) = (if flag = allocation_flag z then 0 else Suc (zone_index flag zs))"

definition count_used_page :: "u32 \<Rightarrow> 'a paging_scheme \<Rightarrow> 'a paging_scheme option" where
  "count_used_page flag s =
     (let zs = page_zones s; j = zone_index flag (take (unat (num_zones s)) zs)
      in if j < length zs
         then Some (s\<lparr>page_zones := zs[j := (zs ! j)\<lparr>usedpages := usedpages (zs ! j) + 1\<rparr>]\<rparr>)
         else None)"

definition mark_page_used :: "u32 \<Rightarrow> 'a paging_scheme \<Rightarrow> 'a paging_scheme option" where
  "mark_page_used i s = do {
     (page_flag, s) \<leftarrow> get_zone i s;
     s \<leftarrow> count_used_page page_flag s;
     let (r, m) = bitmap_bitset (k_page_bitmap s) i (mem s);
     let s = s\<lparr>mem := m\<rparr>;
     (if r = -1 then panic ''Unable to set bit in bitmap!'' s else Some s)
   }"

function mark_pages_loop :: "u32 \<Rightarrow> u32 \<Rightarrow> 'a paging_scheme \<Rightarrow> 'a paging_scheme option" where
  "mark_pages_loop i ep s =
     (if i < ep
      then case mark_page_used i s of None \<Rightarrow> None | Some s \<Rightarrow> mark_pages_loop (i + 1) ep s
      else Some s)"
  by pat_completeness auto

lemma word_up_less: "(i :: u32) < n \<Longrightarrow> unat n - unat (i + 1) < unat n - unat i"
  using unat_plus_small [of i 1] unat_less_2p32 [of n] by (simp add: word_less_nat_alt)

termination mark_pages_loop
  by (relation "measure (\<lambda>(i, ep, s). unat ep - unat i)") (simp_all add: word_up_less)

definition mark_pages_used :: "u32 \<Rightarrow> u32 \<Rightarrow> 'a paging_scheme \<Rightarrow> 'a paging_scheme option" where
  "mark_pages_used page pages s = do {
     s \<leftarrow> mark_pages_loop page (page + pages) s;
     Some (s\<lparr>free_pages := free_pages s - pages\<rparr>)
   }"

text \<open>The scan for contiguous free pages: \<open>pir\<close> pages in a row so far, from \<open>chosen_page\<close>.\<close>

function scan_pages :: "bitmap \<Rightarrow> bytes \<Rightarrow> u32 \<Rightarrow> u32 \<Rightarrow> u32 \<Rightarrow> u32 \<Rightarrow> u32 \<Rightarrow> u32 \<times> u32" where
  "scan_pages b m i ep pages pir chosen_page =
     (if i < ep then
        if bitmap_bitget b i m = 0 then
          (let chosen_page = (if pir = 0 then i else chosen_page); pir = pir + 1
           in if pir = pages then (pir, chosen_page)
              else scan_pages b m (i + 1) ep pages pir chosen_page)
        else scan_pages b m (i + 1) ep pages 0 chosen_page
      else (pir, chosen_page))"
  by pat_completeness auto
termination
  by (relation "measure (\<lambda>(b, m, i, ep, pages, pir, chosen_page). unat ep - unat i)")
    (simp_all add: word_up_less)

declare scan_pages.simps [simp del] mark_pages_loop.simps [simp del]

fun zone_bounds :: "u32 \<Rightarrow> page_zone list \<Rightarrow> u32 \<times> u32" where
  "zone_bounds requested_flags [] = (0, 0)"
| "zone_bounds requested_flags (z # zs) =
     (if requested_flags AND allocation_flag z \<noteq> 0 then (base_page z, end_page z)
      else zone_bounds requested_flags zs)"

definition alloc_pages :: "u32 \<Rightarrow> u32 \<Rightarrow> 'a paging_scheme \<Rightarrow> (u32 \<times> 'a paging_scheme) option" where
  "alloc_pages pages flags s =
     (if pages = 0 then Some (0, s)
      else
        let (sp, ep) = zone_bounds flags (take (unat (num_zones s)) (page_zones s))
        in if sp > total_pages s then Some (0, s)
           else
             let ep = (if ep > total_pages s then total_pages s else ep)
             in if sp = 0 \<and> ep = 0 then Some (0, s)
                else
                  let (pir, chosen_page) = scan_pages (k_page_bitmap s) (mem s) sp ep pages 0 0
                  in if pir \<noteq> pages then Some (0, s)
                     else do {
                       s \<leftarrow> mark_pages_used chosen_page pages s;
                       Some (chosen_page * 4096, s)
                     })"

section \<open>Mapping and unmapping\<close>

definition map_page ::
  "address_space \<Rightarrow> u32 \<Rightarrow> u32 \<Rightarrow> 'a paging_scheme \<Rightarrow> (u32 \<times> 'a paging_scheme) option" where
  "map_page addrspc p v s =
     (if p mod ucast (page_size s) \<noteq> 0 \<or> v mod ucast (page_size s) \<noteq> 0 then Some (0, s)
      else do {
        let pt = get_page_directory_entry addrspc v (mem s);
        s \<leftarrow> (if pt = 0 then do {
                (pt, s) \<leftarrow> alloc_pages 1 ZONE_NORMAL s;
                s \<leftarrow> (if pt = 0
                      then panic (''Unable to alloc_pages while mapping page!'' @ [CHR 0x0A]) s
                      else Some s);
                let m = set_page_directory_entry addrspc v (pt OR P_PRESENT OR P_WRITE) (mem s);
                Some (s\<lparr>mem := memset m (VADDR_FROM_INDEX 1023 (VADDR_PDE v)) 0 4096\<rparr>)
              } else Some s);
        (if get_page_table_entry addrspc v (mem s) \<noteq> 0 then Some (0, s)
         else Some (v, s\<lparr>mem := set_page_table_entry addrspc v
                            (p OR P_PRESENT OR P_WRITE OR P_USER) (mem s)\<rparr>))
      })"

definition unmap_page :: "address_space \<Rightarrow> u32 \<Rightarrow> bytes \<Rightarrow> bytes" where
  "unmap_page addrspc v m =
     (if v = 0 then m
      else if get_page_table_entry addrspc v m OR P_PRESENT \<noteq> 0
        then set_page_table_entry addrspc v 0 m
      else m)"

section \<open>Initialisation\<close>

definition init_page_allocator :: "'a paging_scheme \<Rightarrow> 'a paging_scheme option" where
  "init_page_allocator s =
     (let psz = ucast (page_size s) :: u32;
          b = \<lparr>bm_base = kernel_end s, bm_limit = kb_installed s div (psz div 1024)\<rparr>;
          bitmap_pages = bm_limit b div 8 div psz;
          bitmap_pages = (if bm_limit b div 8 mod psz \<noteq> 0 then bitmap_pages + 1 else bitmap_pages);
          s = s\<lparr>k_page_bitmap := b\<rparr>;
          s = s\<lparr>mem := bitmap_init b (mem s)\<rparr>;
          kphysstart = PE_MASK_FLAGS (get_page_table_entry (k_addrspc s) (kernel_start s) (mem s));
          kphysend = PE_MASK_FLAGS (get_page_table_entry (k_addrspc s) (kernel_end s) (mem s));
          kpages = (kphysend - kphysstart) div psz
      in do {
        s \<leftarrow> mark_pages_used (kphysstart div psz) kpages s;
        s \<leftarrow> mark_pages_used (kphysend div psz) bitmap_pages s;
        s \<leftarrow> mark_pages_used 0 256 s;
        Some (s\<lparr>kernel_end := kernel_end s + bitmap_pages * psz\<rparr>)
      })"

partial_function (option) unmap_loop ::
  "address_space \<Rightarrow> u32 \<Rightarrow> u32 \<Rightarrow> u32 \<Rightarrow> bytes \<Rightarrow> bytes option" where
  "unmap_loop addrspc cp clean_to psz m =
     (if cp < clean_to then unmap_loop addrspc (cp + psz) clean_to psz (unmap_page addrspc cp m)
      else Some m)"

definition init_paging :: "'a paging_scheme \<Rightarrow> 'a paging_scheme option" where
  "init_paging s =
     (let s = s\<lparr>page_size := K_PAGE_SIZE, kb_installed := 32 * 1024\<rparr>;
          pages = kb_installed s div (ucast (page_size s) div 1024);
          s = s\<lparr>total_pages := pages, free_pages := pages\<rparr>;
          zs = page_zones s;
          dma = \<lparr>allocation_flag = ZONE_DMA, base_page = 0, end_page = 0xFFF, usedpages = 0\<rparr>;
          highmem = \<not> total_pages s \<le> 0x36FFF;
          normal = \<lparr>allocation_flag = ZONE_NORMAL, base_page = 0x1000,
                    end_page = (if highmem then 0x36FFF else total_pages s), usedpages = 0\<rparr>;
          high = (if highmem
                  then \<lparr>allocation_flag = ZONE_HIGHMEM, base_page = 0x37000,
                        end_page = total_pages s, usedpages = 0\<rparr>
                  else zs ! 2);
          s = s\<lparr>page_zones := [dma, normal, high], num_zones := (if highmem then 3 else 2)\<rparr>;
          s = s\<lparr>kernel_start := KERNEL_START s, kernel_end := KERNEL_END s\<rparr>;
          s = s\<lparr>k_addrspc := \<lparr>pd = VADDR_BASE 1023\<rparr>\<rparr>;
          s = s\<lparr>brk_max := pd (k_addrspc s) - TEMP_RESERVE * ucast (page_size s)\<rparr>
      in do {
        s \<leftarrow> init_page_allocator s;
        let clean_from = kernel_end s;
        let clean_to = kernel_end s
              + (kernel_end s div 0x400000 * 0x400000 + 0x400000 - kernel_end s);
        m \<leftarrow> unmap_loop (k_addrspc s) clean_from clean_to (ucast (page_size s)) (mem s);
        Some (s\<lparr>mem := m\<rparr>)
      })"

section \<open>The scan finds the first fit\<close>

definition run_free :: "bitmap \<Rightarrow> bytes \<Rightarrow> nat \<Rightarrow> nat \<Rightarrow> bool" where
  "run_free b m c n \<longleftrightarrow> (\<forall>k. c \<le> unat k \<and> unat k < c + n \<longrightarrow> bitmap_bitget b k m = 0)"

text \<open>The result of a scan for runs that start at \<open>start\<close> or later and end before \<open>ep\<close>.\<close>

definition first_fit :: "bitmap \<Rightarrow> bytes \<Rightarrow> nat \<Rightarrow> nat \<Rightarrow> u32 \<Rightarrow> u32 \<times> u32 \<Rightarrow> bool" where
  "first_fit b m start ep pages r \<longleftrightarrow>
     (if fst r = pages
      then start \<le> unat (snd r) \<and> unat (snd r) + unat pages \<le> ep
        \<and> run_free b m (unat (snd r)) (unat pages)
        \<and> (\<forall>c. start \<le> c \<and> c < unat (snd r) \<longrightarrow> \<not> run_free b m c (unat pages))
      else (\<forall>c. start \<le> c \<and> c + unat pages \<le> ep \<longrightarrow> \<not> run_free b m c (unat pages)))"

lemma unat_up: "(i :: u32) < n \<Longrightarrow> unat (i + 1) = unat i + 1"
  using unat_plus_small [of i 1] unat_less_2p32 [of n] by (simp add: word_less_nat_alt)

lemma first_fit_at:
  assumes "unat c = start" "start + unat pages \<le> ep" "run_free b m start (unat pages)"
  shows "first_fit b m start ep pages (pages, c)"
proof -
  have "\<forall>c'. start \<le> c' \<and> c' < start \<longrightarrow> \<not> run_free b m c' (unat pages)"
    by (intro allI impI) linarith
  with assms show ?thesis by (simp add: first_fit_def)
qed

lemma first_fit_earlier:
  assumes "first_fit b m k ep pages r" "start \<le> k"
    and "\<And>c. start \<le> c \<Longrightarrow> \<not> k \<le> c \<Longrightarrow> \<not> run_free b m c (unat pages)"
  shows "first_fit b m start ep pages r"
proof (cases "fst r = pages")
  case True
  have "\<not> run_free b m c (unat pages)" if "start \<le> c" "c < unat (snd r)" for c
    using that assms True by (cases "k \<le> c") (auto simp: first_fit_def)
  then show ?thesis using True assms(1,2) by (simp add: first_fit_def)
next
  case False
  have "\<not> run_free b m c (unat pages)" if "start \<le> c" "c + unat pages \<le> ep" for c
    using that assms False by (cases "k \<le> c") (auto simp: first_fit_def)
  then show ?thesis using False by (simp add: first_fit_def)
qed

lemma run_free_extend:
  assumes "bitmap_bitget b i m = 0" "c + n = unat i" "run_free b m c n"
  shows "run_free b m c (n + 1)"
  unfolding run_free_def
proof (intro allI impI)
  fix k :: u32 assume k: "c \<le> unat k \<and> unat k < c + (n + 1)"
  show "bitmap_bitget b k m = 0"
  proof (cases "k = i")
    case False
    then have "unat k \<noteq> unat i" by (auto intro: unsigned_word_eqI)
    with k assms(2) have "unat k < c + n" by linarith
    with k assms(3) show ?thesis by (simp add: run_free_def)
  qed (simp add: assms(1))
qed

lemma scan_pages_first_fit:
  assumes "i \<le> ep" "pir < pages"
    and "pir \<noteq> 0 \<Longrightarrow> unat chosen + unat pir = unat i \<and> run_free b m (unat chosen) (unat pir)"
  shows "first_fit b m (if pir = 0 then unat i else unat chosen) (unat ep) pages
    (scan_pages b m i ep pages pir chosen)"
  using assms
proof (induction b m i ep pages pir chosen rule: scan_pages.induct)
  case (1 b m i ep pages pir chosen)
  note prems = "1.prems"
  let ?start = "if pir = 0 then unat i else unat chosen"
  have start: "?start + unat pir = unat i" using prems(3) by auto
  have lt: "unat pir < unat pages" using prems(2) by (simp add: word_less_nat_alt)
  have pir1: "unat (pir + 1) = unat pir + 1" using unat_up [OF prems(2)] .
  show ?case
  proof (cases "i < ep")
    case False
    then have "i = ep" using prems(1) by simp
    then show ?thesis
      using start lt prems(2) by (auto simp: scan_pages.simps [of b m ep ep] first_fit_def)
  next
    case in_range: True
    have i1: "unat (i + 1) = unat i + 1" "unat i < unat ep"
      using unat_up [OF in_range] in_range by (simp_all add: word_less_nat_alt)
    then have le: "i + 1 \<le> ep" by (simp add: word_le_nat_alt)
    show ?thesis
    proof (cases "bitmap_bitget b i m = 0")
      case free: True
      let ?chosen = "if pir = 0 then i else chosen"
      have run: "run_free b m ?start (unat pir + 1)"
      proof (rule run_free_extend [OF free start])
        show "run_free b m ?start (unat pir)"
          using prems(3) by (cases "pir = 0") (auto simp: run_free_def)
      qed
      have ch: "unat ?chosen = ?start" by simp
      show ?thesis
      proof (cases "pir + 1 = pages")
        case True
        then have "scan_pages b m i ep pages pir chosen = (pages, ?chosen)"
          using in_range free by (simp add: scan_pages.simps [of b m i ep] Let_def)
        moreover have n: "unat pages = unat pir + 1" using pir1 True by simp
        moreover have "?start + unat pages \<le> unat ep" using start i1 unfolding n by linarith
        ultimately show ?thesis
          using run first_fit_at [OF ch] by (simp only: n)
      next
        case False
        then have "unat (pir + 1) \<noteq> unat pages" by (auto intro: unsigned_word_eqI)
        then have "pir + 1 < pages" using pir1 lt by (simp add: word_less_nat_alt)
        moreover have "pir + 1 \<noteq> 0" using pir1 by auto
        moreover have "scan_pages b m i ep pages pir chosen =
            scan_pages b m (i + 1) ep pages (pir + 1) ?chosen"
          using in_range free False by (simp add: scan_pages.simps [of b m i ep] Let_def)
        moreover have "unat ?chosen + unat (pir + 1) = unat (i + 1)"
          "run_free b m (unat ?chosen) (unat (pir + 1))"
          using start i1 run unfolding pir1 ch by simp_all
        ultimately show ?thesis
          using 1(1) [OF in_range free refl refl False] le ch by simp
      qed
    next
      case used: False
      have rest: "scan_pages b m i ep pages pir chosen = scan_pages b m (i + 1) ep pages 0 chosen"
        using in_range used by (simp add: scan_pages.simps [of b m i ep])
      have "0 < pages" using lt by (simp add: word_less_nat_alt)
      then have IH: "first_fit b m (unat i + 1) (unat ep) pages
          (scan_pages b m (i + 1) ep pages 0 chosen)"
        using 1(2) [OF in_range used le] i1 by simp
      have no: "\<not> run_free b m c (unat pages)" if "?start \<le> c" "\<not> unat i + 1 \<le> c" for c
      proof
        assume "run_free b m c (unat pages)"
        moreover have "unat i < c + unat pages" using that start lt by linarith
        moreover have "c \<le> unat i" using that(2) by simp
        ultimately show False using used by (auto simp: run_free_def)
      qed
      have "?start \<le> unat i + 1" using start by linarith
      then show ?thesis
        unfolding rest by (rule first_fit_earlier [OF IH]) (rule no, simp_all)
    qed
  qed
qed

end
