(* ===== verification/Page_Alloc.thy ===== *)
theory Page_Alloc
  imports Paging
begin

text \<open>
  Correctness of the page frame allocator of \<^verbatim>\<open>cpu/page.c\<close>. \<open>alloc_wf\<close> is its invariant:
  the zones cover every managed page, the bitmap holds a bit for each of them, the counters
  \<^verbatim>\<open>usedpages\<close> and \<^verbatim>\<open>free_pages\<close> agree with the bitmap. \<open>marked s N s'\<close> states the whole effect
  of marking the set of pages \<open>N\<close>; \<^verbatim>\<open>alloc_pages\<close> marks the first run of free pages of the zone
  that is long enough, or leaves the state as it was.
\<close>

section \<open>The invariant\<close>

definition zones :: "'a paging_scheme \<Rightarrow> page_zone list" where
  "zones s = take (unat (num_zones s)) (page_zones s)"

definition page_used :: "'a paging_scheme \<Rightarrow> u32 \<Rightarrow> bool" where
  "page_used s n \<longleftrightarrow> bit_at (mem s) (bm_base (k_page_bitmap s)) n"

definition zone_count :: "page_zone list \<Rightarrow> u32 set \<Rightarrow> page_zone \<Rightarrow> nat" where
  "zone_count zs N z = card {n \<in> N. get_zone_loop n zs = Some (allocation_flag z)}"

definition used_pages :: "'a paging_scheme \<Rightarrow> u32 set" where
  "used_pages s = {n. n < total_pages s \<and> page_used s n}"

definition zones_wf :: "'a paging_scheme \<Rightarrow> bool" where
  "zones_wf s \<longleftrightarrow>
     unat (num_zones s) \<le> length (page_zones s)
     \<and> distinct (map allocation_flag (zones s))
     \<and> (\<forall>n < total_pages s. get_zone_loop n (zones s) \<noteq> None)
     \<and> 0 < total_pages s \<and> total_pages s \<le> bm_limit (k_page_bitmap s)
     \<and> total_pages s \<le> 0x100000"

definition counts_wf :: "'a paging_scheme \<Rightarrow> bool" where
  "counts_wf s \<longleftrightarrow>
     zones_wf s
     \<and> (\<forall>z \<in> set (zones s). usedpages z = of_nat (zone_count (zones s) (used_pages s) z))
     \<and> free_pages s = total_pages s - of_nat (card (used_pages s))"

definition alloc_wf :: "'a paging_scheme \<Rightarrow> bool" where
  "alloc_wf s \<longleftrightarrow> counts_wf s \<and> page_used s 0"

section \<open>Sets of pages\<close>

definition page_range :: "u32 \<Rightarrow> u32 \<Rightarrow> u32 set" where
  "page_range i ep = {n. i \<le> n \<and> n < ep}"

lemma page_range_step: "i < ep \<Longrightarrow> page_range i ep = insert i (page_range (i + 1) ep)"
proof -
  assume "i < ep"
  then have "unat (i + 1) = unat i + 1" by (rule unat_up)
  then have "i \<le> n \<longleftrightarrow> n = i \<or> i + 1 \<le> n" for n
    by (simp add: word_le_nat_alt word_unat_eq_iff [of n i]) linarith
  with \<open>i < ep\<close> show ?thesis by (auto simp: page_range_def)
qed

lemma page_range_not_in: "i < ep \<Longrightarrow> i \<notin> page_range (i + 1) ep"
  using unat_up [of i ep] by (simp add: page_range_def word_le_nat_alt)

lemma card_page_range: "card (page_range i ep) = unat ep - unat i"
proof -
  have "inj_on unat (page_range i ep)" by (auto intro!: inj_onI unsigned_word_eqI)
  moreover have "unat ` page_range i ep = {unat i ..< unat ep}"
  proof (intro set_eqI iffI)
    fix k assume "k \<in> {unat i ..< unat ep}"
    moreover from this have "unat (of_nat k :: u32) = k"
      using unat_less_2p32 [of ep] by (simp add: unat_of_nat)
    ultimately show "k \<in> unat ` page_range i ep"
      by (intro image_eqI [of _ _ "of_nat k"]) (auto simp: page_range_def word_le_nat_alt word_less_nat_alt)
  qed (auto simp: page_range_def word_le_nat_alt word_less_nat_alt)
  ultimately show ?thesis using card_image by fastforce
qed

lemma zone_count_insert:
  "n \<notin> N \<Longrightarrow> zone_count zs (insert n N) z =
    zone_count zs N z + (if get_zone_loop n zs = Some (allocation_flag z) then 1 else 0)"
proof -
  assume n: "n \<notin> N"
  have "finite {k \<in> N. get_zone_loop k zs = Some (allocation_flag z)}" by simp
  moreover have "{k \<in> insert n N. get_zone_loop k zs = Some (allocation_flag z)} =
      (if get_zone_loop n zs = Some (allocation_flag z) then insert n else id)
        {k \<in> N. get_zone_loop k zs = Some (allocation_flag z)}" by auto
  ultimately show ?thesis using n by (simp add: zone_count_def)
qed

lemma zone_count_union:
  "N \<inter> M = {} \<Longrightarrow> zone_count zs (N \<union> M) z = zone_count zs N z + zone_count zs M z"
proof -
  assume "N \<inter> M = {}"
  then have "card ({n \<in> N. P n} \<union> {n \<in> M. P n}) = card {n \<in> N. P n} + card {n \<in> M. P n}" for P
    by (intro card_Un_disjoint) auto
  moreover have "{n \<in> N \<union> M. P n} = {n \<in> N. P n} \<union> {n \<in> M. P n}" for P by auto
  ultimately show ?thesis by (simp add: zone_count_def)
qed

section \<open>The effect of marking pages\<close>

definition bump :: "page_zone list \<Rightarrow> u32 set \<Rightarrow> page_zone \<Rightarrow> page_zone" where
  "bump zs N z = z\<lparr>usedpages := usedpages z + of_nat (zone_count zs N z)\<rparr>"

definition marked :: "'a paging_scheme \<Rightarrow> u32 set \<Rightarrow> 'a paging_scheme \<Rightarrow> bool" where
  "marked s N s' \<longleftrightarrow> (\<exists>m.
     s' = s\<lparr>mem := m, page_zones := map (bump (zones s) N) (zones s)
              @ drop (unat (num_zones s)) (page_zones s)\<rparr>
     \<and> (\<forall>x. x \<notin> bitmap_bytes (k_page_bitmap s) \<longrightarrow> m x = mem s x)
     \<and> (\<forall>k. bit_at m (bm_base (k_page_bitmap s)) k \<longleftrightarrow> k \<in> N \<or> page_used s k))"

lemma bump_simps [simp]:
  "allocation_flag (bump zs N z) = allocation_flag z" "base_page (bump zs N z) = base_page z"
  "end_page (bump zs N z) = end_page z"
  "usedpages (bump zs N z) = usedpages z + of_nat (zone_count zs N z)"
  by (simp_all add: bump_def)

lemma get_zone_loop_bump [simp]: "get_zone_loop n (map (bump zs0 N) zs) = get_zone_loop n zs"
  by (induction zs) auto

lemma zone_bounds_bump [simp]: "zone_bounds f (map (bump zs0 N) zs) = zone_bounds f zs"
  by (induction zs) auto

lemma zone_count_bump [simp]: "zone_count (map (bump zs0 N) zs) M z = zone_count zs M z"
  "zone_count zs M (bump zs0 N z) = zone_count zs M z"
  by (simp_all add: zone_count_def)

lemma bump_empty [simp]: "bump zs {} = (\<lambda>z. z)"
  by (simp add: bump_def zone_count_def fun_eq_iff)

lemma zone_count_single [simp]:
  "zone_count zs {n} z = (if get_zone_loop n zs = Some (allocation_flag z) then 1 else 0)"
  using zone_count_insert [of n "{}" zs z] by (simp add: zone_count_def)

lemma marked_fields:
  assumes "marked s N s'"
  shows "num_zones s' = num_zones s" "total_pages s' = total_pages s" "free_pages s' = free_pages s"
    "k_page_bitmap s' = k_page_bitmap s" "length (page_zones s') = length (page_zones s)"
    "page_used s' k \<longleftrightarrow> k \<in> N \<or> page_used s k"
    "x \<notin> bitmap_bytes (k_page_bitmap s) \<Longrightarrow> mem s' x = mem s x"
  using assms by (auto simp: marked_def zones_def page_used_def)

lemma zones_marked:
  assumes "marked s N s'" "unat (num_zones s) \<le> length (page_zones s)"
  shows "zones s' = map (bump (zones s) N) (zones s)"
proof -
  have "length (zones s) = unat (num_zones s)" using assms(2) by (simp add: zones_def)
  then show ?thesis using assms(1) by (auto simp: marked_def zones_def [of s'])
qed

lemma marked_empty: "unat (num_zones s) \<le> length (page_zones s) \<Longrightarrow> marked s {} s"
  unfolding marked_def by (rule exI [of _ "mem s"]) (simp add: zones_def page_used_def)

lemma bump_bump: "N \<inter> M = {} \<Longrightarrow> bump zs M (bump zs N z) = bump zs (N \<union> M) z"
  by (simp add: bump_def zone_count_union) (simp add: zone_count_def)

lemma marked_trans:
  assumes "marked s N s'" "marked s' M s''" "N \<inter> M = {}"
    and len: "unat (num_zones s) \<le> length (page_zones s)"
  shows "marked s (N \<union> M) s''"
proof -
  have z: "zones s' = map (bump (zones s) N) (zones s)" using zones_marked assms(1) len .
  have ln: "length (zones s) = unat (num_zones s)" using len by (simp add: zones_def)
  have b: "bump (zones s') M (bump (zones s) N y) = bump (zones s) (N \<union> M) y" for y
    using bump_bump [OF assms(3), of "zones s" y] by (simp add: z bump_def)
  from assms(1) obtain m where m: "s' = s\<lparr>mem := m, page_zones := map (bump (zones s) N) (zones s)
      @ drop (unat (num_zones s)) (page_zones s)\<rparr>" by (auto simp: marked_def)
  note f1 = marked_fields [OF assms(1)] and f2 = marked_fields [OF assms(2)]
  from assms(2) obtain m' where m': "s'' = s'\<lparr>mem := m', page_zones := map (bump (zones s') M) (zones s')
      @ drop (unat (num_zones s')) (page_zones s')\<rparr>" by (auto simp: marked_def)
  have "map (bump (zones s') M) (zones s') = map (bump (zones s) (N \<union> M)) (zones s)"
    unfolding z by (simp add: b [unfolded z])
  moreover have "drop (unat (num_zones s')) (page_zones s') = drop (unat (num_zones s)) (page_zones s)"
    using m ln by simp
  ultimately have "s'' = s\<lparr>mem := m', page_zones := map (bump (zones s) (N \<union> M)) (zones s)
      @ drop (unat (num_zones s)) (page_zones s)\<rparr>" using m m' by simp
  moreover have "m' x = mem s x" if "x \<notin> bitmap_bytes (k_page_bitmap s)" for x
    using that f1(4,7) f2(7) m' by simp
  moreover have "bit_at m' (bm_base (k_page_bitmap s)) k \<longleftrightarrow> k \<in> N \<union> M \<or> page_used s k" for k
    using f1(4,6) f2(6) m' by (auto simp: page_used_def)
  ultimately show ?thesis by (auto simp: marked_def)
qed

text \<open>The zone that \<^verbatim>\<open>__mark_page_used\<close> counts the page in.\<close>

lemma get_zone_loop_flag:
  "get_zone_loop n zs = Some f \<Longrightarrow> zone_index f zs < length zs"
  by (induction zs) (auto split: if_splits)

lemma zone_index_bump:
  assumes "distinct (map allocation_flag zs)" "zone_index f zs < length zs"
  shows "zs[zone_index f zs := (zs ! zone_index f zs)\<lparr>usedpages := usedpages (zs ! zone_index f zs) + 1\<rparr>]
    = map (\<lambda>z. if allocation_flag z = f then z\<lparr>usedpages := usedpages z + 1\<rparr> else z) zs"
  using assms
proof (induction zs)
  case (Cons z zs)
  show ?case
  proof (cases "f = allocation_flag z")
    case True
    then have "map (\<lambda>z. if allocation_flag z = f then z\<lparr>usedpages := usedpages z + 1\<rparr> else z) zs = zs"
      using Cons.prems(1) by (intro map_idI) (metis distinct.simps(2) image_eqI list.set_map list.simps(9))
    then show ?thesis using True by simp
  qed (use Cons in auto)
qed simp

lemma mark_page_used_marked:
  assumes "zones_wf s" "n < total_pages s"
  shows "\<exists>s'. mark_page_used n s = Some s' \<and> marked s {n} s'"
proof -
  let ?zs = "page_zones s" and ?k = "unat (num_zones s)"
  have len: "?k \<le> length ?zs" and dist: "distinct (map allocation_flag (zones s))"
    and cov: "get_zone_loop n (zones s) \<noteq> None" and lim: "n < bm_limit (k_page_bitmap s)"
    using assms by (auto simp: zones_wf_def)
  then obtain f where f: "get_zone_loop n (zones s) = Some f" by auto
  have zl: "length (zones s) = ?k" using len by (simp add: zones_def)
  let ?j = "zone_index f (zones s)"
  have j: "?j < ?k" using get_zone_loop_flag [OF f] zl by simp
  then have nth: "?zs ! ?j = zones s ! ?j" by (simp add: zones_def)
  have "bump (zones s) {n} z = (if allocation_flag z = f then z\<lparr>usedpages := usedpages z + 1\<rparr> else z)" for z
    using f by (auto simp: bump_def)
  then have "(zones s)[?j := (?zs ! ?j)\<lparr>usedpages := usedpages (?zs ! ?j) + 1\<rparr>]
      = map (bump (zones s) {n}) (zones s)"
    using zone_index_bump [OF dist get_zone_loop_flag [OF f]] unfolding nth by simp
  moreover have "?zs[?j := x] = (zones s)[?j := x] @ drop ?k ?zs" for x
    using j zl by (simp add: zones_def take_update_swap flip: list_update_append1)
  ultimately have "count_used_page f s =
      Some (s\<lparr>page_zones := map (bump (zones s) {n}) (zones s) @ drop ?k ?zs\<rparr>)"
    using j len by (simp add: count_used_page_def zones_def [symmetric])
  moreover have "get_zone n s = Some (f, s)" using f by (simp add: get_zone_def zones_def)
  ultimately have "mark_page_used n s = Some (s\<lparr>mem := snd (bitmap_bitset (k_page_bitmap s) n (mem s)),
      page_zones := map (bump (zones s) {n}) (zones s) @ drop ?k ?zs\<rparr>)"
    using bitmap_bitset_ok(1) [OF lim, of "mem s"]
    by (cases "bitmap_bitset (k_page_bitmap s) n (mem s)") (simp add: mark_page_used_def Let_def)
  then show ?thesis
    using bitmap_bitset_ok(2) [OF lim, of "mem s"] bitmap_ops_outside(1)
    by (auto simp: marked_def page_used_def)
qed

lemma zones_wf_marked: "marked s N s' \<Longrightarrow> zones_wf s \<Longrightarrow> zones_wf s'"
  using marked_fields [of s N s'] zones_marked [of s N s'] by (simp add: zones_wf_def comp_def)

lemma mark_pages_loop_marked:
  assumes "zones_wf s" "i \<le> ep" "ep \<le> total_pages s"
  shows "\<exists>s'. mark_pages_loop i ep s = Some s' \<and> marked s (page_range i ep) s'"
  using assms
proof (induction i ep s rule: mark_pages_loop.induct)
  case (1 i ep s)
  have len: "unat (num_zones s) \<le> length (page_zones s)" using 1(2) by (simp add: zones_wf_def)
  show ?case
  proof (cases "i < ep")
    case True
    then have "i < total_pages s" using 1(4) by simp
    from mark_page_used_marked [OF 1(2) this]
    obtain s1 where s1: "mark_page_used i s = Some s1" "marked s {i} s1" by blast
    have "i + 1 \<le> ep" using unat_up [OF True] True by (simp add: word_le_nat_alt word_less_nat_alt)
    from 1(1) [OF True s1(1) zones_wf_marked [OF s1(2) 1(2)] this] 1(4) marked_fields(2) [OF s1(2)]
    obtain s' where s': "mark_pages_loop (i + 1) ep s1 = Some s'" "marked s1 (page_range (i + 1) ep) s'"
      by auto
    have "marked s ({i} \<union> page_range (i + 1) ep) s'"
      using marked_trans [OF s1(2) s'(2) _ len] page_range_not_in [OF True] by simp
    then show ?thesis
      using s1(1) s'(1) True page_range_step [OF True] by (simp add: mark_pages_loop.simps [of i])
  next
    case False
    then have "page_range i ep = {}" by (auto simp: page_range_def)
    with False show ?thesis using marked_empty [OF len] by (simp add: mark_pages_loop.simps [of i])
  qed
qed

lemma mark_pages_used_marked:
  assumes "zones_wf s" "unat page + unat pages \<le> unat (total_pages s)"
  shows "\<exists>s'. mark_pages_used page pages s = Some (s'\<lparr>free_pages := free_pages s - pages\<rparr>)
    \<and> marked s (page_range page (page + pages)) s'"
proof -
  have "unat (page + pages) = unat page + unat pages"
    using assms(2) unat_less_2p32 [of "total_pages s"] by (intro unat_plus_small) simp
  then have "page \<le> page + pages" "page + pages \<le> total_pages s"
    using assms(2) by (simp_all add: word_le_nat_alt)
  from mark_pages_loop_marked [OF assms(1) this] show ?thesis
    by (auto simp: mark_pages_used_def marked_fields(3))
qed

section \<open>Allocation\<close>

definition free_run :: "'a paging_scheme \<Rightarrow> nat \<Rightarrow> nat \<Rightarrow> bool" where
  "free_run s c n \<longleftrightarrow> (\<forall>k. c \<le> unat k \<and> unat k < c + n \<longrightarrow> \<not> page_used s k)"

text \<open>The pages that a request with \<open>flags\<close> searches: from the base page to before the end page, which
  the search leaves out although \<^verbatim>\<open>__get_zone\<close> counts it to the zone.\<close>

definition search_range :: "u32 \<Rightarrow> 'a paging_scheme \<Rightarrow> nat \<times> nat" where
  "search_range flags s =
     (let (sp, ep) = zone_bounds flags (zones s) in (unat sp, min (unat ep) (unat (total_pages s))))"

lemma run_free_used:
  assumes "zones_wf s" "c + n \<le> unat (total_pages s)"
  shows "run_free (k_page_bitmap s) (mem s) c n \<longleftrightarrow> free_run s c n"
proof -
  have "\<not> bm_limit (k_page_bitmap s) \<le> k" if "unat k < c + n" for k
    using that assms by (simp add: zones_wf_def word_le_nat_alt)
  then show ?thesis
    by (auto simp: run_free_def free_run_def bitmap_bitget_eq page_used_def)
qed

definition is_first_fit :: "'a paging_scheme \<Rightarrow> nat \<times> nat \<Rightarrow> u32 \<Rightarrow> u32 \<Rightarrow> bool" where
  "is_first_fit s r c pages \<longleftrightarrow>
     fst r \<le> unat c \<and> unat c + unat pages \<le> snd r \<and> free_run s (unat c) (unat pages)
     \<and> (\<forall>c'. fst r \<le> c' \<and> c' < unat c \<longrightarrow> \<not> free_run s c' (unat pages))"

definition no_fit :: "'a paging_scheme \<Rightarrow> nat \<times> nat \<Rightarrow> u32 \<Rightarrow> bool" where
  "no_fit s r pages \<longleftrightarrow> (\<forall>c. fst r \<le> c \<and> c + unat pages \<le> snd r \<longrightarrow> \<not> free_run s c (unat pages))"

lemma scan_result:
  assumes wf: "zones_wf s" and "pages \<noteq> 0" "sp \<le> ep" "ep \<le> total_pages s"
    and res: "scan_pages (k_page_bitmap s) (mem s) sp ep pages 0 0 = (pir, c)"
  shows "if pir = pages then is_first_fit s (unat sp, unat ep) c pages
         else no_fit s (unat sp, unat ep) pages"
proof -
  have "0 < pages" using assms(2) by (simp add: word_gt_0)
  then have ff: "first_fit (k_page_bitmap s) (mem s) (unat sp) (unat ep) pages (pir, c)"
    using scan_pages_first_fit [of sp ep 0 pages 0 "k_page_bitmap s" "mem s"] assms(3) res by simp
  have ep: "unat ep \<le> unat (total_pages s)" using assms(4) by (simp add: word_le_nat_alt)
  have eq: "run_free (k_page_bitmap s) (mem s) c' (unat pages) = free_run s c' (unat pages)"
    if "c' + unat pages \<le> unat ep" for c' using run_free_used [OF wf] that ep by simp
  show ?thesis
  proof (cases "pir = pages")
    case True
    then have "unat sp \<le> unat c" "unat c + unat pages \<le> unat ep"
      "run_free (k_page_bitmap s) (mem s) (unat c) (unat pages)"
      and min: "\<And>c'. unat sp \<le> c' \<Longrightarrow> c' < unat c \<Longrightarrow>
        \<not> run_free (k_page_bitmap s) (mem s) c' (unat pages)"
      using ff by (simp_all add: first_fit_def)
    moreover from this have "\<not> free_run s c' (unat pages)" if "unat sp \<le> c'" "c' < unat c" for c'
      using that eq [of c'] min [of c'] by simp
    ultimately show ?thesis using True eq by (simp add: is_first_fit_def)
  next
    case False
    then have "\<not> free_run s c' (unat pages)" if "unat sp \<le> c'" "c' + unat pages \<le> unat ep" for c'
      using that ff eq [of c'] by (simp add: first_fit_def)
    then show ?thesis using False by (simp add: no_fit_def)
  qed
qed

lemma alloc_pages_cases:
  assumes wf: "zones_wf s" and "pages \<noteq> 0"
  shows "(alloc_pages pages flags s = Some (0, s) \<and> no_fit s (search_range flags s) pages)
    \<or> (\<exists>c s'. alloc_pages pages flags s = Some (c * 4096, s'\<lparr>free_pages := free_pages s - pages\<rparr>)
        \<and> marked s (page_range c (c + pages)) s' \<and> is_first_fit s (search_range flags s) c pages)"
proof -
  obtain sp ep0 where zb: "zone_bounds flags (zones s) = (sp, ep0)" by fastforce
  define ep where "ep = (if ep0 > total_pages s then total_pages s else ep0)"
  have ep: "ep \<le> total_pages s" "unat ep = min (unat ep0) (unat (total_pages s))"
    by (auto simp: ep_def word_less_nat_alt word_le_nat_alt)
  then have sr: "search_range flags s = (unat sp, unat ep)"
    by (simp add: search_range_def zb)
  have n: "0 < unat pages" using assms(2) by (simp add: unat_gt_0)
  show ?thesis
  proof (cases "sp > total_pages s \<or> sp > ep \<or> sp = 0 \<and> ep = 0")
    case True
    then have "no_fit s (unat sp, unat ep) pages"
      using n ep by (auto simp: no_fit_def word_less_nat_alt word_le_nat_alt)
    moreover have "ep < sp \<Longrightarrow> scan_pages (k_page_bitmap s) (mem s) sp ep pages 0 0 = (0, 0)"
      by (simp add: scan_pages.simps [of _ _ sp] less_not_sym)
    then have "alloc_pages pages flags s = Some (0, s)"
      using True assms(2) ep
      by (auto simp: alloc_pages_def Let_def zb zones_def [symmetric] ep_def [symmetric])
    ultimately show ?thesis by (simp add: sr)
  next
    case False
    obtain pir c where sc: "scan_pages (k_page_bitmap s) (mem s) sp ep pages 0 0 = (pir, c)"
      by fastforce
    have ap: "alloc_pages pages flags s =
        (if pir \<noteq> pages then Some (0, s)
         else do { s \<leftarrow> mark_pages_used c pages s; Some (c * 4096, s) })"
      using False assms(2) sc by (auto simp: alloc_pages_def Let_def zb zones_def [symmetric] ep_def [symmetric])
    have res: "if pir = pages then is_first_fit s (unat sp, unat ep) c pages
        else no_fit s (unat sp, unat ep) pages"
      using scan_result [OF wf assms(2) _ ep(1) sc] False by (simp add: not_less)
    show ?thesis
    proof (cases "pir = pages")
      case True
      then have "is_first_fit s (unat sp, unat ep) c pages" using res by simp
      moreover from this have "unat c + unat pages \<le> unat (total_pages s)"
        using ep by (simp add: is_first_fit_def)
      ultimately show ?thesis
        using mark_pages_used_marked [OF wf, of c pages] True ap by (auto simp: sr)
    qed (use res ap sr in simp)
  qed
qed

section \<open>The invariant is kept, and a page number determines its address\<close>

lemma used_pages_marked:
  assumes "marked s N s'" "N \<subseteq> {n. n < total_pages s}"
  shows "used_pages s' = N \<union> used_pages s"
  using assms(2) marked_fields [OF assms(1)] by (auto simp: used_pages_def)

lemma unmarked_fields:
  "zones (s\<lparr>free_pages := x\<rparr>) = zones s" "used_pages (s\<lparr>free_pages := x\<rparr>) = used_pages s"
  "page_used (s\<lparr>free_pages := x\<rparr>) = page_used s"
  by (simp_all add: zones_def used_pages_def page_used_def fun_eq_iff)

lemma counts_wf_marked:
  assumes wf: "counts_wf s" and m: "marked s N s'"
    and N: "N \<subseteq> {n. n < total_pages s}" "N \<inter> used_pages s = {}"
  shows "counts_wf (s'\<lparr>free_pages := free_pages s - of_nat (card N)\<rparr>)"
proof -
  let ?s = "s'\<lparr>free_pages := free_pages s - of_nat (card N)\<rparr>"
  note f = marked_fields [OF m] and u = used_pages_marked [OF m N(1)]
  have zwf: "zones_wf s" using wf by (simp add: counts_wf_def)
  then have z: "zones s' = map (bump (zones s) N) (zones s)"
    using zones_marked [OF m] by (simp add: zones_wf_def)
  have "zones_wf ?s" using zones_wf_marked [OF m zwf] by (simp add: zones_wf_def unmarked_fields)
  moreover have "usedpages (bump (zones s) N y) = of_nat (zone_count (zones s) (N \<union> used_pages s) y)"
    if "y \<in> set (zones s)" for y
    using that wf N(2) by (simp add: zone_count_union counts_wf_def)
  then have "\<forall>z \<in> set (zones ?s). usedpages z = of_nat (zone_count (zones ?s) (used_pages ?s) z)"
    by (auto simp: unmarked_fields z u)
  moreover have "card (N \<union> used_pages s) = card N + card (used_pages s)"
    using N(2) by (intro card_Un_disjoint) auto
  then have "free_pages ?s = total_pages ?s - of_nat (card (used_pages ?s))"
    using wf f(2) by (simp add: unmarked_fields u counts_wf_def)
  ultimately show ?thesis by (simp add: counts_wf_def)
qed

lemma alloc_wf_marked:
  assumes wf: "alloc_wf s" and m: "marked s N s'"
    and N: "N \<subseteq> {n. n < total_pages s}" "N \<inter> used_pages s = {}"
  shows "alloc_wf (s'\<lparr>free_pages := free_pages s - of_nat (card N)\<rparr>)"
  using counts_wf_marked [OF _ m N] wf marked_fields(6) [OF m, of 0]
  by (simp add: alloc_wf_def unmarked_fields)

lemma first_fit_pages:
  assumes wf: "alloc_wf s" and n: "pages \<noteq> 0" and ff: "is_first_fit s (search_range flags s) c pages"
  shows "unat c + unat pages \<le> unat (total_pages s)"
    and "unat c < 0x100000" "c \<noteq> 0" "c * 4096 \<noteq> 0" "drop_bit 12 (c * 4096) = c"
    and "page_range c (c + pages) \<subseteq> {n. n < total_pages s}"
    and "page_range c (c + pages) \<inter> used_pages s = {}"
    and "card (page_range c (c + pages)) = unat pages"
proof -
  have pn: "0 < unat pages" using n by (simp add: unat_gt_0)
  have sr: "snd (search_range flags s) \<le> unat (total_pages s)"
    by (simp add: search_range_def split: prod.splits)
  then show tot: "unat c + unat pages \<le> unat (total_pages s)" using ff by (simp add: is_first_fit_def)
  have total: "unat (total_pages s) \<le> 0x100000"
    using wf by (simp add: alloc_wf_def counts_wf_def zones_wf_def word_le_nat_alt)
  with tot pn show c: "unat c < 0x100000" by linarith
  have free: "free_run s (unat c) (unat pages)" using ff by (simp add: is_first_fit_def)
  show "c \<noteq> 0"
  proof
    assume "c = 0"
    with free pn have "\<not> page_used s 0" by (simp add: free_run_def)
    with wf show False by (simp add: alloc_wf_def counts_wf_def)
  qed
  have "unat (c * 4096) = unat c * 4096" using c by (simp add: unat_word_ariths)
  then show "drop_bit 12 (c * 4096) = c"
    by (simp add: word_unat_eq_iff unat_drop_bit_eq drop_bit_eq_div [where ?'a = nat])
  with \<open>c \<noteq> 0\<close> show "c * 4096 \<noteq> 0" by auto
  have un: "unat (c + pages) = unat c + unat pages"
    using tot unat_less_2p32 [of "total_pages s"] by (intro unat_plus_small) simp
  then show "card (page_range c (c + pages)) = unat pages" by (simp add: card_page_range)
  show "page_range c (c + pages) \<subseteq> {n. n < total_pages s}"
    using tot un by (auto simp: page_range_def word_less_nat_alt)
  show "page_range c (c + pages) \<inter> used_pages s = {}"
    using free un by (auto simp: page_range_def used_pages_def free_run_def word_less_nat_alt word_le_nat_alt)
qed

lemma alloc_wf_alloc_pages:
  assumes wf: "alloc_wf s" and al: "alloc_pages pages flags s = Some (p, s')"
  shows "alloc_wf s'"
proof (cases "pages = 0")
  case False
  have zwf: "zones_wf s" using wf by (simp add: alloc_wf_def counts_wf_def)
  from alloc_pages_cases [OF this False, of flags] al
  consider "s' = s" | c s1 where "s' = s1\<lparr>free_pages := free_pages s - pages\<rparr>"
      "marked s (page_range c (c + pages)) s1" "is_first_fit s (search_range flags s) c pages" by auto
  then show ?thesis
  proof cases
    case 2
    note ff = first_fit_pages [OF wf False 2(3)]
    show ?thesis using alloc_wf_marked [OF wf 2(2) ff(6,7)] ff(8) 2(1) by simp
  qed (use wf in simp)
qed (use wf al in \<open>simp add: alloc_pages_def\<close>)

text \<open>Stores outside the bitmap do not matter to the allocator.\<close>

lemma page_used_mem:
  assumes "\<And>x. x \<in> bitmap_bytes (k_page_bitmap s) \<Longrightarrow> m x = mem s x" "n < bm_limit (k_page_bitmap s)"
  shows "page_used (s\<lparr>mem := m\<rparr>) n = page_used s n"
  using assms(1) [OF bit_byte_in_bitmap [OF assms(2)]] by (simp add: page_used_def bit_at_def)

lemma used_pages_mem:
  assumes "zones_wf s" "\<And>x. x \<in> bitmap_bytes (k_page_bitmap s) \<Longrightarrow> m x = mem s x"
  shows "used_pages (s\<lparr>mem := m\<rparr>) = used_pages s"
proof -
  have "page_used (s\<lparr>mem := m\<rparr>) n = page_used s n" if "n < total_pages s" for n
    using that assms(1) page_used_mem [OF assms(2)] by (auto simp: zones_wf_def)
  then show ?thesis by (auto simp: used_pages_def)
qed

lemma alloc_wf_mem:
  assumes "alloc_wf s" "\<And>x. x \<in> bitmap_bytes (k_page_bitmap s) \<Longrightarrow> m x = mem s x"
  shows "alloc_wf (s\<lparr>mem := m\<rparr>)"
proof -
  have wf: "zones_wf s" using assms(1) by (simp add: alloc_wf_def counts_wf_def)
  have u: "page_used (s\<lparr>mem := m\<rparr>) n = page_used s n" if "n < total_pages s" for n
    using that wf page_used_mem [OF assms(2)] by (auto simp: zones_wf_def)
  have "used_pages (s\<lparr>mem := m\<rparr>) = used_pages s" using used_pages_mem [OF wf assms(2)] by simp
  moreover have "zones (s\<lparr>mem := m\<rparr>) = zones s" by (simp add: zones_def)
  moreover have "page_used (s\<lparr>mem := m\<rparr>) 0 = page_used s 0" using u wf by (simp add: zones_wf_def)
  ultimately show ?thesis using assms(1) by (simp add: alloc_wf_def counts_wf_def zones_wf_def)
qed

end
