(* ===== verification/Page_Map.thy ===== *)
theory Page_Map
  imports Page_Alloc
begin

text \<open>
  Correctness of \<^verbatim>\<open>__map_page\<close> and \<^verbatim>\<open>__unmap_page\<close> of \<^verbatim>\<open>cpu/page.c\<close> against the
  translation of the memory management unit. The entries of all page tables are one array of words in
  the window that the self map opens at \<open>0xFFC00000\<close>; the entry of a page is at \<open>pte_addr\<close>, and
  the page directory is the last page of the window.
\<close>

section \<open>The window\<close>

definition pte_addr :: "u32 \<Rightarrow> u32" where
  "pte_addr v = 0xFFC00000 + 4 * drop_bit 12 v"

definition pde_addr :: "u32 \<Rightarrow> u32" where
  "pde_addr v = 0xFFFFF000 + 4 * drop_bit 22 v"

definition table_addr :: "u32 \<Rightarrow> u32" where
  "table_addr v = 0xFFC00000 + 4096 * drop_bit 22 v"

text \<open>What the processor's two-level walk finds for an address, through the same window.\<close>

definition translate :: "bytes \<Rightarrow> u32 \<Rightarrow> u32 option" where
  "translate m v =
     (let pde = load32 m (pde_addr v); pte = load32 m (pte_addr v)
      in if pde AND P_PRESENT \<noteq> 0 \<and> pte AND P_PRESENT \<noteq> 0
         then Some (PE_MASK_FLAGS pte + (v AND 0xFFF)) else None)"

lemma unat_drop: "unat (drop_bit k v) = unat v div 2 ^ k"
  by (simp add: unat_drop_bit_eq drop_bit_eq_div [where ?'a = nat])

lemma unat_page: "unat (drop_bit 12 (v :: u32)) = unat v div 4096"
  "unat (drop_bit 22 (v :: u32)) = unat v div 4194304"
  by (simp_all add: unat_drop)

lemma page_bounds: "unat (v :: u32) div 4096 < 1048576" "unat v div 4194304 < 1024"
  using unat_less_2p32 [of v] by (simp_all add: less_mult_imp_div_less)

lemma VADDR_PDE_eq: "VADDR_PDE v = drop_bit 22 v"
proof -
  have m: "(0x3FF :: u32) = mask 10" by (simp add: mask_eq_exp_minus_1)
  show ?thesis
    by (rule bit_word_eqI) (auto simp: VADDR_PDE_def m bit_simps dest: bit_imp_le_length)
qed

lemma entry_index: "GET_PE (VADDR_PDE v) (VADDR_PTE v) = drop_bit 12 v"
proof -
  have m: "(0x3FF :: u32) = mask 10" by (simp add: mask_eq_exp_minus_1)
  have "unat (VADDR_PTE v) = unat v div 4096 mod 1024"
    by (simp add: VADDR_PTE_def m unat_page flip: take_bit_eq_mask)
      (simp add: unat_mod unat_page take_bit_eq_mod)
  moreover have "unat (VADDR_PDE v * 1024) = unat v div 4096 div 1024 * 1024"
    using page_bounds [of v] by (simp add: VADDR_PDE_eq unat_word_ariths unat_page div_mult2_eq [symmetric])
  moreover have "unat v div 4096 div 1024 * 1024 + unat v div 4096 mod 1024 = unat v div 4096"
    by (rule div_mult_mod_eq)
  ultimately have "unat (GET_PE (VADDR_PDE v) (VADDR_PTE v)) = unat v div 4096"
    using page_bounds [of v] unfolding GET_PE_def by (subst unat_plus_small) simp_all
  then show ?thesis by (simp add: word_unat_eq_iff unat_page)
qed

lemma unat_addrs:
  "unat (pte_addr v) = 4290772992 + 4 * (unat v div 4096)"
  "unat (pde_addr v) = 4294963200 + 4 * (unat v div 4194304)"
  "unat (table_addr v) = 4290772992 + 4096 * (unat v div 4194304)"
proof -
  note b = page_bounds [of v]
  have "unat (4 * drop_bit 12 v) = 4 * (unat v div 4096)"
    "unat (4 * drop_bit 22 v) = 4 * (unat v div 4194304)"
    "unat (4096 * drop_bit 22 v) = 4096 * (unat v div 4194304)"
    using b by (simp_all add: unat_word_ariths unat_page)
  then show "unat (pte_addr v) = 4290772992 + 4 * (unat v div 4096)"
  "unat (pde_addr v) = 4294963200 + 4 * (unat v div 4194304)"
  "unat (table_addr v) = 4290772992 + 4096 * (unat v div 4194304)"
    using b by (simp_all add: pte_addr_def pde_addr_def table_addr_def unat_word_ariths)
qed

lemma page_entry_eqs:
  assumes "pd a = 0xFFC00000"
  shows "get_page_table_entry a v m = load32 m (pte_addr v)"
    and "set_page_table_entry a v p m = store32 m (pte_addr v) p"
    and "get_page_directory_entry a v m = load32 m (pde_addr v)"
    and "set_page_directory_entry a v p m = store32 m (pde_addr v) p"
proof -
  show "get_page_table_entry a v m = load32 m (pte_addr v)"
    "set_page_table_entry a v p m = store32 m (pte_addr v) p"
    using assms by (simp_all add: get_page_table_entry_def set_page_table_entry_def entry_index
        pte_addr_def Let_def)
  show "get_page_directory_entry a v m = load32 m (pde_addr v)"
    "set_page_directory_entry a v p m = store32 m (pde_addr v) p"
    using assms by (simp_all add: get_page_directory_entry_def set_page_directory_entry_def GET_PE_def
        VADDR_PDE_eq pde_addr_def Let_def algebra_simps)
qed

lemma window_of_table: "VADDR_FROM_INDEX 1023 (VADDR_PDE v) = table_addr v"
  by (simp add: VADDR_FROM_INDEX_def VADDR_PDE_eq table_addr_def algebra_simps)

text \<open>The directory entry of an address is the table entry of its table's page in the window.\<close>

lemma self_map: "pde_addr v = pte_addr (table_addr v)"
  by (simp add: word_unat_eq_iff unat_addrs) 

lemma entries_apart:
  assumes "unat v div 4096 \<noteq> unat w div 4096"
  shows "apart (pte_addr v) 4 (pte_addr w) 4"
proof -
  have le_end: "unat (pte_addr x) + 4 \<le> 4294967296" for x
    using page_bounds(1) [of x] unfolding unat_addrs by linarith
  from assms consider "unat v div 4096 + 1 \<le> unat w div 4096" | "unat w div 4096 + 1 \<le> unat v div 4096"
    by linarith
  then show ?thesis
  proof cases
    case 1
    then have "unat (pte_addr v) + 4 \<le> unat (pte_addr w)" unfolding unat_addrs by linarith
    then show ?thesis by (rule apart_natI) (simp_all add: le_end)
  next
    case 2
    then have "unat (pte_addr w) + 4 \<le> unat (pte_addr v)" unfolding unat_addrs by linarith
    then show ?thesis by (rule apart_natI2) (simp_all add: le_end)
  qed
qed

lemma directory_apart:
  assumes "v < 0xFFC00000"
  shows "apart (pte_addr v) 4 (pde_addr w) 4"
proof (rule apart_natI)
  have "unat v < 4290772992" using assms by (simp add: word_less_nat_alt)
  then have "unat v div 4096 < 1047552" by (simp add: less_mult_imp_div_less)
  then show "unat (pte_addr v) + 4 \<le> unat (pde_addr w)" by (simp add: unat_addrs)
  show "unat (pde_addr w) + 4 \<le> 4294967296" using page_bounds [of w] by (simp add: unat_addrs)
qed simp

lemma pte_addr_split:
  "4 * (unat w div 4096) = 4096 * (unat w div 4194304) + 4 * (unat w div 4096 mod 1024)"
proof -
  have "unat w div 4194304 = unat w div 4096 div 1024" by (simp add: div_mult2_eq [symmetric])
  moreover have "1024 * (unat w div 4096 div 1024) + unat w div 4096 mod 1024 = unat w div 4096"
    by (rule mult_div_mod_eq)
  ultimately show ?thesis by linarith
qed

lemma tables_apart:
  assumes "unat v div 4194304 \<noteq> unat w div 4194304"
  shows "apart (pte_addr w) 4 (table_addr v) 4096"
proof -
  have e: "unat (pte_addr w) + 4 \<le> unat (table_addr w) + 4096" "unat (table_addr w) \<le> unat (pte_addr w)"
    for w
    using pte_addr_split [of w] pos_mod_bound [of 1024 "int (unat w div 4096)"]
      mod_less_divisor [of 1024 "unat w div 4096"] unfolding unat_addrs by linarith+
  have t: "unat (table_addr w) + 4096 \<le> 4294967296" for w
    using page_bounds(2) [of w] unfolding unat_addrs by linarith
  from assms consider "unat v div 4194304 + 1 \<le> unat w div 4194304" | "unat w div 4194304 + 1 \<le> unat v div 4194304"
    by linarith
  then show ?thesis
  proof cases
    case 1
    then have "unat (table_addr v) + 4096 \<le> unat (table_addr w)" unfolding unat_addrs by linarith
    then show ?thesis using e [of w] t [of w] by (intro apart_natI2) linarith+
  next
    case 2
    then have "unat (table_addr w) + 4096 \<le> unat (table_addr v)" unfolding unat_addrs by linarith
    then show ?thesis using e [of w] t [of v] by (intro apart_natI) linarith+
  qed
qed

lemma directory_apart_table:
  assumes "v < 0xFFC00000"
  shows "apart (pde_addr w) 4 (table_addr v) 4096"
proof (rule apart_natI2)
  have "unat v < 4290772992" using assms by (simp add: word_less_nat_alt)
  then have "unat v div 4194304 < 1023" by (simp add: less_mult_imp_div_less)
  then show "unat (table_addr v) + 4096 \<le> unat (pde_addr w)" by (simp add: unat_addrs)
  show "unat (pde_addr w) + 4 \<le> 4294967296" using page_bounds [of w] by (simp add: unat_addrs)
qed simp

lemma pte_in_table:
  assumes "unat v div 4194304 = unat w div 4194304" "x \<in> span (pte_addr w) 4"
  shows "x \<in> span (table_addr v) 4096"
proof -
  have b: "unat (pte_addr w) + 4 \<le> 4294967296" "unat (table_addr v) + 4096 \<le> 4294967296"
    using page_bounds [of w] page_bounds [of v] by (simp_all add: unat_addrs)
  have "unat (pte_addr w) = unat (table_addr v) + 4 * (unat w div 4096 mod 1024)"
    using pte_addr_split [of w] assms(1) by (simp add: unat_addrs)
  moreover have "unat w div 4096 mod 1024 < 1024" by simp
  ultimately show ?thesis using assms(2) unfolding span_nat_iff [OF b(1)] span_nat_iff [OF b(2)] by linarith
qed

lemma directories_apart:
  assumes "unat v div 4194304 \<noteq> unat w div 4194304"
  shows "apart (pde_addr w) 4 (pde_addr v) 4"
  unfolding self_map
proof (rule entries_apart)
  have "unat (table_addr x) div 4096 = 1047552 + unat x div 4194304" for x
    by (simp add: unat_addrs)
  then show "unat (table_addr w) div 4096 \<noteq> unat (table_addr v) div 4096" using assms by simp
qed

section \<open>\<^verbatim>\<open>__map_page\<close>\<close>

text \<open>The window is where \<^verbatim>\<open>init_paging\<close> puts it and the allocator's bitmap lies below it.\<close>

definition window_wf :: "address_space \<Rightarrow> 'a paging_scheme \<Rightarrow> bool" where
  "window_wf a s \<longleftrightarrow> pd a = 0xFFC00000 \<and> page_size s = 4096
     \<and> unat (bm_base (k_page_bitmap s)) + (unat (bm_limit (k_page_bitmap s)) + 7) div 8 \<le> 0xFFC00000"

lemma window_not_bitmap:
  assumes "window_wf a s" "x \<ge> 0xFFC00000"
  shows "x \<notin> bitmap_bytes (k_page_bitmap s)"
proof -
  have "unat x \<ge> 4290772992" using assms(2) by (simp add: word_le_nat_alt)
  then show ?thesis
    using assms(1) by (simp add: bitmap_bytes_def window_wf_def span_nat_iff)
qed

lemma window_entries:
  assumes "x \<in> span (pte_addr v) 4"
  shows "x \<ge> 0xFFC00000"
proof -
  have "unat (pte_addr v) + 4 \<le> 4294967296" using page_bounds [of v] by (simp add: unat_addrs)
  from assms [unfolded span_nat_iff [OF this]] show ?thesis by (simp add: unat_addrs word_le_nat_alt)
qed

lemma marked_entries:
  assumes "window_wf a s" "marked s N s'"
  shows "load32 (mem s') (pte_addr v) = load32 (mem s) (pte_addr v)"
    and "load32 (mem s') (pde_addr v) = load32 (mem s) (pde_addr v)"
  using marked_fields(7) [OF assms(2)] window_not_bitmap [OF assms(1)] window_entries
  unfolding self_map by (auto intro!: load32_cong)

definition entry_flags :: u32 where
  "entry_flags = P_PRESENT OR P_WRITE OR P_USER"

lemma map_page_existing:
  assumes "window_wf a s" "p mod 4096 = 0" "v mod 4096 = 0" "load32 (mem s) (pde_addr v) \<noteq> 0"
  shows "map_page a p v s =
    (if load32 (mem s) (pte_addr v) \<noteq> 0 then Some (0, s)
     else Some (v, s\<lparr>mem := store32 (mem s) (pte_addr v) (p OR entry_flags)\<rparr>))"
  using assms
  by (simp add: map_page_def window_wf_def page_entry_eqs entry_flags_def or.assoc)

lemma map_page_unaligned:
  assumes "window_wf a s" "p mod 4096 \<noteq> 0 \<or> v mod 4096 \<noteq> 0"
  shows "map_page a p v s = Some (0, s)"
  using assms by (auto simp: map_page_def window_wf_def)

definition fresh_table :: "bytes \<Rightarrow> u32 \<Rightarrow> u32 \<Rightarrow> bytes" where
  "fresh_table m v t =
     memset (store32 m (pde_addr v) (t OR P_PRESENT OR P_WRITE)) (table_addr v) 0 4096"

lemma fresh_table_entry:
  assumes "unat v div 4194304 = unat w div 4194304"
  shows "load32 (fresh_table m v t) (pte_addr w) = 0"
  by (rule load32_zeroed) (simp add: fresh_table_def pte_in_table [OF assms])

lemma map_page_fresh:
  assumes "window_wf a s" "p mod 4096 = 0" "v mod 4096 = 0" "load32 (mem s) (pde_addr v) = 0"
    and al: "alloc_pages 1 ZONE_NORMAL s = Some (t, s1)" "t \<noteq> 0"
  shows "map_page a p v s =
    Some (v, s1\<lparr>mem := store32 (fresh_table (mem s1) v t) (pte_addr v) (p OR entry_flags)\<rparr>)"
  using assms fresh_table_entry [of v v "mem s1" t]
  by (simp add: map_page_def window_wf_def page_entry_eqs window_of_table entry_flags_def fresh_table_def or.assoc)

section \<open>Translation after mapping and unmapping\<close>

lemma PE_MASK_FLAGS_entry:
  assumes "p mod 4096 = 0"
  shows "PE_MASK_FLAGS (p OR entry_flags) = p" "(p OR entry_flags) AND P_PRESENT \<noteq> 0"
proof -
  have low: "\<not> bit p n" if "n < 12" for n
  proof -
    have "take_bit 12 p = 0" using assms by (simp add: take_bit_eq_mod)
    then have "\<not> bit (take_bit 12 p) n" by simp
    with that show ?thesis by (simp add: bit_simps)
  qed
  have f: "entry_flags = mask 3" by (simp add: entry_flags_def flag_defs mask_eq_exp_minus_1)
  show "PE_MASK_FLAGS (p OR entry_flags) = p"
    unfolding PE_MASK_FLAGS_def f
    by (rule bit_word_eqI) (use low in \<open>fastforce simp: bit_simps not_less\<close>)
  have "bit ((p OR entry_flags) AND P_PRESENT) 0" by (simp add: f flag_defs bit_simps)
  then show "(p OR entry_flags) AND P_PRESENT \<noteq> 0" by (intro notI) simp
qed

lemma fresh_directory: "v < 0xFFC00000 \<Longrightarrow>
    load32 (fresh_table m v t) (pde_addr v) = t OR P_PRESENT OR P_WRITE"
  using directory_apart_table [of v v] by (simp add: fresh_table_def mem_frame)

lemma fresh_present: "(t OR P_PRESENT OR P_WRITE) AND P_PRESENT \<noteq> 0"
proof -
  have "bit ((t OR P_PRESENT OR P_WRITE) AND P_PRESENT) 0" by (simp add: flag_defs bit_simps)
  then show ?thesis by (intro notI) simp
qed

lemma fresh_other:
  assumes "v < 0xFFC00000" "unat v div 4194304 \<noteq> unat w div 4194304" "w < 0xFFC00000"
  shows "load32 (fresh_table m v t) (pte_addr w) = load32 m (pte_addr w)"
    and "load32 (fresh_table m v t) (pde_addr w) = load32 m (pde_addr w)"
  using tables_apart [OF assms(2)] directory_apart_table [OF assms(1)] directories_apart [OF assms(2)]
    directory_apart [OF assms(3), of v]
  by (simp_all add: fresh_table_def mem_frame)

text \<open>Whether a page table covers the address, or one can be allocated for it.\<close>

definition table_available :: "'a paging_scheme \<Rightarrow> u32 \<Rightarrow> bool" where
  "table_available s v \<longleftrightarrow>
     load32 (mem s) (pde_addr v) AND P_PRESENT \<noteq> 0
     \<or> load32 (mem s) (pde_addr v) = 0 \<and> \<not> no_fit s (search_range ZONE_NORMAL s) 1"

lemma page_of_offset:
  assumes "(v :: u32) mod 4096 = 0" "off < 4096"
  shows "unat (v + off) div 4096 = unat v div 4096" "unat (v + off) div 4194304 = unat v div 4194304"
    "(v + off) AND 0xFFF = off"
proof -
  have m: "unat v mod 4096 = 0"
    using arg_cong [OF assms(1), of unat] by (simp add: unat_mod)
  then obtain k where k: "unat v = 4096 * k" by (auto simp: mod_eq_0_iff_dvd elim: dvdE)
  have o: "unat off < 4096" using assms(2) by (simp add: word_less_nat_alt)
  have "k < 1048576" using k unat_less_2p32 [of v] by simp
  then have s: "unat (v + off) = 4096 * k + unat off"
    using unat_plus_small [of v off] k o by simp
  show "unat (v + off) div 4096 = unat v div 4096" using o unfolding s k by simp
  then show "unat (v + off) div 4194304 = unat v div 4194304"
    using div_mult2_eq [of _ 4096 1024] by simp
  have "(0xFFF :: u32) = mask 12" by (simp add: mask_eq_exp_minus_1)
  then have "(v + off) AND 0xFFF = take_bit 12 (v + off)" by (simp add: take_bit_eq_mask)
  also have "\<dots> = off"
    using o by (simp add: word_unat_eq_iff unsigned_take_bit_eq take_bit_eq_mod [where ?'a = nat] s)
  finally show "(v + off) AND 0xFFF = off" .
qed

lemma entry_cong:
  "unat v div 4096 = unat w div 4096 \<Longrightarrow> pte_addr v = pte_addr w"
  "unat v div 4194304 = unat w div 4194304 \<Longrightarrow> pde_addr v = pde_addr w"
  by (simp_all add: word_unat_eq_iff unat_addrs)

lemma translate_entry:
  assumes "load32 m (pde_addr v) AND P_PRESENT \<noteq> 0" "p mod 4096 = 0" "v mod 4096 = 0" "off < 4096"
    "v < 0xFFC00000"
  shows "translate (store32 m (pte_addr v) (p OR entry_flags)) (v + off) = Some (p + off)"
proof -
  note o = page_of_offset [OF assms(3,4)]
  have "load32 (store32 m (pte_addr v) e) (pde_addr v) = load32 m (pde_addr v)" for e
    using directory_apart [OF assms(5), of v] by (simp add: mem_frame apart_sym)
  then show ?thesis
    using assms(1) PE_MASK_FLAGS_entry [OF assms(2)] o(3)
    by (simp add: translate_def Let_def entry_cong(1) [OF o(1)] entry_cong(2) [OF o(2)])
qed

lemma translate_other_entry:
  "w < 0xFFC00000 \<Longrightarrow> v < 0xFFC00000 \<Longrightarrow> unat v div 4096 \<noteq> unat w div 4096 \<Longrightarrow>
    translate (store32 m (pte_addr v) e) w = translate m w"
  using entries_apart [of w v] directory_apart [of v w]
  by (simp add: translate_def mem_frame apart_sym)

lemma translate_fresh_other:
  assumes "v < 0xFFC00000" "w < 0xFFC00000" "load32 m (pde_addr v) = 0"
  shows "translate (fresh_table m v t) w = translate m w"
proof (cases "unat v div 4194304 = unat w div 4194304")
  case True
  then have "load32 m (pde_addr w) = 0" using assms(3) entry_cong(2) by metis
  then show ?thesis using fresh_table_entry [OF True] by (simp add: translate_def)
next
  case False
  then show ?thesis using fresh_other [OF assms(1) False assms(2)] by (simp add: translate_def)
qed

lemma translate_marked:
  "window_wf a s \<Longrightarrow> marked s N s' \<Longrightarrow> translate (mem s') w = translate (mem s) w"
  by (simp add: translate_def marked_entries)

lemma window_stores:
  assumes "window_wf a s" "x \<in> bitmap_bytes (k_page_bitmap s)" "v < 0xFFC00000"
  shows "store32 m (pte_addr w) e x = m x" and "fresh_table m v t x = m x"
proof -
  have x: "\<not> x \<ge> 0xFFC00000" using window_not_bitmap assms(1,2) by blast
  then show "store32 m (pte_addr w) e x = m x" for w m e
    using window_entries by (auto intro: store32_outside)
  have b: "unat (table_addr v) + 4096 \<le> 4294967296" using page_bounds [of v] by (simp add: unat_addrs)
  have "x \<notin> span (table_addr v) 4096"
    using x unfolding span_nat_iff [OF b] by (simp add: unat_addrs word_le_nat_alt)
  moreover have "x \<notin> span (pde_addr v) 4" using x window_entries unfolding self_map by blast
  ultimately show "fresh_table m v t x = m x" by (simp add: fresh_table_def store32_outside)
qed

lemma map_page_effect:
  assumes "alloc_wf s" "window_wf a s" "p mod 4096 = 0" "v mod 4096 = 0" "v < 0xFFC00000"
    and "table_available s v"
  shows "if load32 (mem s) (pde_addr v) \<noteq> 0 \<and> load32 (mem s) (pte_addr v) \<noteq> 0
    then map_page a p v s = Some (0, s)
    else \<exists>s'. map_page a p v s = Some (v, s') \<and> alloc_wf s' \<and> window_wf a s'
      \<and> used_pages s \<subseteq> used_pages s'
      \<and> (\<forall>off < 4096. translate (mem s') (v + off) = Some (p + off))
      \<and> (\<forall>w < 0xFFC00000. unat w div 4096 \<noteq> unat v div 4096 \<longrightarrow>
           translate (mem s') w = translate (mem s) w)"
proof (cases "load32 (mem s) (pde_addr v) = 0")
  case False
  let ?m = "store32 (mem s) (pte_addr v) (p OR entry_flags)"
  have pr: "load32 (mem s) (pde_addr v) AND P_PRESENT \<noteq> 0"
    using assms(6) False by (simp add: table_available_def)
  have zwf: "zones_wf s" using assms(1) by (simp add: alloc_wf_def counts_wf_def)
  have out: "?m x = mem s x" if "x \<in> bitmap_bytes (k_page_bitmap s)" for x
    using window_stores(1) [OF assms(2) that assms(5)] .
  have "alloc_wf (s\<lparr>mem := ?m\<rparr>)" "used_pages (s\<lparr>mem := ?m\<rparr>) = used_pages s"
    using alloc_wf_mem [OF assms(1) out] used_pages_mem [OF zwf out] by simp_all
  moreover have "window_wf a (s\<lparr>mem := ?m\<rparr>)" using assms(2) by (simp add: window_wf_def)
  ultimately show ?thesis
    using False map_page_existing [OF assms(2-4) False] translate_entry [OF pr assms(3,4) _ assms(5)]
      translate_other_entry [OF _ assms(5)] by auto
next
  case True
  have zwf: "zones_wf s" using assms(1) by (simp add: alloc_wf_def counts_wf_def)
  have "\<not> no_fit s (search_range ZONE_NORMAL s) 1" using assms(6) True by (simp add: table_available_def)
  then obtain c s1 where al: "alloc_pages 1 ZONE_NORMAL s = Some (c * 4096, s1\<lparr>free_pages := free_pages s - 1\<rparr>)"
    and mk: "marked s (page_range c (c + 1)) s1" and ff: "is_first_fit s (search_range ZONE_NORMAL s) c 1"
    using alloc_pages_cases [OF zwf, of 1 ZONE_NORMAL] by auto
  let ?s1 = "s1\<lparr>free_pages := free_pages s - 1\<rparr>"
  let ?m1 = "fresh_table (mem s1) v (c * 4096)"
  let ?m = "store32 ?m1 (pte_addr v) (p OR entry_flags)"
  have ne: "c * 4096 \<noteq> 0" using first_fit_pages(4) [OF assms(1) _ ff] by simp
  note mp = map_page_fresh [OF assms(2-4) True al ne]
  have w1: "window_wf a ?s1" using assms(2) mk by (auto simp: window_wf_def marked_def)
  have wf1: "alloc_wf ?s1" using alloc_wf_alloc_pages [OF assms(1) al] .
  then have zwf1: "zones_wf ?s1" by (simp add: alloc_wf_def counts_wf_def)
  have out: "?m x = mem ?s1 x" if "x \<in> bitmap_bytes (k_page_bitmap ?s1)" for x
    using window_stores [OF w1 that assms(5)] by simp
  have "alloc_wf (?s1\<lparr>mem := ?m\<rparr>)" using out by (intro alloc_wf_mem [OF wf1])
  moreover have "used_pages s \<subseteq> used_pages (?s1\<lparr>mem := ?m\<rparr>)"
  proof -
    have "used_pages (?s1\<lparr>mem := ?m\<rparr>) = used_pages ?s1" using out by (intro used_pages_mem [OF zwf1])
    moreover have "used_pages s \<subseteq> used_pages ?s1"
      using marked_fields [OF mk] by (auto simp: used_pages_def page_used_def)
    ultimately show ?thesis by simp
  qed
  moreover have "window_wf a (?s1\<lparr>mem := ?m\<rparr>)" using w1 by (simp add: window_wf_def)
  moreover have "load32 ?m1 (pde_addr v) AND P_PRESENT \<noteq> 0"
    using fresh_directory [OF assms(5)] fresh_present by simp
  note translate_entry [OF this assms(3,4) _ assms(5)]
  moreover have "translate ?m w = translate (mem s) w"
    if "w < 0xFFC00000" "unat w div 4096 \<noteq> unat v div 4096" for w
    using that translate_other_entry [OF that(1) assms(5)] translate_fresh_other [OF assms(5) that(1)]
      translate_marked [OF assms(2) mk] marked_entries(2) [OF assms(2) mk] True by simp
  ultimately show ?thesis using True mp by simp
qed

lemma entries_frame:
  assumes "window_wf a s" "\<And>x. x \<notin> bitmap_bytes (k_page_bitmap s) \<Longrightarrow> m x = mem s x"
  shows "load32 m (pte_addr v) = load32 (mem s) (pte_addr v)"
    and "load32 m (pde_addr v) = load32 (mem s) (pde_addr v)"
    and "translate m v = translate (mem s) v"
proof -
  show "load32 m (pte_addr v) = load32 (mem s) (pte_addr v)" for v
    using window_not_bitmap [OF assms(1) window_entries] assms(2) by (auto intro: load32_cong)
  from this [of v] this [of "table_addr v"]
  show "load32 m (pde_addr v) = load32 (mem s) (pde_addr v)" "translate m v = translate (mem s) v"
    by (simp_all add: self_map translate_def)
qed

text \<open>C10: \<^verbatim>\<open>__map_page\<close> on an aligned page below the window, when its table is present or a frame
  for one can be had: a mapped page is refused and nothing changes; any other page afterwards translates
  to the frame, every other address translates as before, and the allocator's invariant is kept.\<close>

theorem map_page_translates:
  assumes "alloc_wf s" "window_wf a s" "p mod 4096 = 0" "v mod 4096 = 0" "v < 0xFFC00000"
    and "table_available s v"
  shows "if load32 (mem s) (pde_addr v) \<noteq> 0 \<and> load32 (mem s) (pte_addr v) \<noteq> 0
    then map_page a p v s = Some (0, s)
    else \<exists>s'. map_page a p v s = Some (v, s') \<and> alloc_wf s' \<and> window_wf a s'
      \<and> (\<forall>off < 4096. translate (mem s') (v + off) = Some (p + off))
      \<and> (\<forall>w < 0xFFC00000. unat w div 4096 \<noteq> unat v div 4096 \<longrightarrow>
           translate (mem s') w = translate (mem s) w)"
  using map_page_effect [OF assms] by (auto split: if_splits)

lemma unmap_translate:
  assumes "pd a = 0xFFC00000" "v < 0xFFC00000" "w < 0xFFC00000"
  shows "translate (unmap_page a v m) w =
    (if v \<noteq> 0 \<and> unat w div 4096 = unat v div 4096 then None else translate m w)"
proof (cases "v = 0")
  case False
  have "bit (load32 m (pte_addr v) OR P_PRESENT) 0" by (simp add: flag_defs bit_simps)
  then have "load32 m (pte_addr v) OR P_PRESENT \<noteq> 0" by (intro notI) simp
  then have u: "unmap_page a v m = store32 m (pte_addr v) 0"
    using False by (simp add: unmap_page_def page_entry_eqs [OF assms(1)])
  show ?thesis
  proof (cases "unat w div 4096 = unat v div 4096")
    case True
    then show ?thesis using False by (simp add: u translate_def entry_cong(1) [OF True])
  qed (use translate_other_entry [OF assms(3,2)] False u in auto)
qed (simp add: unmap_page_def)

text \<open>\<^verbatim>\<open>__unmap_page\<close> leaves the page of its address without a translation and every
  other translation as it was; on the page at address 0 it does nothing.\<close>

theorem unmap_page_translates:
  assumes "pd a = 0xFFC00000" "v < 0xFFC00000" "w < 0xFFC00000"
  shows "translate (unmap_page a v m) w =
    (if v \<noteq> 0 \<and> unat w div 4096 = unat v div 4096 then None else translate m w)"
  by (rule unmap_translate [OF assms])

end
