(* ===== verification/Page_Init.thy ===== *)
theory Page_Init
  imports Page_Map
begin

text \<open>
  The start of the page frame allocator, \<^verbatim>\<open>init_page_allocator\<close> of \<^verbatim>\<open>cpu/page.c\<close>, and the
  contract of \<^verbatim>\<open>alloc_pages\<close>. The bitmap starts empty; the three reservations (kernel image, bitmap,
  first megabyte) are disjoint sets of pages when the kernel is loaded at or above one megabyte, so each
  page is counted once and the invariant \<open>alloc_wf\<close> holds at the end.
\<close>

section \<open>The contract of \<^verbatim>\<open>alloc_pages\<close>\<close>

text \<open>C8: \<^verbatim>\<open>alloc_pages\<close> of \<open>pages > 0\<close> frames always returns and keeps the allocator's invariant. It
  searches the first zone that matches the flags, from its base page up to but not including its end
  page (and never beyond memory), although \<^verbatim>\<open>__get_zone\<close> counts the end page to the zone. It answers
  \<^verbatim>\<open>NULL\<close>, with nothing changed, exactly when no run of that many free pages lies in that
  range; else it hands out the lowest such run, which was free and is marked used now, which does not
  contain the end page, no other page changes, and memory outside the bitmap is left alone.\<close>

theorem alloc_pages_first_fit:
  assumes "alloc_wf s" "pages \<noteq> 0"
  shows "\<exists>p s'. alloc_pages pages flags s = Some (p, s') \<and> alloc_wf s'
    \<and> (if p = 0 then s' = s \<and> no_fit s (search_range flags s) pages
       else is_first_fit s (search_range flags s) (drop_bit 12 p) pages \<and> p mod 4096 = 0
         \<and> used_pages s' = page_range (drop_bit 12 p) (drop_bit 12 p + pages) \<union> used_pages s
         \<and> page_range (drop_bit 12 p) (drop_bit 12 p + pages) \<inter> used_pages s = {}
         \<and> snd (zone_bounds flags (zones s)) \<notin> page_range (drop_bit 12 p) (drop_bit 12 p + pages)
         \<and> free_pages s' = free_pages s - pages
         \<and> (\<forall>x. x \<notin> bitmap_bytes (k_page_bitmap s) \<longrightarrow> mem s' x = mem s x))"
proof -
  have "zones_wf s" using assms(1) by (simp add: alloc_wf_def counts_wf_def)
  from alloc_pages_cases [OF this assms(2), of flags] show ?thesis
  proof (elim disjE exE conjE)
    assume "alloc_pages pages flags s = Some (0, s)" "no_fit s (search_range flags s) pages"
    then show ?thesis using assms(1) by simp
  next
    fix c s1
    assume al: "alloc_pages pages flags s = Some (c * 4096, s1\<lparr>free_pages := free_pages s - pages\<rparr>)"
      and m: "marked s (page_range c (c + pages)) s1" and ff: "is_first_fit s (search_range flags s) c pages"
    note fp = first_fit_pages [OF assms ff]
    have "c * 4096 mod 4096 = 0"
    proof -
      have "unat (c * 4096) = unat c * 4096" using fp(2) by (simp add: unat_word_ariths)
      then have "unat (c * 4096 mod 4096) = 0" by (simp add: unat_mod)
      then show ?thesis by (simp add: unat_eq_0)
    qed
    moreover have "unat c + unat pages \<le> unat (snd (zone_bounds flags (zones s)))"
      using ff by (simp add: is_first_fit_def search_range_def split: prod.splits)
    then have "c + pages \<le> snd (zone_bounds flags (zones s))"
      by (simp add: word_le_nat_alt unat_word_ariths)
    then have "snd (zone_bounds flags (zones s)) \<notin> page_range c (c + pages)" by (simp add: page_range_def not_less)
    ultimately show ?thesis
      using al alloc_wf_alloc_pages [OF assms(1) al] ff fp used_pages_marked [OF m fp(6)] marked_fields(7) [OF m]
      by (simp add: unmarked_fields)
  qed
qed

text \<open>\<^verbatim>\<open>alloc_pages\<close> of no frames answers \<^verbatim>\<open>NULL\<close> and changes nothing.\<close>

theorem alloc_pages_none: "alloc_pages 0 flags s = Some (0, s)"
  by (simp add: alloc_pages_def)

section \<open>\<^verbatim>\<open>init_page_allocator\<close>\<close>

definition bitmap_frames :: "u32 \<Rightarrow> u32" where
  "bitmap_frames limit = (if limit div 8 mod 4096 \<noteq> 0 then limit div 8 div 4096 + 1 else limit div 8 div 4096)"

text \<open>The frame that the kernel's page table entry for an address names.\<close>

definition frame_of :: "'a paging_scheme \<Rightarrow> u32 \<Rightarrow> u32" where
  "frame_of s v = drop_bit 12 (load32 (mem s) (pte_addr v))"

text \<open>The state \<^verbatim>\<open>init_paging\<close> calls it in: zones and counters fresh, the window and the kernel apart.\<close>

definition fresh_paging :: "'a paging_scheme \<Rightarrow> bool" where
  "fresh_paging s \<longleftrightarrow> page_size s = 4096 \<and> kb_installed s div 4 = total_pages s
     \<and> unat (num_zones s) \<le> length (page_zones s) \<and> distinct (map allocation_flag (zones s))
     \<and> (\<forall>n < total_pages s. get_zone_loop n (zones s) \<noteq> None)
     \<and> (\<forall>z \<in> set (zones s). usedpages z = 0)
     \<and> 256 \<le> total_pages s \<and> 0 < total_pages s \<and> total_pages s \<le> 0x100000 \<and> free_pages s = total_pages s
     \<and> pd (k_addrspc s) = 0xFFC00000
     \<and> unat (kernel_end s) + (unat (total_pages s) + 7) div 8 \<le> 0xFFC00000"

lemma PE_MASK_page:
  "PE_MASK_FLAGS w = drop_bit 12 w * 4096" "PE_MASK_FLAGS w div 4096 = drop_bit 12 w"
  "unat (drop_bit 12 w) < 0x100000" "unat (drop_bit 12 w * 4096) = unat (drop_bit 12 w) * 4096"
proof -
  show lt: "unat (drop_bit 12 w) < 0x100000" using page_bounds(1) [of w] by (simp add: unat_page)
  then show u: "unat (drop_bit 12 w * 4096) = unat (drop_bit 12 w) * 4096" by (simp add: unat_word_ariths)
  show e: "PE_MASK_FLAGS w = drop_bit 12 w * 4096"
    by (simp add: PE_MASK_FLAGS_def push_bit_eq_mult)
  have "unat (PE_MASK_FLAGS w div 4096) = unat (drop_bit 12 w)" unfolding e by (simp add: unat_div u)
  then show "PE_MASK_FLAGS w div 4096 = drop_bit 12 w" by (rule unsigned_word_eqI)
qed

lemma kernel_pages:
  assumes "a \<le> e" "unat e < 0x100000"
  shows "(e * 4096 - a * 4096) div 4096 = (e - a :: u32)"
proof -
  have le: "unat a \<le> unat e" using assms(1) by (simp add: word_le_nat_alt)
  have u: "unat (e * 4096) = unat e * 4096" "unat (a * 4096) = unat a * 4096"
    using assms(2) le by (simp_all add: unat_word_ariths)
  have "unat (e * 4096 - a * 4096) = (unat e - unat a) * 4096"
    using le by (simp add: unat_minus_cases u diff_mult_distrib)
  then have "unat ((e * 4096 - a * 4096) div 4096) = unat (e - a)"
    using le by (simp add: unat_div unat_minus_cases)
  then show ?thesis by (rule unsigned_word_eqI)
qed

lemma range_sum: "unat (a :: u32) + unat n \<le> unat (t :: u32) \<Longrightarrow> unat (a + n) = unat a + unat n"
  using unat_less_2p32 [of t] unat_plus_small [of a n] by linarith

text \<open>Marking pages changes the bitmap, the zones' counters and the free count only.\<close>

definition frames_only :: "'a paging_scheme \<Rightarrow> 'a paging_scheme \<Rightarrow> bool" where
  "frames_only s s' \<longleftrightarrow> (\<exists>m zs f. s' = s\<lparr>mem := m, page_zones := zs, free_pages := f\<rparr>)"

lemma frames_only_trans: "frames_only s s1 \<Longrightarrow> frames_only s1 s2 \<Longrightarrow> frames_only s s2"
  unfolding frames_only_def by (elim exE, hypsubst) (rule exI, rule exI, rule exI, simp)

lemma frames_only_fields:
  assumes "frames_only s s'"
  shows "k_page_bitmap s' = k_page_bitmap s" "total_pages s' = total_pages s" "page_size s' = page_size s"
    "kernel_end s' = kernel_end s" "k_addrspc s' = k_addrspc s" "brk_max s' = brk_max s"
  using assms by (auto simp: frames_only_def)

definition allocator_only :: "'a paging_scheme \<Rightarrow> 'a paging_scheme \<Rightarrow> bool" where
  "allocator_only s s' \<longleftrightarrow>
     (\<exists>m zs f k b. s' = s\<lparr>mem := m, page_zones := zs, free_pages := f, kernel_end := k, k_page_bitmap := b\<rparr>)"

text \<open>One reservation: a free range of managed pages is marked and counted.\<close>

lemma reserve:
  assumes wf: "counts_wf s" and fit: "unat c + unat n \<le> unat (total_pages s)"
    and free: "page_range c (c + n) \<inter> used_pages s = {}"
  shows "\<exists>s'. mark_pages_used c n s = Some s' \<and> counts_wf s'
    \<and> used_pages s' = page_range c (c + n) \<union> used_pages s
    \<and> (\<forall>x. x \<notin> bitmap_bytes (k_page_bitmap s) \<longrightarrow> mem s' x = mem s x)
    \<and> frames_only s s'"
proof -
  have zwf: "zones_wf s" using wf by (simp add: counts_wf_def)
  from mark_pages_used_marked [OF zwf fit] obtain s1 where
    r: "mark_pages_used c n s = Some (s1\<lparr>free_pages := free_pages s - n\<rparr>)"
    and m: "marked s (page_range c (c + n)) s1" by blast
  have sub: "page_range c (c + n) \<subseteq> {k. k < total_pages s}"
    using fit range_sum [OF fit] by (auto simp: page_range_def word_less_nat_alt)
  have "card (page_range c (c + n)) = unat n" by (simp add: card_page_range range_sum [OF fit])
  then have "counts_wf (s1\<lparr>free_pages := free_pages s - n\<rparr>)"
    using counts_wf_marked [OF wf m sub free] by simp
  moreover have "frames_only s (s1\<lparr>free_pages := free_pages s - n\<rparr>)"
    using m by (auto simp: marked_def frames_only_def)
  ultimately show ?thesis
    using r used_pages_marked [OF m sub] marked_fields [OF m] by (simp add: unmarked_fields)
qed

lemma empty_counts:
  assumes "fresh_paging s" "k_page_bitmap s = b" "bm_limit b = total_pages s"
  shows "counts_wf (s\<lparr>mem := bitmap_init b (mem s)\<rparr>)" "used_pages (s\<lparr>mem := bitmap_init b (mem s)\<rparr>) = {}"
proof -
  let ?s = "s\<lparr>mem := bitmap_init b (mem s)\<rparr>"
  have "\<not> page_used ?s n" if "n < total_pages s" for n
  proof -
    have "bm_base b + n div 8 \<in> bitmap_bytes b" using that assms(3) by (intro bit_byte_in_bitmap) simp
    then show ?thesis using assms(2) by (simp add: page_used_def bit_at_def bitmap_init_bytes)
  qed
  then show u: "used_pages ?s = {}" by (auto simp: used_pages_def)
  have "zones ?s = zones s" by (simp add: zones_def)
  then show "counts_wf ?s"
    using assms unfolding counts_wf_def u
    by (auto simp: fresh_paging_def zones_wf_def zone_count_def word_gt_0)
qed

lemma init_page_allocator_effect:
  assumes fr: "fresh_paging s" and bp: "bp = bitmap_frames (total_pages s)"
    and a: "a = frame_of s (kernel_start s)" "256 \<le> a" and e: "e = frame_of s (kernel_end s)" "a \<le> e"
    and fit: "unat e + unat bp \<le> unat (total_pages s)"
  shows "\<exists>s'. init_page_allocator s = Some s' \<and> alloc_wf s'
    \<and> used_pages s' = page_range 0 256 \<union> page_range a (e + bp)
    \<and> k_page_bitmap s' = \<lparr>bm_base = kernel_end s, bm_limit = total_pages s\<rparr>
    \<and> kernel_end s' = kernel_end s + bp * 4096
    \<and> (\<forall>x. x \<notin> bitmap_bytes (k_page_bitmap s') \<longrightarrow> mem s' x = mem s x)
    \<and> total_pages s' = total_pages s \<and> page_size s' = page_size s \<and> k_addrspc s' = k_addrspc s
    \<and> brk_max s' = brk_max s
    \<and> allocator_only s s'"
proof -
  define b where "b = \<lparr>bm_base = kernel_end s, bm_limit = total_pages s\<rparr>"
  define s0 where "s0 = s\<lparr>k_page_bitmap := b\<rparr>"
  define s1 where "s1 = s0\<lparr>mem := bitmap_init b (mem s0)\<rparr>"
  have fr0: "fresh_paging s0" using fr by (simp add: s0_def fresh_paging_def zones_def)
  have s0: "k_page_bitmap s0 = b" "bm_limit b = total_pages s0" by (simp_all add: s0_def b_def)
  note ec = empty_counts [OF fr0 s0, folded s1_def]
  have tot: "total_pages s1 = total_pages s" "unat (total_pages s) \<le> 0x100000" "256 \<le> unat (total_pages s)"
    using fr by (simp_all add: s1_def s0_def fresh_paging_def word_le_nat_alt)
  have ww: "window_wf (k_addrspc s) s0"
    using fr by (simp add: window_wf_def fresh_paging_def s0_def b_def)
  have out: "mem s1 x = mem s0 x" if "x \<notin> bitmap_bytes (k_page_bitmap s0)" for x
    using that by (simp add: s1_def s0 bitmap_init_bytes)
  have pte: "load32 (mem s1) (pte_addr v) = load32 (mem s) (pte_addr v)" for v
    using entries_frame(1) [OF ww out, of v] by (simp add: s0_def)
  have an: "256 \<le> unat a" "unat a \<le> unat e" using a(2) e(2) by (simp_all add: word_le_nat_alt)
  have e20: "unat e < 0x100000" using PE_MASK_page(3) e(1) by (simp add: frame_of_def)
  have kp: "unat a + unat (e - a) \<le> unat (total_pages s1)" "a + (e - a) = e"
    using an fit by (simp_all add: tot unat_minus_cases)
  have eb: "unat (e + bp) = unat e + unat bp" using range_sum [OF fit] .
  have r1: "page_range a (a + (e - a)) \<inter> used_pages s1 = {}" by (simp add: ec)
  from reserve [OF ec(1) kp(1) r1] obtain s2 where
    s2: "mark_pages_used a (e - a) s1 = Some s2" "counts_wf s2" "used_pages s2 = page_range a e"
      "\<And>x. x \<notin> bitmap_bytes b \<Longrightarrow> mem s2 x = mem s1 x" and f2: "frames_only s1 s2"
    by (auto simp: ec kp) (auto simp: s1_def s0_def)
  note c2 = frames_only_fields [OF f2]
  have b1: "k_page_bitmap s1 = b" "kernel_end s1 = kernel_end s" "page_size s1 = 4096"
    using fr by (simp_all add: s1_def s0_def fresh_paging_def)
  have "page_range e (e + bp) \<inter> used_pages s2 = {}" by (auto simp: s2 page_range_def)
  from reserve [OF s2(2) _ this] fit obtain s3 where
    s3: "mark_pages_used e bp s2 = Some s3" "counts_wf s3" "used_pages s3 = page_range e (e + bp) \<union> page_range a e"
      "\<And>x. x \<notin> bitmap_bytes b \<Longrightarrow> mem s3 x = mem s2 x" and f3: "frames_only s2 s3"
    by (auto simp: s2 c2 b1 tot)
  note c3 = frames_only_fields [OF f3]
  have u3: "used_pages s3 = page_range a (e + bp)"
    using an eb by (auto simp: s3 page_range_def word_le_nat_alt word_less_nat_alt)
  have "page_range 0 (0 + 256) \<inter> used_pages s3 = {}"
    using an by (auto simp: u3 page_range_def word_le_nat_alt word_less_nat_alt)
  from reserve [OF s3(2) _ this] tot obtain s4 where
    s4: "mark_pages_used 0 256 s3 = Some s4" "counts_wf s4" "used_pages s4 = page_range 0 256 \<union> used_pages s3"
      "\<And>x. x \<notin> bitmap_bytes b \<Longrightarrow> mem s4 x = mem s3 x" and f4: "frames_only s3 s4"
    by (auto simp: s3 c3 c2 b1 tot)
  have f14: "frames_only s1 s4" using frames_only_trans [OF frames_only_trans [OF f2 f3] f4] .
  note c4 = frames_only_fields [OF f14]
  have "0 \<in> used_pages s4" by (simp add: s4 page_range_def)
  then have "alloc_wf s4" using s4(2) by (simp add: alloc_wf_def used_pages_def)
  let ?s = "s4\<lparr>kernel_end := kernel_end s4 + bp * 4096\<rparr>"
  have "alloc_wf ?s" using \<open>alloc_wf s4\<close>
    by (simp add: alloc_wf_def counts_wf_def zones_wf_def zones_def page_used_def used_pages_def)
  moreover have "used_pages ?s = used_pages s4" by (simp add: used_pages_def page_used_def)
  moreover have "init_page_allocator s = Some ?s"
  proof -
    have lim: "kb_installed s div 4 = total_pages s" "page_size s = 4096" using fr by (simp_all add: fresh_paging_def)
    have m1: "mem s1 = bitmap_init b (mem s)" "s0\<lparr>mem := bitmap_init b (mem s)\<rparr> = s1" "bm_limit b = total_pages s"
      by (simp_all add: s1_def s0_def b_def)
    have ks: "PE_MASK_FLAGS (get_page_table_entry (k_addrspc s) (kernel_start s) (bitmap_init b (mem s))) = a * 4096"
      "PE_MASK_FLAGS (get_page_table_entry (k_addrspc s) (kernel_end s) (bitmap_init b (mem s))) = e * 4096"
      using fr a(1) e(1)
      by (simp_all add: PE_MASK_page(1) frame_of_def page_entry_eqs fresh_paging_def pte flip: m1(1))
    have dv: "a * 4096 div 4096 = a" "e * 4096 div 4096 = e"
      using PE_MASK_page(2) [unfolded PE_MASK_page(1)] a(1) e(1) by (simp_all add: frame_of_def)
    have kk: "(e * 4096 - a * 4096) div 4096 = e - a" by (rule kernel_pages [OF e(2) e20])
    show ?thesis
      using lim ks dv kk s2(1) s3(1) s4(1) c2(3) c4(4) b1 m1
      by (cases "total_pages s div 8 mod 4096 = 0")
        (simp_all add: init_page_allocator_def Let_def b_def [symmetric] s0_def [symmetric] bp bitmap_frames_def)
  qed
  moreover have "mem ?s x = mem s x" if "x \<notin> bitmap_bytes b" for x
    using that s2(4) s3(4) s4(4) out by (simp add: s0) (simp add: s0_def)
  moreover have "k_addrspc ?s = k_addrspc s" "brk_max ?s = brk_max s" "page_size ?s = page_size s"
    "total_pages ?s = total_pages s" using c4 by (simp_all add: s1_def s0_def)
  moreover have "allocator_only s ?s"
  proof -
    obtain m zs f where "s4 = s1\<lparr>mem := m, page_zones := zs, free_pages := f\<rparr>" using f14 by (auto simp: frames_only_def)
    then have "?s = s\<lparr>mem := m, page_zones := zs, free_pages := f, kernel_end := kernel_end s4 + bp * 4096, k_page_bitmap := b\<rparr>"
      by (simp add: s1_def s0_def)
    then show ?thesis unfolding allocator_only_def by blast
  qed
  ultimately show ?thesis using s4(3) c4 b1 by (intro exI [of _ ?s]) (simp add: u3 b_def)
qed

text \<open>\<^verbatim>\<open>init_page_allocator\<close>, for a kernel loaded at or above one megabyte whose image and bitmap
  fit in memory, succeeds and establishes the allocator's invariant. The pages in use are then exactly
  the first megabyte, the kernel image and the bitmap, the end of the kernel has moved past the bitmap,
  and memory outside the bitmap is unchanged.\<close>

theorem init_page_allocator_wf:
  assumes fr: "fresh_paging s" and bp: "bp = bitmap_frames (total_pages s)"
    and a: "a = frame_of s (kernel_start s)" "256 \<le> a" and e: "e = frame_of s (kernel_end s)" "a \<le> e"
    and fit: "unat e + unat bp \<le> unat (total_pages s)"
  shows "\<exists>s'. init_page_allocator s = Some s' \<and> alloc_wf s'
    \<and> used_pages s' = page_range 0 256 \<union> page_range a (e + bp)
    \<and> k_page_bitmap s' = \<lparr>bm_base = kernel_end s, bm_limit = total_pages s\<rparr>
    \<and> kernel_end s' = kernel_end s + bp * 4096
    \<and> (\<forall>x. x \<notin> bitmap_bytes (k_page_bitmap s') \<longrightarrow> mem s' x = mem s x)"
  using init_page_allocator_effect [OF assms] by blast

section \<open>\<^verbatim>\<open>init_paging\<close>\<close>

lemma unat_page_step:
  assumes "cp < ct" "cp mod 4096 = 0" "(ct :: u32) mod 4096 = 0"
  shows "unat (cp + 4096) = unat cp + 4096" "unat cp + 4096 \<le> unat ct" "(cp + 4096) mod 4096 = 0"
proof -
  have m: "unat cp mod 4096 = 0" "unat ct mod 4096 = 0"
    using arg_cong [OF assms(2), of unat] arg_cong [OF assms(3), of unat] by (simp_all add: unat_mod)
  define i j where "i = unat cp div 4096" and "j = unat ct div 4096"
  have ij: "unat cp = 4096 * i" "unat ct = 4096 * j"
    using m mult_div_mod_eq [of 4096 "unat cp"] mult_div_mod_eq [of 4096 "unat ct"] by (simp_all add: i_def j_def)
  moreover have "unat cp < unat ct" using assms(1) by (simp add: word_less_nat_alt)
  ultimately show le: "unat cp + 4096 \<le> unat ct" by simp
  then show u: "unat (cp + 4096) = unat cp + 4096"
    using unat_plus_small [of cp 4096] unat_less_2p32 [of ct] ij by fastforce
  have "unat ((cp + 4096) mod 4096) = 0" using m(1) by (simp add: unat_mod u)
  then show "(cp + 4096) mod 4096 = 0" by (simp add: unat_eq_0)
qed

lemma unmap_loop_effect:
  assumes "pd a = 0xFFC00000" "cp \<le> ct" "cp mod 4096 = 0" "ct mod 4096 = 0" "0 < cp" "ct \<le> 0xFFC00000"
  shows "\<exists>m'. unmap_loop a cp ct 4096 m = Some m'
    \<and> (\<forall>w < 0xFFC00000. translate m' w = (if cp \<le> w \<and> w < ct then None else translate m w))
    \<and> (\<forall>x < 0xFFC00000. m' x = m x)"
  using assms(2,3,5)
proof (induction "unat ct - unat cp" arbitrary: cp m rule: less_induct)
  case less
  show ?case
  proof (cases "cp < ct")
    case False
    then have "ct = cp" using less.prems(1) by simp
    then have "\<not> (cp \<le> w \<and> w < ct)" for w by auto
    then show ?thesis using False by (subst unmap_loop.simps) auto
  next
    case True
    note st = unat_page_step [OF True less.prems(2) assms(4)]
    let ?m = "unmap_page a cp m"
    have lt: "unat ct - unat (cp + 4096) < unat ct - unat cp" using st by simp
    have le: "cp + 4096 \<le> ct" "0 < cp + 4096" using st by (simp_all add: word_le_nat_alt word_less_nat_alt)
    from less.hyps [OF lt le(1) st(3) le(2), of ?m] obtain m' where
      m': "unmap_loop a (cp + 4096) ct 4096 ?m = Some m'"
      "\<And>w. w < 0xFFC00000 \<Longrightarrow> translate m' w = (if cp + 4096 \<le> w \<and> w < ct then None else translate ?m w)"
      "\<And>x. x < 0xFFC00000 \<Longrightarrow> m' x = ?m x" by blast
    have cb: "cp < 0xFFC00000" using True assms(6) by (rule less_le_trans)
    have page: "unat w div 4096 = unat cp div 4096 \<longleftrightarrow> cp \<le> w \<and> \<not> cp + 4096 \<le> w" for w
    proof -
      have "unat cp mod 4096 = 0" using arg_cong [OF less.prems(2), of unat] by (simp add: unat_mod)
      then obtain i where i: "unat cp = 4096 * i"
        using mult_div_mod_eq [of 4096 "unat cp"] by (metis add_0_right)
      show ?thesis unfolding word_le_nat_alt st(1) i by auto
    qed
    have "translate m' w = (if cp \<le> w \<and> w < ct then None else translate m w)" if w: "w < 0xFFC00000" for w
      using unmap_translate [OF assms(1) cb w, of m] m'(2) [OF w] page [of w] less.prems(3) le(1)
        less_le_trans [of w "cp + 4096" ct]
      by (auto simp: not_le intro: le_less_trans dest: leD) (use st in \<open>auto simp: word_le_nat_alt word_less_nat_alt\<close>)
    moreover have "?m x = m x" if "x < 0xFFC00000" for x
    proof -
      have "x \<notin> span (pte_addr cp) 4"
        using that page_bounds [of cp] by (subst span_nat_iff) (auto simp: unat_addrs word_less_nat_alt)
      then show ?thesis by (simp add: unmap_page_def page_entry_eqs [OF assms(1)] store32_outside)
    qed
    ultimately show ?thesis using m' True by (subst unmap_loop.simps) auto
  qed
qed

text \<open>The state in which \<^verbatim>\<open>init_paging\<close> calls the allocator's start, for the 32 MB it assumes.\<close>

definition paging_start :: "'a paging_scheme \<Rightarrow> 'a paging_scheme" where
  "paging_start s = s\<lparr>page_size := 4096, kb_installed := 32768, total_pages := 8192, free_pages := 8192,
     page_zones := [\<lparr>allocation_flag = 1, base_page = 0, end_page = 0xFFF, usedpages = 0\<rparr>,
       \<lparr>allocation_flag = 2, base_page = 0x1000, end_page = 8192, usedpages = 0\<rparr>, page_zones s ! 2],
     num_zones := 2, kernel_start := KERNEL_START s, kernel_end := KERNEL_END s,
     k_addrspc := \<lparr>pd = 0xFFC00000\<rparr>, brk_max := 0xFFBFC000\<rparr>"

lemma paging_start_zones:
  "zones (paging_start s) = [\<lparr>allocation_flag = 1, base_page = 0, end_page = 0xFFF, usedpages = 0\<rparr>,
     \<lparr>allocation_flag = 2, base_page = 0x1000, end_page = 8192, usedpages = 0\<rparr>]"
  by (simp add: zones_def paging_start_def take_Cons')

lemma paging_start_fresh:
  assumes "unat (KERNEL_END s) + 1024 \<le> 0xFFC00000"
  shows "fresh_paging (paging_start s)"
proof -
  have z: "get_zone_loop n (zones (paging_start s)) \<noteq> None" if "n < 8192" for n
    using that unfolding paging_start_zones by (auto simp: word_le_nat_alt word_less_nat_alt)
  have d: "distinct (map allocation_flag (zones (paging_start s)))" "\<forall>z \<in> set (zones (paging_start s)). usedpages z = 0"
    by (simp_all add: paging_start_zones)
  show ?thesis
    using assms z d unfolding fresh_paging_def by (simp add: paging_start_def)
qed

lemma init_paging_unfold:
  "init_paging s = do {
     s \<leftarrow> init_page_allocator (paging_start s);
     m \<leftarrow> unmap_loop (k_addrspc s) (kernel_end s)
       (kernel_end s + (kernel_end s div 0x400000 * 0x400000 + 0x400000 - kernel_end s))
       (ucast (page_size s)) (mem s);
     Some (s\<lparr>mem := m\<rparr>)
   }"
  by (simp add: init_paging_def Let_def paging_start_def K_PAGE_SIZE_def zone_defs VADDR_BASE_def TEMP_RESERVE_def
      push_bit_eq_mult)

lemma table_end:
  assumes "(k :: u32) < 0xFFC00000"
  shows "k \<le> k div 0x400000 * 0x400000 + 0x400000" "k div 0x400000 * 0x400000 + 0x400000 \<le> 0xFFC00000"
    "(k div 0x400000 * 0x400000 + 0x400000) mod 4096 = 0"
proof -
  let ?q = "unat k div 4194304"
  have q: "?q < 1023" using assms by (simp add: word_less_nat_alt less_mult_imp_div_less)
  have u: "unat (k div 0x400000 * 0x400000 + 0x400000) = ?q * 4194304 + 4194304"
    using q by (simp add: unat_word_ariths unat_div)
  have "unat k < ?q * 4194304 + 4194304"
    using div_mult_mod_eq [of "unat k" 4194304] mod_less_divisor [of 4194304 "unat k"] by linarith
  then show "k \<le> k div 0x400000 * 0x400000 + 0x400000" by (simp add: word_le_nat_alt u)
  show "k div 0x400000 * 0x400000 + 0x400000 \<le> 0xFFC00000" using q by (simp add: word_le_nat_alt u)
  have "?q * 4194304 + 4194304 = 4096 * (?q * 1024 + 1024)" by simp
  then have "unat ((k div 0x400000 * 0x400000 + 0x400000) mod 4096) = 0"
    unfolding unat_mod u by simp
  then show "(k div 0x400000 * 0x400000 + 0x400000) mod 4096 = 0" by (simp add: unat_eq_0)
qed

text \<open>What \<^verbatim>\<open>init_paging\<close> changes: its own variables, the bitmap and the page tables in the window.\<close>

definition paging_only :: "'a paging_scheme \<Rightarrow> 'a paging_scheme \<Rightarrow> bool" where
  "paging_only s s' \<longleftrightarrow> (\<exists>m ps kb tp f zs nz ks ke ka bk b. s' = s\<lparr>mem := m, page_size := ps, kb_installed := kb,
     total_pages := tp, free_pages := f, page_zones := zs, num_zones := nz, kernel_start := ks, kernel_end := ke,
     k_addrspc := ka, brk_max := bk, k_page_bitmap := b\<rparr>)"

lemma init_paging_effect:
  assumes "KERNEL_END s mod 4096 = 0" "0 < KERNEL_END s" "KERNEL_END s < 0xFFBFF000"
    and "256 \<le> frame_of s (KERNEL_START s)" "frame_of s (KERNEL_START s) \<le> frame_of s (KERNEL_END s)"
    and "unat (frame_of s (KERNEL_END s)) < 8192"
  shows "\<exists>s'. init_paging s = Some s' \<and> alloc_wf s' \<and> window_wf (k_addrspc s') s'
    \<and> total_pages s' = 8192
    \<and> used_pages s' = page_range 0 256 \<union> page_range (frame_of s (KERNEL_START s)) (frame_of s (KERNEL_END s) + 1)
    \<and> kernel_end s' = KERNEL_END s + 4096 \<and> brk_max s' = 0xFFBFC000
    \<and> (\<forall>w < 0xFFC00000. translate (mem s') w =
         (if kernel_end s' \<le> w \<and> w < kernel_end s' div 0x400000 * 0x400000 + 0x400000 then None
          else translate (mem s) w))
    \<and> page_size s' = 4096 \<and> k_page_bitmap s' = \<lparr>bm_base = KERNEL_END s, bm_limit = 8192\<rparr>
    \<and> (\<forall>x < 0xFFC00000. x \<notin> bitmap_bytes (k_page_bitmap s') \<longrightarrow> mem s' x = mem s x) \<and> paging_only s s'"
proof -
  let ?s = "paging_start s"
  have ke: "unat (KERNEL_END s) < 0xFFBFF000" using assms(3) by (simp add: word_less_nat_alt)
  have fr: "fresh_paging ?s" using ke by (intro paging_start_fresh) simp
  have st: "frame_of ?s v = frame_of s v" "kernel_start ?s = KERNEL_START s" "kernel_end ?s = KERNEL_END s"
    "total_pages ?s = 8192" "mem ?s = mem s" "k_addrspc ?s = \<lparr>pd = 0xFFC00000\<rparr>" "brk_max ?s = 0xFFBFC000"
    "page_size ?s = 4096" for v
    by (simp_all add: frame_of_def paging_start_def)
  have bf: "bitmap_frames 8192 = 1" by (simp add: bitmap_frames_def)
  from init_page_allocator_effect [OF fr refl refl _ refl, unfolded st bf] assms(4-6)
  obtain s1 where s1: "init_page_allocator ?s = Some s1" "alloc_wf s1"
    "used_pages s1 = page_range 0 256 \<union> page_range (frame_of s (KERNEL_START s)) (frame_of s (KERNEL_END s) + 1)"
    "k_page_bitmap s1 = \<lparr>bm_base = KERNEL_END s, bm_limit = 8192\<rparr>" "kernel_end s1 = KERNEL_END s + 4096"
    "\<And>x. x \<notin> bitmap_bytes (k_page_bitmap s1) \<Longrightarrow> mem s1 x = mem s x" "total_pages s1 = 8192"
    "page_size s1 = 4096" "k_addrspc s1 = \<lparr>pd = 0xFFC00000\<rparr>" "brk_max s1 = 0xFFBFC000"
    and only: "allocator_only ?s s1"
    by auto
  have ku: "unat (kernel_end s1) = unat (KERNEL_END s) + 4096"
    using ke unat_plus_small [of "KERNEL_END s" 4096] by (simp add: s1)
  have k: "kernel_end s1 < 0xFFC00000" "0 < kernel_end s1" using ku ke by (simp_all add: word_less_nat_alt)
  have "unat (kernel_end s1 mod 4096) = 0"
    using arg_cong [OF assms(1), of unat] by (simp add: unat_mod ku)
  then have k0: "kernel_end s1 mod 4096 = 0" by (simp add: unat_eq_0)
  note te = table_end [OF k(1)]
  have pd: "pd (k_addrspc s1) = 0xFFC00000" by (simp add: s1)
  from unmap_loop_effect [OF pd te(1) k0 te(3) k(2) te(2), of "mem s1"] obtain m where
    m: "unmap_loop (k_addrspc s1) (kernel_end s1) (kernel_end s1 div 0x400000 * 0x400000 + 0x400000) 4096 (mem s1) = Some m"
    "\<And>w. w < 0xFFC00000 \<Longrightarrow> translate m w = (if kernel_end s1 \<le> w
       \<and> w < kernel_end s1 div 0x400000 * 0x400000 + 0x400000 then None else translate (mem s1) w)"
    "\<And>x. x < 0xFFC00000 \<Longrightarrow> m x = mem s1 x" by blast
  have ww: "window_wf (k_addrspc s1) s1" using ke by (simp add: window_wf_def s1)
  have bm: "m x = mem s1 x" if "x \<in> bitmap_bytes (k_page_bitmap s1)" for x
    using that window_not_bitmap [OF ww, of x] m(3) [of x] by (cases "x < 0xFFC00000") (auto simp: not_less)
  have tr: "translate (mem s1) w = translate (mem s) w" for w
  proof -
    have "window_wf (k_addrspc s1) (s\<lparr>k_page_bitmap := k_page_bitmap s1, page_size := 4096\<rparr>)"
      using ww by (simp add: window_wf_def)
    from entries_frame(3) [OF this, of "mem s1" w] show ?thesis using s1(6) by simp
  qed
  let ?r = "s1\<lparr>mem := m\<rparr>"
  have "init_paging s = Some ?r" using s1 m(1) by (simp add: init_paging_unfold)
  moreover have "alloc_wf ?r" using alloc_wf_mem [OF s1(2)] bm by blast
  moreover have "used_pages ?r = used_pages s1"
    using used_pages_mem [of s1 m] s1(2) bm by (simp add: alloc_wf_def counts_wf_def)
  moreover have "window_wf (k_addrspc ?r) ?r" using ww by (simp add: window_wf_def)
  moreover have "paging_only s ?r"
  proof -
    obtain m' zs f k b where "s1 = ?s\<lparr>mem := m', page_zones := zs, free_pages := f, kernel_end := k, k_page_bitmap := b\<rparr>"
      using only unfolding allocator_only_def by blast
    then have "?r = s\<lparr>mem := m, page_size := 4096, kb_installed := 32768, total_pages := 8192, free_pages := f,
        page_zones := zs, num_zones := 2, kernel_start := KERNEL_START s, kernel_end := k,
        k_addrspc := \<lparr>pd = 0xFFC00000\<rparr>, brk_max := 0xFFBFC000, k_page_bitmap := b\<rparr>"
      by (simp add: paging_start_def)
    then show ?thesis unfolding paging_only_def by blast
  qed
  moreover have "mem ?r x = mem s x" if "x < 0xFFC00000" "x \<notin> bitmap_bytes (k_page_bitmap ?r)" for x
    using that m(3) s1(6) by simp
  ultimately show ?thesis using s1 m(2) tr by (intro exI [of _ ?r]) auto
qed

text \<open>C9: \<^verbatim>\<open>init_paging\<close>, for a page-aligned kernel whose page table entries name frames from one
  megabyte up, returns with the allocator's invariant: 8192 pages in two zones, of which the first
  megabyte, the kernel and one page of bitmap are in use. The rest of the last kernel page table is
  unmapped, and every other address translates as before.\<close>

theorem init_paging_wf:
  assumes "KERNEL_END s mod 4096 = 0" "0 < KERNEL_END s" "KERNEL_END s < 0xFFBFF000"
    and "256 \<le> frame_of s (KERNEL_START s)" "frame_of s (KERNEL_START s) \<le> frame_of s (KERNEL_END s)"
    and "unat (frame_of s (KERNEL_END s)) < 8192"
  shows "\<exists>s'. init_paging s = Some s' \<and> alloc_wf s' \<and> window_wf (k_addrspc s') s'
    \<and> total_pages s' = 8192
    \<and> used_pages s' = page_range 0 256 \<union> page_range (frame_of s (KERNEL_START s)) (frame_of s (KERNEL_END s) + 1)
    \<and> kernel_end s' = KERNEL_END s + 4096 \<and> brk_max s' = 0xFFBFC000
    \<and> (\<forall>w < 0xFFC00000. translate (mem s') w =
         (if kernel_end s' \<le> w \<and> w < kernel_end s' div 0x400000 * 0x400000 + 0x400000 then None
          else translate (mem s) w))"
  using init_paging_effect [OF assms] by blast

end
