(* ===== verification/DList.thy ===== *)
theory DList
  imports Machine
begin

text \<open>
  The intrusive circular list of \<^verbatim>\<open>include/ds/list.h\<close>. A node is the address of a
  \<^verbatim>\<open>struct list_head\<close> embedded in some object: \<^verbatim>\<open>next\<close> at offset 0, \<^verbatim>\<open>prev\<close> at
  offset 4. The operations are the header's, on memory. \<open>dlist m head xs\<close> says that from \<open>head\<close> the
  links run through exactly the nodes \<open>xs\<close> and back, in both directions, and that no two nodes
  overlap. The header's promises are stated over the sequence \<open>xs\<close>: \<open>list_add\<close> conses, \<open>list_add_tail\<close>
  appends, \<open>list_del\<close> removes, and a traversal visits \<open>xs\<close> in order and ends.
\<close>

section \<open>Operations\<close>

definition list_next :: "bytes \<Rightarrow> u32 \<Rightarrow> u32" where
  "list_next m p = load32 m p"

definition list_prev :: "bytes \<Rightarrow> u32 \<Rightarrow> u32" where
  "list_prev m p = load32 m (p + 4)"

definition set_next :: "u32 \<Rightarrow> u32 \<Rightarrow> bytes \<Rightarrow> bytes" where
  "set_next p v m = store32 m p v"

definition set_prev :: "u32 \<Rightarrow> u32 \<Rightarrow> bytes \<Rightarrow> bytes" where
  "set_prev p v m = store32 m (p + 4) v"

definition INIT_LIST_HEAD :: "u32 \<Rightarrow> bytes \<Rightarrow> bytes" where
  "INIT_LIST_HEAD ptr m = set_prev ptr ptr (set_next ptr ptr m)"

definition list_add_between :: "u32 \<Rightarrow> u32 \<Rightarrow> u32 \<Rightarrow> bytes \<Rightarrow> bytes" where
  "list_add_between new prev next m =
     (let m = set_prev next new m;
          m = set_next new next m;
          m = set_prev new prev m
      in set_next prev new m)"

definition list_add :: "u32 \<Rightarrow> u32 \<Rightarrow> bytes \<Rightarrow> bytes" where
  "list_add new head m = list_add_between new head (list_next m head) m"

definition list_add_tail :: "u32 \<Rightarrow> u32 \<Rightarrow> bytes \<Rightarrow> bytes" where
  "list_add_tail new head m = list_add_between new (list_prev m head) head m"

definition list_del_between :: "u32 \<Rightarrow> u32 \<Rightarrow> bytes \<Rightarrow> bytes" where
  "list_del_between prev next m = set_next prev next (set_prev next prev m)"

definition list_del :: "u32 \<Rightarrow> bytes \<Rightarrow> bytes" where
  "list_del entry m = list_del_between (list_prev m entry) (list_next m entry) m"

definition list_del_init :: "u32 \<Rightarrow> bytes \<Rightarrow> bytes" where
  "list_del_init entry m =
     INIT_LIST_HEAD entry (list_del_between (list_prev m entry) (list_next m entry) m)"

definition list_empty :: "u32 \<Rightarrow> bytes \<Rightarrow> bool" where
  "list_empty head m \<longleftrightarrow> list_next m head = head"

definition list_splice :: "u32 \<Rightarrow> u32 \<Rightarrow> bytes \<Rightarrow> bytes" where
  "list_splice list head m =
     (let first = list_next m list
      in if first \<noteq> list
         then let last = list_prev m list;
                  at = list_next m head;
                  m = set_prev first head m;
                  m = set_next head first m;
                  m = set_next last at m
              in set_prev at last m
         else m)"

text \<open>
  \<^verbatim>\<open>list_for_each\<close>: the loop over a state whose memory the body may change. The body answers
  with the state and whether it left the loop with \<^verbatim>\<open>break\<close>, or with nothing when it does not
  return; the loop has no result then, nor when it never ends.
\<close>

partial_function (option) list_for_each ::
  "('s \<Rightarrow> bytes) \<Rightarrow> u32 \<Rightarrow> (u32 \<Rightarrow> 's \<Rightarrow> ('s \<times> bool) option) \<Rightarrow> u32 \<Rightarrow> 's \<Rightarrow> 's option" where
  "list_for_each memory head body pos s =
     (if pos \<noteq> head
      then case body pos s of
             None \<Rightarrow> None
           | Some (s', stop) \<Rightarrow>
               if stop then Some s'
               else list_for_each memory head body (list_next (memory s') pos) s'
      else Some s)"

text \<open>
  \<^verbatim>\<open>list_for_each_safe\<close> keeps the next position in \<^verbatim>\<open>n\<close>, read before the body runs, so that the
  body may take the current node out.
\<close>

partial_function (option) list_for_each_safe ::
  "('s \<Rightarrow> bytes) \<Rightarrow> u32 \<Rightarrow> (u32 \<Rightarrow> 's \<Rightarrow> ('s \<times> bool) option) \<Rightarrow> u32 \<Rightarrow> u32 \<Rightarrow> 's \<Rightarrow> 's option" where
  "list_for_each_safe memory head body pos n s =
     (if pos \<noteq> head
      then case body pos s of
             None \<Rightarrow> None
           | Some (s', stop) \<Rightarrow>
               if stop then Some s'
               else list_for_each_safe memory head body n (list_next (memory s') n) s'
      else Some s)"

section \<open>Link fields under the operations\<close>

definition nodes_apart :: "u32 set \<Rightarrow> bool" where
  "nodes_apart N \<longleftrightarrow> (\<forall>a \<in> N. \<forall>b \<in> N. a \<noteq> b \<longrightarrow> apart a 8 b 8)"

lemma nodes_apart_fields:
  assumes "nodes_apart N" "a \<in> N" "b \<in> N"
  shows "a \<noteq> b \<Longrightarrow> apart a 4 b 4" "apart a 4 (b + 4) 4" "apart (a + 4) 4 b 4"
    "a \<noteq> b \<Longrightarrow> apart (a + 4) 4 (b + 4) 4"
proof -
  have *: "8 \<le> unat (b - a)" "8 \<le> unat (a - b)" if "a \<noteq> b"
    using assms that by (simp_all add: nodes_apart_def apart_def)
  then show "a \<noteq> b \<Longrightarrow> apart a 4 b 4" "a \<noteq> b \<Longrightarrow> apart (a + 4) 4 (b + 4) 4"
    by (simp_all add: apart_def)
  show "apart a 4 (b + 4) 4"
  proof (cases "a = b")
    case False
    have e: "b + 4 - a = (b - a) + 4" "a - (b + 4) = (a - b) - 4" by simp_all
    show ?thesis
      using * [OF False] unat_minus_cases [of "a - b" 4] unat_word_ariths(1) [of "b - a" 4]
        unat_minus_cases [of a b] unat_minus_cases [of b a] unat_less_2p32 [of "b - a"]
        unat_less_2p32 [of a] unat_less_2p32 [of b]
      unfolding apart_def e by (auto split: if_splits)
  qed (simp add: apart_def)
  show "apart (a + 4) 4 b 4"
  proof (cases "a = b")
    case False
    have e: "b - (a + 4) = (b - a) - 4" "a + 4 - b = (a - b) + 4" by simp_all
    show ?thesis
      using * [OF False] unat_minus_cases [of "b - a" 4] unat_word_ariths(1) [of "a - b" 4]
        unat_minus_cases [of a b] unat_minus_cases [of b a] unat_less_2p32 [of "b - a"]
        unat_less_2p32 [of a] unat_less_2p32 [of b]
      unfolding apart_def e by (auto split: if_splits)
  qed (simp add: apart_def)
qed

lemma set_link_effects [list_effects]:
  assumes "nodes_apart N" "p \<in> N" "x \<in> N"
  shows "list_next (set_next p v m) x = (if x = p then v else list_next m x)"
    "list_next (set_prev p v m) x = list_next m x"
    "list_prev (set_prev p v m) x = (if x = p then v else list_prev m x)"
    "list_prev (set_next p v m) x = list_prev m x"
  using nodes_apart_fields [OF assms(1,3,2)]
  by (simp_all add: list_next_def list_prev_def set_next_def set_prev_def mem_frame)

section \<open>Rings of nodes\<close>

text \<open>
  \<open>chain nx pv a xs z\<close>: following \<open>nx\<close> from \<open>a\<close> passes the nodes \<open>xs\<close> and arrives at \<open>z\<close>, and \<open>pv\<close>
  leads back the same way. A list is a chain from its head to itself.
\<close>

primrec chain :: "(u32 \<Rightarrow> u32) \<Rightarrow> (u32 \<Rightarrow> u32) \<Rightarrow> u32 \<Rightarrow> u32 list \<Rightarrow> u32 \<Rightarrow> bool" where
  "chain nx pv a [] z \<longleftrightarrow> nx a = z \<and> pv z = a"
| "chain nx pv a (x # xs) z \<longleftrightarrow> nx a = x \<and> pv x = a \<and> chain nx pv x xs z"

definition dlist :: "bytes \<Rightarrow> u32 \<Rightarrow> u32 list \<Rightarrow> bool" where
  "dlist m head xs \<longleftrightarrow> chain (list_next m) (list_prev m) head xs head
     \<and> distinct (head # xs) \<and> nodes_apart (set (head # xs))"

lemma chain_append:
  "chain nx pv a (xs @ y # ys) z \<longleftrightarrow> chain nx pv a xs y \<and> chain nx pv y ys z"
  by (induction xs arbitrary: a) auto

lemma chain_cong:
  assumes "\<And>x. x \<in> set (a # xs) \<Longrightarrow> nx x = nx' x" "\<And>x. x \<in> set xs \<union> {z} \<Longrightarrow> pv x = pv' x"
  shows "chain nx pv a xs z \<longleftrightarrow> chain nx' pv' a xs z"
  using assms by (induction xs arbitrary: a) auto

lemma chain_next: "chain nx pv a xs z \<Longrightarrow> nx a = hd (xs @ [z])"
  by (cases xs) auto

lemma chain_prev: "chain nx pv a xs z \<Longrightarrow> pv z = last (a # xs)"
  by (induction xs arbitrary: a) auto

lemma chain_insert:
  assumes "chain nx pv a (xs @ ys) z" "distinct (a # xs @ ys)" "z \<notin> set (xs @ ys)"
    "new \<notin> set (a # xs @ ys)" "new \<noteq> z"
    "\<And>x. x \<in> set (new # a # xs @ ys) \<Longrightarrow>
      nx' x = (if x = last (a # xs) then new else if x = new then hd (ys @ [z]) else nx x)"
    "\<And>x. x \<in> set (new # xs @ ys) \<union> {z} \<Longrightarrow>
      pv' x = (if x = hd (ys @ [z]) then new else if x = new then last (a # xs) else pv x)"
  shows "chain nx' pv' a (xs @ new # ys) z"
  using assms
proof (induction xs arbitrary: a)
  case Nil
  note P = Nil.prems
  show ?case
  proof (cases ys)
    case Nil
    then show ?thesis using P(2-5) P(6) [of a] P(6) [of new] P(7) [of new] P(7) [of z] by simp
  next
    case (Cons y ys')
    have "chain nx' pv' y ys' z \<longleftrightarrow> chain nx pv y ys' z"
    proof (rule chain_cong)
      show "nx' x = nx x" if "x \<in> set (y # ys')" for x
        using P(2,4) P(6) [of x] Cons that by auto
      show "pv' x = pv x" if "x \<in> set ys' \<union> {z}" for x
        using P(2-5) P(7) [of x] Cons that by auto
    qed
    then show ?thesis
      using P(1-5) P(6) [of a] P(6) [of new] P(7) [of new] P(7) [of y] Cons by simp
  qed
next
  case (Cons x xs)
  note P = Cons.prems
  have "chain nx' pv' x (xs @ new # ys) z"
  proof (rule Cons.IH)
    show "nx' y = (if y = last (x # xs) then new else if y = new then hd (ys @ [z]) else nx y)"
      if "y \<in> set (new # x # xs @ ys)" for y
    proof -
      have "y \<in> set (new # a # (x # xs) @ ys)" using that by auto
      from P(6) [OF this] show ?thesis by simp
    qed
    show "pv' y = (if y = hd (ys @ [z]) then new else if y = new then last (x # xs) else pv y)"
      if "y \<in> set (new # xs @ ys) \<union> {z}" for y
    proof -
      have "y \<in> set (new # (x # xs) @ ys) \<union> {z}" using that by auto
      from P(7) [OF this] P(2-5) that show ?thesis by auto
    qed
  qed (use P(1-5) in simp_all)
  moreover have "last (x # xs) \<in> set (x # xs)" by (rule last_in_set) simp
  then have "a \<noteq> last (x # xs)" using P(2) by auto
  moreover have "x \<noteq> hd (ys @ [z])" using P(2,3) by (cases ys) auto
  ultimately show ?case using P(1,2,4) P(6) [of a] P(7) [of x] by auto
qed

lemma chain_remove:
  assumes "chain nx pv a (xs @ e # ys) z" "distinct (a # xs @ e # ys)" "z \<notin> set (xs @ e # ys)"
    "\<And>x. x \<in> set (a # xs @ ys) \<Longrightarrow> nx' x = (if x = last (a # xs) then hd (ys @ [z]) else nx x)"
    "\<And>x. x \<in> set (xs @ ys) \<union> {z} \<Longrightarrow>
      pv' x = (if x = hd (ys @ [z]) then last (a # xs) else pv x)"
  shows "chain nx' pv' a (xs @ ys) z"
  using assms
proof (induction xs arbitrary: a)
  case Nil
  note P = Nil.prems
  show ?case
  proof (cases ys)
    case Nil
    then show ?thesis using P(1-3) P(4) [of a] P(5) [of z] by simp
  next
    case (Cons y ys')
    have "chain nx' pv' y ys' z \<longleftrightarrow> chain nx pv y ys' z"
    proof (rule chain_cong)
      show "nx' x = nx x" if "x \<in> set (y # ys')" for x
        using P(2) P(4) [of x] Cons that by auto
      show "pv' x = pv x" if "x \<in> set ys' \<union> {z}" for x
        using P(2,3) P(5) [of x] Cons that by auto
    qed
    then show ?thesis using P(1-3) P(4) [of a] P(5) [of y] Cons by simp
  qed
next
  case (Cons x xs)
  note P = Cons.prems
  have "chain nx' pv' x (xs @ ys) z"
  proof (rule Cons.IH)
    show "nx' y = (if y = last (x # xs) then hd (ys @ [z]) else nx y)"
      if "y \<in> set (x # xs @ ys)" for y
    proof -
      have "y \<in> set (a # (x # xs) @ ys)" using that by auto
      from P(4) [OF this] show ?thesis by simp
    qed
    show "pv' y = (if y = hd (ys @ [z]) then last (x # xs) else pv y)"
      if "y \<in> set (xs @ ys) \<union> {z}" for y
    proof -
      have "y \<in> set ((x # xs) @ ys) \<union> {z}" using that by auto
      from P(5) [OF this] show ?thesis by simp
    qed
  qed (use P(1-3) in simp_all)
  moreover have "last (x # xs) \<in> set (x # xs)" by (rule last_in_set) simp
  then have "a \<noteq> last (x # xs)" using P(2) by auto
  moreover have "x \<noteq> hd (ys @ [z])" using P(2,3) by (cases ys) auto
  ultimately show ?case using P(1,2) P(4) [of a] P(5) [of x] by simp
qed

section \<open>The operations on sequences\<close>

lemma dlist_nodes: "dlist m h xs \<Longrightarrow> nodes_apart (set (h # xs))"
  by (simp add: dlist_def)

lemma dlist_distinct: "dlist m h xs \<Longrightarrow> distinct (h # xs)"
  by (simp add: dlist_def)

lemma dlist_next: "dlist m h xs \<Longrightarrow> list_next m h = hd (xs @ [h])"
  by (auto simp: dlist_def dest: chain_next)

lemma dlist_prev: "dlist m h xs \<Longrightarrow> list_prev m h = last (h # xs)"
  unfolding dlist_def by (blast dest: chain_prev)

lemma dlist_entry:
  assumes "dlist m h (xs @ e # ys)"
  shows "list_next m e = hd (ys @ [h])" "list_prev m e = last (h # xs)"
proof -
  have c: "chain (list_next m) (list_prev m) h xs e" "chain (list_next m) (list_prev m) e ys h"
    using assms by (simp_all add: dlist_def chain_append)
  show "list_next m e = hd (ys @ [h])" by (rule chain_next [OF c(2)])
  show "list_prev m e = last (h # xs)" by (rule chain_prev [OF c(1)])
qed

text \<open>A list depends on the links of its nodes and its head only.\<close>

lemma dlist_cong:
  assumes "dlist m h xs"
    and "\<And>x. x \<in> set (h # xs) \<Longrightarrow> list_next m' x = list_next m x"
    and "\<And>x. x \<in> set (h # xs) \<Longrightarrow> list_prev m' x = list_prev m x"
  shows "dlist m' h xs"
proof -
  have "chain (list_next m') (list_prev m') h xs h \<longleftrightarrow> chain (list_next m) (list_prev m) h xs h"
    using assms(2,3) by (intro chain_cong) auto
  with assms(1) show ?thesis by (simp add: dlist_def)
qed

lemma link_cong:
  assumes "\<And>b. b \<in> span x 8 \<Longrightarrow> m' b = m b"
  shows "list_next m' x = list_next m x" "list_prev m' x = list_prev m x"
proof -
  show "list_next m' x = list_next m x"
    unfolding list_next_def using assms by (intro load32_cong) (simp add: span_iff)
  show "list_prev m' x = list_prev m x"
    unfolding list_prev_def using assms span_offset [of _ x 4 4 8] by (intro load32_cong) simp
qed

lemma dlist_frame:
  assumes "dlist m h xs" and "\<And>x b. x \<in> set (h # xs) \<Longrightarrow> b \<in> span x 8 \<Longrightarrow> m' b = m b"
  shows "dlist m' h xs"
proof (rule dlist_cong [OF assms(1)])
  show "list_next m' x = list_next m x" if "x \<in> set (h # xs)" for x
    using assms(2) [OF that] by (rule link_cong)
  show "list_prev m' x = list_prev m x" if "x \<in> set (h # xs)" for x
    using assms(2) [OF that] by (rule link_cong)
qed

lemma add_between_effects:
  assumes N: "nodes_apart N" "new \<in> N" "p \<in> N" "n \<in> N" "x \<in> N" and "new \<noteq> p" "new \<noteq> n"
  shows "list_next (list_add_between new p n m) x =
      (if x = p then new else if x = new then n else list_next m x)"
    "list_prev (list_add_between new p n m) x =
      (if x = n then new else if x = new then p else list_prev m x)"
  using set_link_effects [OF N(1) N(2) N(5)] set_link_effects [OF N(1) N(3) N(5)]
    set_link_effects [OF N(1) N(4) N(5)] assms(6,7)
  by (auto simp: list_add_between_def Let_def)

lemma del_between_effects:
  assumes N: "nodes_apart N" "p \<in> N" "n \<in> N" "x \<in> N"
  shows "list_next (list_del_between p n m) x = (if x = p then n else list_next m x)"
    "list_prev (list_del_between p n m) x = (if x = n then p else list_prev m x)"
  using set_link_effects [OF N(1) N(2) N(4)] set_link_effects [OF N(1) N(3) N(4)]
  by (auto simp: list_del_between_def)

lemma dlist_add_between:
  assumes d: "dlist m h (xs @ ys)" and new: "new \<notin> set (h # xs @ ys)"
    and N: "nodes_apart (insert new (set (h # xs @ ys)))"
  shows "dlist (list_add_between new (last (h # xs)) (hd (ys @ [h])) m) h (xs @ new # ys)"
proof -
  let ?N = "insert new (set (h # xs @ ys))" and ?p = "last (h # xs)" and ?n = "hd (ys @ [h])"
  have "?p \<in> set (h # xs)" by (rule last_in_set) simp
  then have p: "?p \<in> ?N" "new \<noteq> ?p" using new by auto
  have "?n \<in> set (h # ys)" by (cases ys) auto
  then have n: "?n \<in> ?N" "new \<noteq> ?n" using new by auto
  note eff = add_between_effects [OF N _ p(1) n(1) _ p(2) n(2)]
  have "chain (list_next (list_add_between new ?p ?n m)) (list_prev (list_add_between new ?p ?n m))
      h (xs @ new # ys) h"
  proof (rule chain_insert)
    show "chain (list_next m) (list_prev m) h (xs @ ys) h" "distinct (h # xs @ ys)"
      "h \<notin> set (xs @ ys)" using d by (auto simp: dlist_def)
    show "new \<notin> set (h # xs @ ys)" "new \<noteq> h" using new by auto
    show "list_next (list_add_between new ?p ?n m) x =
        (if x = ?p then new else if x = new then ?n else list_next m x)"
      if "x \<in> set (new # h # xs @ ys)" for x by (rule eff(1)) (use that in auto)
    show "list_prev (list_add_between new ?p ?n m) x =
        (if x = ?n then new else if x = new then ?p else list_prev m x)"
      if "x \<in> set (new # xs @ ys) \<union> {h}" for x by (rule eff(2)) (use that in auto)
  qed
  moreover have "set (h # xs @ new # ys) = ?N" by auto
  ultimately show ?thesis using d new N by (auto simp: dlist_def)
qed

lemma dlist_add:
  assumes "dlist m h xs" "new \<notin> set (h # xs)" "nodes_apart (insert new (set (h # xs)))"
  shows "dlist (list_add new h m) h (new # xs)"
  using dlist_add_between [of m h "[]" xs new] assms
  by (simp add: list_add_def dlist_next [OF assms(1)])

lemma dlist_add_tail:
  assumes "dlist m h xs" "new \<notin> set (h # xs)" "nodes_apart (insert new (set (h # xs)))"
  shows "dlist (list_add_tail new h m) h (xs @ [new])"
  using dlist_add_between [of m h xs "[]" new] assms
  by (simp add: list_add_tail_def dlist_prev [OF assms(1)])

lemma nodes_apart_mono: "nodes_apart N \<Longrightarrow> M \<subseteq> N \<Longrightarrow> nodes_apart M"
  unfolding nodes_apart_def by blast

lemma dlist_del:
  assumes d: "dlist m h (xs @ e # ys)"
  shows "dlist (list_del e m) h (xs @ ys)"
proof -
  let ?N = "set (h # xs @ e # ys)" and ?p = "last (h # xs)" and ?n = "hd (ys @ [h])"
  have N: "nodes_apart ?N" using d by (rule dlist_nodes)
  have "?p \<in> set (h # xs)" by (rule last_in_set) simp
  then have p: "?p \<in> ?N" by auto
  have n: "?n \<in> ?N" by (cases ys) auto
  note eff = del_between_effects [OF N p n]
  have "chain (list_next (list_del_between ?p ?n m)) (list_prev (list_del_between ?p ?n m))
      h (xs @ ys) h"
  proof (rule chain_remove)
    show "chain (list_next m) (list_prev m) h (xs @ e # ys) h" "distinct (h # xs @ e # ys)"
      "h \<notin> set (xs @ e # ys)" using d by (auto simp: dlist_def)
    show "list_next (list_del_between ?p ?n m) x = (if x = ?p then ?n else list_next m x)"
      if "x \<in> set (h # xs @ ys)" for x by (rule eff(1)) (use that in auto)
    show "list_prev (list_del_between ?p ?n m) x = (if x = ?n then ?p else list_prev m x)"
      if "x \<in> set (xs @ ys) \<union> {h}" for x by (rule eff(2)) (use that in auto)
  qed
  moreover have "nodes_apart (set (h # xs @ ys))"
    by (rule nodes_apart_mono [OF N]) auto
  ultimately show ?thesis
    using d by (auto simp: dlist_def list_del_def dlist_entry [OF d])
qed

lemma dlist_init: "dlist (INIT_LIST_HEAD h m) h []"
  using set_link_effects [of "{h}" h h]
  by (simp add: dlist_def INIT_LIST_HEAD_def nodes_apart_def)

lemma list_head_outside:
  assumes "b \<notin> span h 8"
  shows "INIT_LIST_HEAD h m b = m b"
proof -
  have "b \<notin> span h 4" "b \<notin> span (h + 4) 4"
    using assms span_offset [of b h 4 4 8] span_mono [of b h 4 8] by auto
  then show ?thesis by (simp add: INIT_LIST_HEAD_def set_next_def set_prev_def store32_outside)
qed

lemma dlist_del_init:
  assumes d: "dlist m h (xs @ e # ys)"
  shows "dlist (list_del_init e m) h (xs @ ys)"
proof -
  have "list_del_init e m = INIT_LIST_HEAD e (list_del e m)" by (simp add: list_del_init_def list_del_def)
  moreover have "INIT_LIST_HEAD e (list_del e m) b = list_del e m b" if x: "x \<in> set (h # xs @ ys)" "b \<in> span x 8" for x b
  proof -
    have "x \<noteq> e" using x(1) dlist_distinct [OF d] by auto
    then have "apart x 8 e 8" using dlist_nodes [OF d] x(1) by (auto simp: nodes_apart_def)
    then show ?thesis using x(2) apart_disjoint by (intro list_head_outside) blast
  qed
  ultimately show ?thesis by (intro dlist_frame [OF dlist_del [OF d]]) simp
qed

lemma list_empty_iff: "dlist m h xs \<Longrightarrow> list_empty h m \<longleftrightarrow> xs = []"
  by (cases xs) (auto simp: list_empty_def dlist_next dest: dlist_distinct)

section \<open>Traversal\<close>

text \<open>What a loop body does over a sequence of nodes, up to the first \<^verbatim>\<open>break\<close>.\<close>

fun run_body :: "(u32 \<Rightarrow> 's \<Rightarrow> ('s \<times> bool) option) \<Rightarrow> u32 list \<Rightarrow> 's \<Rightarrow> 's option" where
  "run_body body [] s = Some s"
| "run_body body (x # xs) s =
     (case body x s of
        None \<Rightarrow> None
      | Some (s', stop) \<Rightarrow> if stop then Some s' else run_body body xs s')"

lemma for_each_suffix:
  assumes "xs = pre @ suf" "P s"
    and step: "\<And>x s s'. x \<in> set xs \<Longrightarrow> P s \<Longrightarrow> body x s = Some (s', False) \<Longrightarrow> P s'"
    and ring: "\<And>s. P s \<Longrightarrow> dlist (memory s) h xs"
  shows "list_for_each memory h body (hd (suf @ [h])) s = run_body body suf s"
  using assms(1,2)
proof (induction suf arbitrary: pre s)
  case Nil
  then show ?case by (simp add: list_for_each.simps)
next
  case (Cons x suf)
  have x: "x \<in> set xs" "x \<noteq> h"
    using Cons.prems(1) dlist_distinct [OF ring [OF Cons.prems(2)]] by auto
  consider "body x s = None" | s' where "body x s = Some (s', True)"
    | s' where "body x s = Some (s', False)" by (cases "body x s") auto
  then show ?case
  proof cases
    case (3 s')
    have P': "P s'" using step [OF x(1) Cons.prems(2) 3] .
    have "dlist (memory s') h (pre @ x # suf)" using ring [OF P'] Cons.prems(1) by simp
    then have nx: "list_next (memory s') x = hd (suf @ [h])" by (rule dlist_entry(1))
    have "list_for_each memory h body (hd (suf @ [h])) s' = run_body body suf s'"
      using Cons.prems(1) P' by (intro Cons.IH [of "pre @ [x]"]) simp_all
    then show ?thesis using x 3 nx by (simp add: list_for_each.simps [of memory h body x])
  qed (use x in \<open>simp_all add: list_for_each.simps [of memory h body x]\<close>)
qed

lemma for_each_run:
  assumes "P s" "\<And>x s s'. x \<in> set xs \<Longrightarrow> P s \<Longrightarrow> body x s = Some (s', False) \<Longrightarrow> P s'"
    and "\<And>s. P s \<Longrightarrow> dlist (memory s) h xs"
  shows "list_for_each memory h body (list_next (memory s) h) s = run_body body xs s"
proof -
  have "list_next (memory s) h = hd (xs @ [h])" using assms(1,3) by (intro dlist_next)
  then show ?thesis using for_each_suffix [of xs "[]" xs P s body memory h] assms by simp
qed

text \<open>A body that never leaves the loop and always returns runs as a fold.\<close>

lemma run_body_fold:
  "(\<And>x s. x \<in> set xs \<Longrightarrow> body x s = Some (f x s, False)) \<Longrightarrow> run_body body xs s = Some (fold f xs s)"
  by (induction xs arbitrary: s) auto

section \<open>The interface the kernel's lists rest on\<close>

text \<open>
  The users of the header (the heap's block chain, the process list, the device list) rely on the
  list as a sequence of nodes only. \<open>node_sequence\<close> is that contract: what a relation between a
  memory, a head and a sequence has to promise about the three updates.
\<close>

locale node_sequence =
  fixes seq :: "bytes \<Rightarrow> u32 \<Rightarrow> u32 list \<Rightarrow> bool"
    and push :: "u32 \<Rightarrow> u32 \<Rightarrow> bytes \<Rightarrow> bytes"
    and append_node :: "u32 \<Rightarrow> u32 \<Rightarrow> bytes \<Rightarrow> bytes"
    and remove :: "u32 \<Rightarrow> bytes \<Rightarrow> bytes"
    and fresh :: "u32 \<Rightarrow> u32 \<Rightarrow> u32 list \<Rightarrow> bool"
  assumes seq_push: "seq m h xs \<Longrightarrow> fresh n h xs \<Longrightarrow> seq (push n h m) h (n # xs)"
    and seq_append: "seq m h xs \<Longrightarrow> fresh n h xs \<Longrightarrow> seq (append_node n h m) h (xs @ [n])"
    and seq_remove: "seq m h (xs @ e # ys) \<Longrightarrow> seq (remove e m) h (xs @ ys)"
    and seq_distinct: "seq m h xs \<Longrightarrow> distinct (h # xs)"
begin

lemma seq_remove1:
  assumes "seq m h xs" "e \<in> set xs"
  shows "seq (remove e m) h (remove1 e xs)"
proof -
  obtain us vs where xs: "xs = us @ e # vs" using split_list [OF assms(2)] by blast
  then have "e \<notin> set us" using seq_distinct [OF assms(1)] by auto
  then have "remove1 e xs = us @ vs" by (simp add: xs remove1_append)
  with seq_remove [of m h us e vs] assms(1) xs show ?thesis by simp
qed

lemma push_remove:
  assumes "seq m h xs" "fresh n h xs"
  shows "seq (remove n (push n h m)) h xs"
  using seq_remove [of "push n h m" h "[]" n xs] seq_push [OF assms] by simp

lemma append_remove:
  assumes "seq m h xs" "fresh n h xs"
  shows "seq (remove n (append_node n h m)) h xs"
  using seq_remove [of "append_node n h m" h xs n "[]"] seq_append [OF assms] by simp

text \<open>Any node can be removed after an append, which leaves the new one last; at the front, this is
  first in, first out.\<close>

lemma append_remove_any:
  assumes "seq m h (ws @ x # xs)" "fresh n h (ws @ x # xs)"
  shows "seq (remove x (append_node n h m)) h (ws @ xs @ [n])"
  using seq_remove [of "append_node n h m" h ws x "xs @ [n]"] seq_append [OF assms] by simp

end

definition fresh_node :: "u32 \<Rightarrow> u32 \<Rightarrow> u32 list \<Rightarrow> bool" where
  "fresh_node n h xs \<longleftrightarrow> n \<notin> set (h # xs) \<and> (\<forall>x \<in> set (h # xs). apart n 8 x 8)"

lemma fresh_nodes_apart:
  "dlist m h xs \<Longrightarrow> fresh_node n h xs \<Longrightarrow> nodes_apart (insert n (set (h # xs)))"
  unfolding fresh_node_def dlist_def nodes_apart_def using apart_sym by blast

interpretation dl: node_sequence dlist list_add list_add_tail list_del fresh_node
proof unfold_locales
  show "dlist (list_add n h m) h (n # xs)" if "dlist m h xs" "fresh_node n h xs" for m h xs n
    using that by (intro dlist_add fresh_nodes_apart) (auto simp: fresh_node_def)
  show "dlist (list_add_tail n h m) h (xs @ [n])" if "dlist m h xs" "fresh_node n h xs"
    for m h xs n
    using that by (intro dlist_add_tail fresh_nodes_apart) (auto simp: fresh_node_def)
qed (rule dlist_del dlist_distinct; assumption)+

end
