(* ===== verification/Kheap.thy ===== *)
theory Kheap
  imports Page_Map DList
begin

text \<open>
  The kernel heap of \<^verbatim>\<open>mm/heap.c\<close> and the heap checker of \<^verbatim>\<open>mm/heapchecker.c\<close>. A
  \<^verbatim>\<open>malloc_head_t\<close> is 20 bytes: the links at 0, \<^verbatim>\<open>magic\<close> at 8, \<^verbatim>\<open>size\<close> at 12,
  \<^verbatim>\<open>state\<close> at 16, the payload at 20. The heap grows by moving \<^verbatim>\<open>brk\<close>; frames appear behind
  it when its pages are first touched (\<^verbatim>\<open>page_fault\<close>).

  The invariant \<open>heap_wf s xs\<close> says that the chain holds the blocks \<open>xs\<close>, that they lie between
  base and \<^verbatim>\<open>brk\<close> without overlap and without a gap, and that the counters are right.
\<close>

section \<open>State\<close>

record heap = paging +
  heap_base :: u32
  heap_brk :: u32
  chain_hd :: u32
  total_blocks :: u32
  used_blocks :: u32
  temp_map_hd :: u32

definition KMALLOC_FREE :: u8 where "KMALLOC_FREE = 0"
definition KMALLOC_USED :: u8 where "KMALLOC_USED = 1"
definition SIZEOF_MALLOC_HEAD :: u32 where "SIZEOF_MALLOC_HEAD = 20"

definition mh_magic :: "bytes \<Rightarrow> u32 \<Rightarrow> u32" where
  "mh_magic m p = load32 m (p + 8)"

definition mh_size :: "bytes \<Rightarrow> u32 \<Rightarrow> u32" where
  "mh_size m p = load32 m (p + 12)"

definition mh_state :: "bytes \<Rightarrow> u32 \<Rightarrow> u8" where
  "mh_state m p = m (p + 16)"

definition set_magic :: "u32 \<Rightarrow> u32 \<Rightarrow> bytes \<Rightarrow> bytes" where
  "set_magic p v m = store32 m (p + 8) v"

definition set_size :: "u32 \<Rightarrow> u32 \<Rightarrow> bytes \<Rightarrow> bytes" where
  "set_size p v m = store32 m (p + 12) v"

definition set_state :: "u32 \<Rightarrow> u8 \<Rightarrow> bytes \<Rightarrow> bytes" where
  "set_state p v m = store8 m (p + 16) v"

section \<open>Operations\<close>

definition init_heap :: "'a heap_scheme \<Rightarrow> 'a heap_scheme" where
  "init_heap s =
     (let s = s\<lparr>heap_base := kernel_end s, heap_brk := kernel_end s\<rparr>;
          s = s\<lparr>mem := INIT_LIST_HEAD (chain_hd s) (mem s)\<rparr>;
          s = s\<lparr>total_blocks := 0, used_blocks := 0\<rparr>
      in s\<lparr>mem := INIT_LIST_HEAD (temp_map_hd s) (mem s)\<rparr>)"

definition kbrk :: "u32 \<Rightarrow> 'a heap_scheme \<Rightarrow> u8 \<times> 'a heap_scheme" where
  "kbrk end_addr s = (if end_addr \<ge> brk_max s then (-1, s) else (0, s\<lparr>heap_brk := end_addr\<rparr>))"

definition ksbrk :: "u32 \<Rightarrow> 'a heap_scheme \<Rightarrow> (u32 \<times> 'a heap_scheme) option" where
  "ksbrk bytes s =
     (if bytes = 0 then Some (heap_brk s, s)
      else
        let (r, s) = kbrk (heap_brk s + bytes) s
        in do {
          s \<leftarrow> (if r = -1 then panic (''Unable to kbrk - Reached max_brk!'' @ [CHR 0x0A]) s else Some s);
          Some (heap_brk s - bytes, s)
        })"

text \<open>The body of the search: the current block, \<^verbatim>\<open>found\<close> and the state.\<close>

definition kmalloc_body ::
  "u32 \<Rightarrow> u32 \<Rightarrow> u32 \<times> u8 \<times> 'a heap_scheme \<Rightarrow> ((u32 \<times> u8 \<times> 'a heap_scheme) \<times> bool) option" where
  "kmalloc_body bytes this = (\<lambda>(ptr, found, s).
     let ptr = this
     in if bytes \<le> mh_size (mem s) ptr \<and> mh_state (mem s) ptr AND KMALLOC_USED = 0
        then do {
          s \<leftarrow> (if mh_magic (mem s) ptr \<noteq> 0xBEEF then panic ''Corruption in malloc chain!'' s else Some s);
          Some ((ptr, 1, s), True)
        }
        else Some ((ptr, found, s), False))"

text \<open>
  The new block at the old break. \<^verbatim>\<open>sb\<close> is still \<^verbatim>\<open>NULL\<close> here, so the store that should
  clear the state of the block goes to address 16.
\<close>

definition kmalloc_grow :: "u32 \<Rightarrow> 'a heap_scheme \<Rightarrow> (u32 \<times> 'a heap_scheme) option" where
  "kmalloc_grow bytes s = do {
     (ptr, s) \<leftarrow> ksbrk (SIZEOF_MALLOC_HEAD + bytes) s;
     let m = set_size ptr bytes (mem s);
     let m = set_magic ptr 0xBEEF m;
     let m = set_state 0 0 m;
     let m = list_add ptr (chain_hd s) m;
     Some (ptr, s\<lparr>mem := m, total_blocks := total_blocks s + 1\<rparr>)
   }"

definition kmalloc_split :: "u32 \<Rightarrow> u32 \<Rightarrow> 'a heap_scheme \<Rightarrow> 'a heap_scheme" where
  "kmalloc_split ptr bytes s =
     (let leftover = mh_size (mem s) ptr - bytes
      in if leftover \<ge> SIZEOF_MALLOC_HEAD + 8
         then let sb = ptr + SIZEOF_MALLOC_HEAD + bytes;
                  m = set_size sb (leftover - SIZEOF_MALLOC_HEAD) (mem s);
                  m = set_magic sb 0xBEEF m;
                  m = set_state sb 0 m;
                  m = set_size ptr bytes m;
                  m = list_add sb (chain_hd s) m
              in s\<lparr>mem := m, total_blocks := total_blocks s + 1\<rparr>
         else s)"

definition kmalloc :: "u32 \<Rightarrow> u16 \<Rightarrow> 'a heap_scheme \<Rightarrow> (u32 \<times> 'a heap_scheme) option" where
  "kmalloc bytes flags s =
     (if bytes = 0 then Some (0, s)
      else do {
        (ptr, found, s) \<leftarrow> list_for_each (\<lambda>(_, _, s). mem s) (chain_hd s) (kmalloc_body bytes)
          (list_next (mem s) (chain_hd s)) (0, 0, s);
        (curbrk, s) \<leftarrow> ksbrk 0 s;
        (ptr, s) \<leftarrow> (if found = 0 then kmalloc_grow bytes s else Some (ptr, kmalloc_split ptr bytes s));
        let m = set_state ptr (mh_state (mem s) ptr OR KMALLOC_USED) (mem s);
        let s = s\<lparr>mem := m, used_blocks := used_blocks s + 1\<rparr>;
        let sob = ptr + SIZEOF_MALLOC_HEAD;
        Some (sob, s)
      })"

definition kfree :: "u32 \<Rightarrow> 'a heap_scheme \<Rightarrow> 'a heap_scheme option" where
  "kfree base s =
     (if base = 0 then Some s
      else let ptr = base - SIZEOF_MALLOC_HEAD
      in do {
        s \<leftarrow> (if mh_magic (mem s) ptr \<noteq> 0xBEEF
              then panic ''Attempt to free corrupt/non existent block!'' s else Some s);
        Some (s\<lparr>mem := set_state ptr (mh_state (mem s) ptr AND KMALLOC_FREE) (mem s),
                used_blocks := used_blocks s - 1\<rparr>)
      })"

definition dump_heap_stats :: "'a heap_scheme \<Rightarrow> 'a heap_scheme option" where
  "dump_heap_stats s = do {
     s \<leftarrow> kprintf (rodata s (''Heap Stats:'' @ [CHR 0x0A])) [] s;
     kprintf (rodata s (''  total_blocks = %d'' @ CHR 0x0A # ''  used_blocks = %d'' @ [CHR 0x0A]))
       [total_blocks s, used_blocks s] s
   }"

text \<open>\<^verbatim>\<open>map_temp\<close> prints and returns no value; its result register is unspecified.\<close>

definition map_temp :: "u32 \<Rightarrow> u32 \<Rightarrow> 'a heap_scheme \<Rightarrow> 'a heap_scheme option" where
  "map_temp paddr pages s = do {
     s \<leftarrow> kprintf (rodata s ('' * max_brk is at: 0x%x'' @ [CHR 0x0A])) [brk_max s] s;
     let new_brkmax = brk_max s - pages * ucast (page_size s);
     kprintf (rodata s ('' * new max_brk will be 0x%x'' @ [CHR 0x0A])) [new_brkmax] s
   }"

text \<open>
  One round of the checker's endless loop, between two sleeps: the walk over the chain, with a panic
  for every block that has lost its magic number.
\<close>

definition heapchecker_walk :: "'a heap_scheme \<Rightarrow> 'a heap_scheme option" where
  "heapchecker_walk s =
     list_for_each mem (chain_hd s)
       (\<lambda>this s. do {
          s \<leftarrow> (if mh_magic (mem s) this \<noteq> 0xBEEF then panic ''HEAP BLOCK CORRUPTION DETECTED!'' s
                else Some s);
          Some (s, False)
        }) (list_next (mem s) (chain_hd s)) s"

end
