(* ===== verification/Kheap_Inv.thy ===== *)
theory Kheap_Inv
  imports Kheap
begin

text \<open>
  The heap invariant and its preservation. \<open>laid_out\<close> is the layout alone, over any size function:
  blocks of a 20-byte header and a payload that fill the heap from one bound to the other. The
  operations are then shown to keep \<open>heap_wf\<close>, to leave allocated blocks and everything outside the
  heap alone, and to satisfy the contract \<open>allocator\<close> that the process code relies on.
\<close>

section \<open>The layout of the blocks\<close>

definition extent :: "(u32 \<Rightarrow> u32) \<Rightarrow> u32 \<Rightarrow> nat" where
  "extent sz x = 20 + unat (sz x)"

definition disjoint_blocks :: "(u32 \<Rightarrow> u32) \<Rightarrow> u32 \<Rightarrow> u32 \<Rightarrow> bool" where
  "disjoint_blocks sz x y \<longleftrightarrow>
     unat x + extent sz x \<le> unat y \<or> unat y + extent sz y \<le> unat x"

definition laid_out :: "nat \<Rightarrow> nat \<Rightarrow> (u32 \<Rightarrow> u32) \<Rightarrow> u32 list \<Rightarrow> bool" where
  "laid_out lo hi sz xs \<longleftrightarrow>
     distinct xs
     \<and> (\<forall>x \<in> set xs. lo \<le> unat x \<and> unat x + extent sz x \<le> hi)
     \<and> (\<forall>x \<in> set xs. \<forall>y \<in> set xs. x \<noteq> y \<longrightarrow> disjoint_blocks sz x y)
     \<and> lo + sum_list (map (extent sz) xs) = hi"

lemma extent_pos [simp]: "20 \<le> extent sz x" "0 < extent sz x"
  by (simp_all add: extent_def)

lemma laid_out_cong:
  "(\<And>x. x \<in> set xs \<Longrightarrow> sz' x = sz x) \<Longrightarrow> laid_out lo hi sz' xs = laid_out lo hi sz xs"
  by (simp add: laid_out_def disjoint_blocks_def extent_def cong: map_cong)

lemma laid_out_bounds:
  "laid_out lo hi sz xs \<Longrightarrow> x \<in> set xs \<Longrightarrow> lo \<le> unat x \<and> unat x + 20 + unat (sz x) \<le> hi"
  by (auto simp: laid_out_def extent_def)

lemma laid_out_disjoint:
  "laid_out lo hi sz xs \<Longrightarrow> x \<in> set xs \<Longrightarrow> y \<in> set xs \<Longrightarrow> x \<noteq> y \<Longrightarrow> disjoint_blocks sz x y"
  by (auto simp: laid_out_def)

lemma laid_out_extend:
  assumes "laid_out lo hi sz xs" "unat p = hi" "lo \<le> hi"
  shows "laid_out lo (hi + extent sz p) sz (p # xs)"
  unfolding laid_out_def
proof (intro conjI ballI impI)
  have ub: "unat x + extent sz x \<le> unat p" if "x \<in> set xs" for x
    using assms that by (simp add: laid_out_def)
  have "p \<notin> set xs"
  proof
    assume "p \<in> set xs"
    then show False using ub [of p] extent_pos(2) [of sz p] by linarith
  qed
  then show "distinct (p # xs)" using assms(1) by (simp add: laid_out_def)
  show "lo \<le> unat x" "unat x + extent sz x \<le> hi + extent sz p" if "x \<in> set (p # xs)" for x
    using that assms by (auto simp: laid_out_def intro: le_trans)
  show "disjoint_blocks sz x y" if "x \<in> set (p # xs)" "y \<in> set (p # xs)" "x \<noteq> y" for x y
    using that ub laid_out_disjoint [OF assms(1)] by (auto simp: disjoint_blocks_def)
  show "lo + sum_list (map (extent sz) (p # xs)) = hi + extent sz p"
    using assms(1) by (simp add: laid_out_def)
qed

text \<open>Splitting a block in two leaves the layout as it was.\<close>

lemma laid_out_split:
  assumes l: "laid_out lo hi sz xs" and x: "x \<in> set xs"
    and y: "unat y = unat x + extent sz' x" and s: "extent sz' x + extent sz' y = extent sz x"
    and same: "\<And>z. z \<in> set xs \<Longrightarrow> z \<noteq> x \<Longrightarrow> sz' z = sz z"
  shows "laid_out lo hi sz' (y # xs)"
proof -
  have ext: "extent sz' z = extent sz z" if "z \<in> set xs" "z \<noteq> x" for z
    using same [OF that] by (simp add: extent_def)
  have inside: "unat x < unat y" "unat y + extent sz' y = unat x + extent sz x"
    using y s by simp_all
  have sep: "unat y + extent sz' y \<le> unat z \<or> unat z + extent sz z \<le> unat x" if "z \<in> set xs" "z \<noteq> x" for z
    using laid_out_disjoint [OF l that(1) x that(2)] inside by (auto simp: disjoint_blocks_def)
  have new: "y \<notin> set xs"
  proof
    assume "y \<in> set xs"
    moreover have "y \<noteq> x" using inside by auto
    ultimately show False using sep [of y] inside extent_pos(2) [of sz' y] by linarith
  qed
  have "sum_list (map (extent sz') xs) + extent sz' y = sum_list (map (extent sz) xs)"
  proof -
    obtain us vs where xs: "xs = us @ x # vs" using split_list [OF x] by blast
    then have nx: "x \<notin> set us" "x \<notin> set vs" using l by (auto simp: laid_out_def)
    have m: "map (extent sz') us = map (extent sz) us" "map (extent sz') vs = map (extent sz) vs"
      using ext nx by (auto simp: xs)
    show ?thesis using s by (simp add: xs m)
  qed
  then have sum: "lo + sum_list (map (extent sz') (y # xs)) = hi" using l by (simp add: laid_out_def)
  have bnd: "lo \<le> unat z \<and> unat z + extent sz' z \<le> hi" if "z \<in> set (y # xs)" for z
  proof (cases "z = x \<or> z = y")
    case True
    then show ?thesis using l x inside y by (auto simp: laid_out_def)
  next
    case False
    then show ?thesis using that l ext by (auto simp: laid_out_def)
  qed
  have dis: "disjoint_blocks sz' z w" if "z \<in> set (y # xs)" "w \<in> set (y # xs)" "z \<noteq> w" for z w
  proof -
    have one: "disjoint_blocks sz' z w \<and> disjoint_blocks sz' w z"
      if "z \<in> set xs" "z \<noteq> x" "w \<in> set (y # xs)" "z \<noteq> w" for z w
      using that sep [OF that(1,2)] ext [OF that(1,2)] ext [of w] inside y
        laid_out_disjoint [OF l that(1), of w]
      by (cases "w = x \<or> w = y") (auto simp: disjoint_blocks_def)
    show ?thesis
    proof (cases "z \<in> {x, y} \<and> w \<in> {x, y}")
      case True
      then show ?thesis using y that(3) by (auto simp: disjoint_blocks_def)
    next
      case False
      then show ?thesis using one that by auto
    qed
  qed
  show ?thesis using new l bnd dis sum by (auto simp: laid_out_def)
qed

section \<open>Header fields and the bytes they are in\<close>

definition mh_used :: "bytes \<Rightarrow> u32 \<Rightarrow> bool" where
  "mh_used m p \<longleftrightarrow> mh_state m p AND KMALLOC_USED \<noteq> 0"

lemmas set_field_defs = set_size_def set_magic_def set_state_def
lemmas field_defs = mh_size_def mh_magic_def mh_state_def

lemma set_fields_same [simp]:
  "mh_size (set_size p v m) p = v" "mh_size (set_magic p v m) p = mh_size m p"
  "mh_size (set_state p w m) p = mh_size m p"
  "mh_magic (set_size p v m) p = mh_magic m p" "mh_magic (set_magic p v m) p = v"
  "mh_magic (set_state p w m) p = mh_magic m p"
  "mh_state (set_size p v m) p = mh_state m p" "mh_state (set_magic p v m) p = mh_state m p"
  "mh_state (set_state p w m) p = w"
  by (simp_all add: field_defs set_field_defs mem_frame apart_def)

lemma unat_add_small: "unat (x :: u32) + k \<le> 4294967296 \<Longrightarrow> 0 < k \<Longrightarrow> n < k \<Longrightarrow>
    unat (x + of_nat n) = unat x + n"
  using unat_plus_small [of x "of_nat n"] by (simp add: unat_of_nat)

lemma in_link: "unat x + 20 \<le> 4294967296 \<Longrightarrow> b \<in> span x 8 \<longleftrightarrow> unat x \<le> unat b \<and> unat b < unat x + 8"
  by (rule span_nat_iff) simp

lemma in_header:
  assumes "unat x + 20 \<le> 4294967296"
  shows "b \<in> span (x + 8) 9 \<longleftrightarrow> unat x + 8 \<le> unat b \<and> unat b < unat x + 17"
  using unat_add_small [of x 20 8] assms span_nat_iff [of "x + 8" 9 b] by (simp add: add.commute)

lemma in_payload:
  assumes "unat x + 20 + n \<le> 4294967296" "b \<in> span (x + 20) n"
  shows "unat x + 20 \<le> unat b \<and> unat b < unat x + 20 + n"
proof -
  have "n \<noteq> 0" using assms(2) by (auto simp: span_iff)
  then have "unat (x + 20) = unat x + 20" using unat_add_small [of x "21" 20] assms(1) by simp
  then show ?thesis using span_nat_iff [of "x + 20" n b] assms by simp
qed

lemma set_fields_outside:
  assumes "b \<notin> span (p + 8) 9"
  shows "set_size p v m b = m b" "set_magic p v m b = m b" "set_state p w m b = m b"
proof -
  have s: "b \<notin> span (p + 8 + i) n'" if "unat i + n' \<le> 9" for i n'
    using span_offset [of b "p + 8" i n' 9] that assms by auto
  have "b \<notin> span (p + 12) 4" "b \<notin> span (p + 8) 4" "b \<noteq> p + 16"
    using s [of 4 4] s [of 0 4] s [of 8 1] self_in_span [of 1 b] by (auto simp: add.assoc)
  then show "set_size p v m b = m b" "set_magic p v m b = m b" "set_state p w m b = m b"
    by (simp_all add: set_field_defs store32_outside store8_outside)
qed

lemma fields_cong:
  assumes "\<And>b. b \<in> span (p + 8) 9 \<Longrightarrow> m' b = m b"
  shows "mh_size m' p = mh_size m p" "mh_magic m' p = mh_magic m p" "mh_state m' p = mh_state m p"
    "mh_used m' p = mh_used m p"
proof -
  have s: "b \<in> span (p + 8) 9" if "b \<in> span (p + 8 + i) n'" "unat i + n' \<le> 9" for b i n'
    using span_offset [OF that] by simp
  show "mh_size m' p = mh_size m p"
    unfolding mh_size_def by (rule load32_cong) (use assms s [of _ 4 4] in \<open>simp add: add.assoc\<close>)
  show "mh_magic m' p = mh_magic m p"
    unfolding mh_magic_def by (rule load32_cong) (use assms s [of _ 0 4] in simp)
  show "mh_state m' p = mh_state m p"
    unfolding mh_state_def using assms s [of "p + 16" 8 1] by (simp add: add.assoc span_iff)
  then show "mh_used m' p = mh_used m p" by (simp add: mh_used_def)
qed

text \<open>A push changes the links of the new node, of the head and of the nodes of the ring only.\<close>

lemma list_add_outside:
  assumes "dlist m h xs" "b \<notin> span new 8" "\<And>x. x \<in> set (h # xs) \<Longrightarrow> b \<notin> span x 8"
  shows "list_add new h m b = m b"
proof -
  have n: "list_next m h \<in> set (h # xs)"
    using dlist_next [OF assms(1)] by (cases xs) simp_all
  have lo: "b \<notin> span y 4" if "b \<notin> span y 8" for y using that by (simp add: span_iff)
  have hi: "b \<notin> span (y + 4) 4" if "b \<notin> span y 8" for y using span_offset [of b y 4 4 8] that by auto
  show ?thesis
    using assms(2) assms(3) [OF n] assms(3) [of h]
    by (simp add: list_add_def list_add_between_def set_next_def set_prev_def store32_outside lo hi)
qed

section \<open>The invariant\<close>

text \<open>The chain head lies outside the heap and does not hold address 16.\<close>

definition head_clear :: "u32 \<Rightarrow> u32 \<Rightarrow> u32 \<Rightarrow> bool" where
  "head_clear h base lim \<longleftrightarrow>
     17 \<le> unat base \<and> apart h 8 16 1 \<and> apart h 8 base (unat lim - unat base)"

definition heap_shape :: "'a heap_scheme \<Rightarrow> u32 list \<Rightarrow> bool" where
  "heap_shape s xs \<longleftrightarrow>
     dlist (mem s) (chain_hd s) xs
     \<and> laid_out (unat (heap_base s)) (unat (heap_brk s)) (mh_size (mem s)) xs
     \<and> (\<forall>x \<in> set xs. mh_magic (mem s) x = 0xBEEF)
     \<and> unat (heap_brk s) \<le> unat (brk_max s)
     \<and> head_clear (chain_hd s) (heap_base s) (brk_max s)"

definition heap_wf :: "'a heap_scheme \<Rightarrow> u32 list \<Rightarrow> bool" where
  "heap_wf s xs \<longleftrightarrow>
     heap_shape s xs
     \<and> total_blocks s = of_nat (length xs)
     \<and> used_blocks s = of_nat (length (filter (mh_used (mem s)) xs))"

text \<open>
  What an operation on the chain may change: the head, address 16 and the headers. \<open>keeps\<close> says that
  the blocks of a set stay as they were.
\<close>

definition chain_frame :: "u32 \<Rightarrow> u32 list \<Rightarrow> bytes \<Rightarrow> bytes \<Rightarrow> bool" where
  "chain_frame h xs m m' \<longleftrightarrow>
     (\<forall>b. b \<notin> span h 8 \<and> b \<noteq> 16 \<and> (\<forall>x \<in> set xs. b \<notin> span x 20) \<longrightarrow> m' b = m b)"

definition keeps :: "u32 set \<Rightarrow> bytes \<Rightarrow> bytes \<Rightarrow> bool" where
  "keeps X m m' \<longleftrightarrow> (\<forall>x \<in> X. mh_size m' x = mh_size m x \<and> mh_used m' x = mh_used m x)"

lemma apart_subrange:
  assumes "apart a n b k" "unat b \<le> unat x" "unat x + j \<le> unat b + k" "unat b + k \<le> 4294967296" "0 < j"
  shows "apart a n x j"
  using assms unat_less_2p32 [of a] unat_less_2p32 [of b] unat_less_2p32 [of x]
  by (auto simp: apart_def unat_minus_cases split: if_splits)

lemma head_apart_block:
  assumes hc: "head_clear h base lim" and "laid_out (unat base) hi sz xs" "hi \<le> unat lim" "x \<in> set xs"
  shows "apart h 8 x 20"
proof -
  note b = laid_out_bounds [OF assms(2,4)]
  have a: "apart h 8 base (unat lim - unat base)" using hc by (simp add: head_clear_def)
  show ?thesis
    by (rule apart_subrange [OF a]) (use b assms(3) unat_less_2p32 [of lim] in linarith)+
qed

lemma blocks_nodes_apart:
  assumes hc: "head_clear h base lim" and l: "laid_out (unat base) hi sz xs" and hi: "hi \<le> unat lim"
  shows "nodes_apart (set (h # xs))" "h \<notin> set xs"
proof -
  have h: "apart h 8 x 8" if "x \<in> set xs" for x
    using head_apart_block [OF hc l hi that] by (auto simp: apart_def)
  from this [of h] show "h \<notin> set xs" by (auto simp: apart_def)
  have x: "apart x 8 y 8" if "x \<in> set xs" "y \<in> set xs" "x \<noteq> y" for x y
    using laid_out_disjoint [OF l that] laid_out_bounds [OF l that(1)] laid_out_bounds [OF l that(2)]
      hi unat_less_2p32 [of lim]
    unfolding disjoint_blocks_def extent_def
    by (elim disjE) (rule apart_natI apart_natI2; linarith)+
  show "nodes_apart (set (h # xs))"
    unfolding nodes_apart_def using h x apart_sym by (metis set_ConsD)
qed

text \<open>A byte of a block beyond its links is in no other link, nor at address 16.\<close>

lemma body_byte:
  assumes hc: "head_clear h base lim" and l: "laid_out (unat base) hi sz xs" and hi: "hi \<le> unat lim"
    and x: "x \<in> set xs" and b: "unat x + 8 \<le> unat b" "unat b < unat x + extent sz x"
  shows "b \<notin> span h 8" "b \<noteq> 16" "y \<in> set xs \<Longrightarrow> b \<notin> span y 8"
    "y \<in> set xs \<Longrightarrow> y \<noteq> x \<Longrightarrow> b \<notin> span (y + 8) 9"
proof -
  note bx = laid_out_bounds [OF l x] and lim = unat_less_2p32 [of lim]
  have "17 \<le> unat base" using hc by (simp add: head_clear_def)
  then have "unat b \<noteq> 16" using bx b by linarith
  then show "b \<noteq> 16" by auto
  have a: "apart h 8 base (unat lim - unat base)" using hc by (simp add: head_clear_def)
  have "b \<in> span base (unat lim - unat base)"
    using bx b hi lim by (subst span_nat_iff) (auto simp: extent_def)
  then show "b \<notin> span h 8" using apart_disjoint a apart_sym by blast
  have ly: "unat y + 20 \<le> 4294967296" if "y \<in> set xs" for y
    using laid_out_bounds [OF l that] hi lim by linarith
  show "b \<notin> span y 8" if "y \<in> set xs"
  proof (cases "y = x")
    case True
    then show ?thesis using b in_link [OF ly [OF that]] by auto
  next
    case False
    with laid_out_disjoint [OF l that x] b in_link [OF ly [OF that]]
    show ?thesis by (auto simp: disjoint_blocks_def extent_def)
  qed
  show "b \<notin> span (y + 8) 9" if "y \<in> set xs" "y \<noteq> x"
    using laid_out_disjoint [OF l that(1) x that(2)] b in_header [OF ly [OF that(1)]]
    by (auto simp: disjoint_blocks_def extent_def)
qed

lemma used_after_set_state [simp]:
  "mh_used (set_state p (w OR KMALLOC_USED) m) p" "\<not> mh_used (set_state p (w AND KMALLOC_FREE) m) p"
proof -
  have "bit ((w OR KMALLOC_USED) AND KMALLOC_USED) 0" by (simp add: KMALLOC_USED_def bit_simps)
  then show "mh_used (set_state p (w OR KMALLOC_USED) m) p"
    unfolding mh_used_def set_fields_same by (intro notI) simp
qed (simp add: mh_used_def KMALLOC_FREE_def)

text \<open>
  The step that \<^verbatim>\<open>kmalloc\<close> takes on the chain when it makes a block \<open>new\<close>: memory \<open>m1\<close> has the
  new header, agrees with \<open>m\<close> on the links, and the block is pushed on the front.
\<close>

lemma push_block:
  assumes d: "dlist m h xs" and links: "\<And>x b. x \<in> set (h # xs) \<Longrightarrow> b \<in> span x 8 \<Longrightarrow> m1 b = m b"
    and l: "laid_out (unat base) hi (mh_size m1) (new # xs)"
    and hc: "head_clear h base lim" and hi: "hi \<le> unat lim"
  shows "dlist (list_add new h m1) h (new # xs)"
    and "x \<in> set (new # xs) \<Longrightarrow> mh_size (list_add new h m1) x = mh_size m1 x"
    and "x \<in> set (new # xs) \<Longrightarrow> mh_magic (list_add new h m1) x = mh_magic m1 x"
    and "x \<in> set (new # xs) \<Longrightarrow> mh_state (list_add new h m1) x = mh_state m1 x"
    and "b \<notin> span h 8 \<Longrightarrow> (\<And>x. x \<in> set (new # xs) \<Longrightarrow> b \<notin> span x 8) \<Longrightarrow> list_add new h m1 b = m1 b"
proof -
  have d1: "dlist m1 h xs" using d links by (rule dlist_frame)
  have na: "nodes_apart (set (h # new # xs))" and nh: "h \<notin> set (new # xs)"
    using blocks_nodes_apart [OF hc l hi] by simp_all
  have fresh: "new \<notin> set (h # xs)" using l nh by (auto simp: laid_out_def)
  show "dlist (list_add new h m1) h (new # xs)"
    using na by (intro dlist_add [OF d1 fresh]) (simp add: insert_commute)
  show out: "list_add new h m1 b = m1 b"
    if "b \<notin> span h 8" "\<And>x. x \<in> set (new # xs) \<Longrightarrow> b \<notin> span x 8" for b
    using that by (intro list_add_outside [OF d1]) auto
  have "list_add new h m1 b = m1 b" if x: "x \<in> set (new # xs)" and b: "b \<in> span (x + 8) 9" for x b
  proof -
    have "unat x + 20 \<le> 4294967296"
      using laid_out_bounds [OF l x] hi unat_less_2p32 [of lim] by linarith
    then have "unat x + 8 \<le> unat b" "unat b < unat x + extent (mh_size m1) x"
      using b in_header [of x b] by (auto simp: extent_def)
    from body_byte [OF hc l hi x this] show ?thesis by (intro out) auto
  qed
  then show "mh_size (list_add new h m1) x = mh_size m1 x"
    "mh_magic (list_add new h m1) x = mh_magic m1 x" "mh_state (list_add new h m1) x = mh_state m1 x"
    if "x \<in> set (new # xs)" for x
    using that fields_cong [of x "list_add new h m1" m1] by auto
qed

text \<open>Setting a header field of one block: the links, and the fields of the other blocks, stay.\<close>

lemma header_store:
  assumes out: "\<And>b. b \<notin> span (p + 8) 9 \<Longrightarrow> m' b = m b" and p: "p \<in> set xs"
    and l: "laid_out (unat base) hi sz xs" and hc: "head_clear h base lim" and hi: "hi \<le> unat lim"
  shows "x \<in> set (h # xs) \<Longrightarrow> b \<in> span x 8 \<Longrightarrow> m' b = m b"
    and "y \<in> set xs \<Longrightarrow> y \<noteq> p \<Longrightarrow> mh_size m' y = mh_size m y"
    and "y \<in> set xs \<Longrightarrow> y \<noteq> p \<Longrightarrow> mh_magic m' y = mh_magic m y"
    and "y \<in> set xs \<Longrightarrow> y \<noteq> p \<Longrightarrow> mh_used m' y = mh_used m y"
proof -
  have le: "unat y + 20 \<le> 4294967296" "unat y + 17 \<le> unat y + extent sz y" if "y \<in> set xs" for y
    using laid_out_bounds [OF l that] hi unat_less_2p32 [of lim] by (auto simp: extent_def)
  have body: "unat y + 8 \<le> unat b" "unat b < unat y + extent sz y" if "y \<in> set xs" "b \<in> span (y + 8) 9" for y b
    using that in_header [of y b] le [of y] by auto
  show "m' b = m b" if "x \<in> set (h # xs)" "b \<in> span x 8" for x b
  proof (rule out)
    show "b \<notin> span (p + 8) 9" using body_byte(1,3) [OF hc l hi p body [OF p]] that by auto
  qed
  have "m' b = m b" if "y \<in> set xs" "y \<noteq> p" "b \<in> span (y + 8) 9" for y b
    using out body_byte(4) [OF hc l hi that(1) body [OF that(1,3)] p] that(2) by auto
  then show "mh_size m' y = mh_size m y" "mh_magic m' y = mh_magic m y" "mh_used m' y = mh_used m y"
    if "y \<in> set xs" "y \<noteq> p" for y
    using that fields_cong [of y m' m] by auto
qed

section \<open>Growing, splitting and marking\<close>

lemma link_in_header: "b \<in> span x 8 \<Longrightarrow> b \<in> span x 20"
  using span_mono [of b x 8 20] by simp

lemma fields_in_header: "b \<in> span (x + 8) 9 \<Longrightarrow> b \<in> span x 20"
  using span_offset [of b x 8 9 20] by simp

lemma mark_block:
  assumes h: "heap_shape s xs" and p: "p \<in> set xs"
  shows "heap_shape (s\<lparr>mem := set_state p w (mem s)\<rparr>) xs"
    and "keeps (set xs - {p}) (mem s) (set_state p w (mem s))"
    and "mh_size (set_state p w (mem s)) p = mh_size (mem s) p"
    and "chain_frame (chain_hd s) xs (mem s) (set_state p w (mem s))"
proof -
  let ?m = "set_state p w (mem s)"
  have d: "dlist (mem s) (chain_hd s) xs"
    and lay: "laid_out (unat (heap_base s)) (unat (heap_brk s)) (mh_size (mem s)) xs"
    and hi: "unat (heap_brk s) \<le> unat (brk_max s)"
    and hc: "head_clear (chain_hd s) (heap_base s) (brk_max s)"
    using h by (simp_all add: heap_shape_def)
  note hs = header_store [OF set_fields_outside(3) p lay hc hi]
  have sz: "mh_size ?m y = mh_size (mem s) y" if "y \<in> set xs" for y
    using hs(2) [OF _ that] by (cases "y = p") simp_all
  have mg: "mh_magic ?m y = mh_magic (mem s) y" if "y \<in> set xs" for y
    using hs(3) [OF _ that] by (cases "y = p") simp_all
  have "dlist ?m (chain_hd s) xs" using d hs(1) by (rule dlist_frame)
  moreover have "laid_out (unat (heap_base s)) (unat (heap_brk s)) (mh_size ?m) xs"
    using lay laid_out_cong [of xs "mh_size ?m" "mh_size (mem s)"] sz by simp
  ultimately show "heap_shape (s\<lparr>mem := ?m\<rparr>) xs"
    using h mg by (simp add: heap_shape_def)
  show "keeps (set xs - {p}) (mem s) ?m" using hs(2,4) by (simp add: keeps_def)
  show "mh_size ?m p = mh_size (mem s) p" by simp
  show "chain_frame (chain_hd s) xs (mem s) ?m"
    unfolding chain_frame_def using p by (auto intro!: set_fields_outside(3) dest: fields_in_header)
qed

text \<open>The stores of the growing branch: the header at the break, and the stray byte at 16.\<close>

definition grow_stores :: "u32 \<Rightarrow> u32 \<Rightarrow> bytes \<Rightarrow> bytes" where
  "grow_stores p n m = set_state 0 0 (set_magic p 0xBEEF (set_size p n m))"

lemma grow_stores_outside: "b \<noteq> 16 \<Longrightarrow> b \<notin> span (p + 8) 9 \<Longrightarrow> grow_stores p n m b = m b"
  by (simp add: grow_stores_def set_fields_outside set_state_def store8_outside)

lemma grow_stores_new:
  assumes "17 \<le> unat p" "unat p + 20 \<le> 4294967296"
  shows "mh_size (grow_stores p n m) p = n" "mh_magic (grow_stores p n m) p = 0xBEEF"
    "mh_state (grow_stores p n m) p = mh_state m p" "grow_stores p n m 16 = 0"
proof -
  let ?ma = "set_magic p 0xBEEF (set_size p n m)"
  have w: "grow_stores p n m b = ?ma b" if "b \<in> span (p + 8) 8" for b
  proof -
    have "unat (p + 8) = unat p + 8" using unat_add_small [of p 20 8] assms(2) by simp
    then have "b \<noteq> 16" using that assms span_nat_iff [of "p + 8" 8 b] by auto
    then show ?thesis by (simp add: grow_stores_def set_state_def store8_outside)
  qed
  have "b \<in> span (p + 8) 8" if "b \<in> span (p + 12) 4" for b
    using that span_offset [of b "p + 8" 4 4 8] by (simp add: add.assoc)
  then have "mh_size (grow_stores p n m) p = mh_size ?ma p"
    unfolding mh_size_def by (intro load32_cong w)
  moreover have "mh_magic (grow_stores p n m) p = mh_magic ?ma p"
    unfolding mh_magic_def by (intro load32_cong w) (simp add: span_iff)
  ultimately show "mh_size (grow_stores p n m) p = n" "mh_magic (grow_stores p n m) p = 0xBEEF" by simp_all
  have "p + 16 \<noteq> 16" using assms(1) by auto
  then have "mh_state (grow_stores p n m) p = mh_state ?ma p"
    by (simp add: grow_stores_def mh_state_def set_state_def store8_outside)
  then show "mh_state (grow_stores p n m) p = mh_state m p" by simp
  show "grow_stores p n m 16 = 0" by (simp add: grow_stores_def set_state_def)
qed

text \<open>The stores leave the links and the headers of the blocks that are there.\<close>

lemma grow_stores_old:
  fixes n :: u32
  assumes h: "heap_shape s xs" and top: "unat (heap_brk s) + 20 \<le> unat (brk_max s)"
  defines "m \<equiv> grow_stores (heap_brk s) n (mem s)"
  shows "x \<in> set (chain_hd s # xs) \<Longrightarrow> b \<in> span x 8 \<Longrightarrow> m b = mem s b"
    and "x \<in> set xs \<Longrightarrow> mh_size m x = mh_size (mem s) x \<and> mh_magic m x = mh_magic (mem s) x
      \<and> mh_used m x = mh_used (mem s) x"
proof -
  note l = h [unfolded heap_shape_def]
  let ?lo = "unat (heap_base s)" and ?h = "chain_hd s" and ?p = "heap_brk s"
  have mx: "unat (brk_max s) \<le> 4294967296" using unat_less_2p32 [of "brk_max s"] by simp
  then have lp: "unat ?p + 20 \<le> 4294967296" using top by simp
  have lo: "?lo \<le> unat ?p" using l by (auto simp: laid_out_def)
  have low: "m b = mem s b" if "unat b < unat ?p" "b \<noteq> 16" for b
    unfolding m_def using that in_header [OF lp, of b] by (intro grow_stores_outside) auto
  have below: "unat x + 20 \<le> unat ?p" "?lo \<le> unat x" if "x \<in> set xs" for x
    using laid_out_bounds [of ?lo "unat ?p" "mh_size (mem s)" xs x] l that by auto
  show "m b = mem s b" if x: "x \<in> set (?h # xs)" "b \<in> span x 8" for x b
  proof (cases "x = ?h")
    case True
    have a: "apart ?h 8 (heap_base s) (unat (brk_max s) - ?lo)" and a16: "apart ?h 8 16 1"
      using l by (auto simp: head_clear_def)
    have "apart ?h 8 (?p + 8) 9"
      using lo top mx unat_add_small [of ?p 20 8] lp by (intro apart_subrange [OF a]) auto
    with a16 show ?thesis unfolding m_def using True x(2) apart_disjoint
      by (intro grow_stores_outside) (auto dest: apart_disjoint simp: span_iff)
  next
    case False
    then show ?thesis using below [of x] in_link [of x b] x lp l by (intro low) (auto simp: head_clear_def)
  qed
  show "mh_size m x = mh_size (mem s) x \<and> mh_magic m x = mh_magic (mem s) x \<and> mh_used m x = mh_used (mem s) x"
    if x: "x \<in> set xs" for x
  proof -
    have "m b = mem s b" if "b \<in> span (x + 8) 9" for b
      using below [OF x] in_header [of x b] that lp l by (intro low) (auto simp: head_clear_def)
    from fields_cong [of x m "mem s", OF this] show ?thesis by simp
  qed
qed

lemma kmalloc_grow_ok:
  assumes h: "heap_shape s xs" and n: "unat (heap_brk s) + 20 + unat n < unat (brk_max s)"
  defines "p \<equiv> heap_brk s"
  shows "\<exists>m. kmalloc_grow n s =
      Some (p, s\<lparr>heap_brk := p + 20 + n, mem := m, total_blocks := total_blocks s + 1\<rparr>)
    \<and> heap_shape (s\<lparr>heap_brk := p + 20 + n, mem := m, total_blocks := total_blocks s + 1\<rparr>) (p # xs)
    \<and> p \<notin> set xs \<and> mh_size m p = n \<and> keeps (set xs) (mem s) m
    \<and> chain_frame (chain_hd s) (p # xs) (mem s) m
    \<and> m 16 = 0 \<and> mh_state m p = mh_state (mem s) p"
proof -
  note l = h [unfolded heap_shape_def]
  let ?lo = "unat (heap_base s)" and ?h = "chain_hd s"
  let ?mb = "grow_stores p n (mem s)"
  let ?m = "list_add p ?h ?mb"
  have top: "unat (brk_max s) \<le> 4294967295" using unat_less_2p32 [of "brk_max s"] by simp
  have e: "unat (20 + n) = 20 + unat n" using n top unat_plus_small [of 20 n] by simp
  have brk: "unat (p + (20 + n)) = unat p + 20 + unat n" "20 + n \<noteq> 0"
    using n top e unat_plus_small [of p "20 + n"] by (auto simp: p_def)
  have lo: "?lo \<le> unat p" "17 \<le> unat p" using l by (auto simp: laid_out_def head_clear_def p_def)
  have lp: "unat p + 20 \<le> 4294967296" using n top by (simp add: p_def)
  have pm: "p \<notin> set xs"
    using laid_out_bounds [of ?lo "unat p" "mh_size (mem s)" xs p] l by (auto simp: p_def)
  have "unat (heap_brk s) + 20 \<le> unat (brk_max s)" using n by simp
  note old = grow_stores_old [OF h this, where n = n, folded p_def] and new = grow_stores_new [OF lo(2) lp, of n "mem s"]
  have fields: "mh_size ?mb x = mh_size (mem s) x" "mh_magic ?mb x = mh_magic (mem s) x"
    "mh_used ?mb x = mh_used (mem s) x" if "x \<in> set xs" for x using old(2) [OF that] by simp_all
  have "laid_out ?lo (unat p) (mh_size ?mb) xs"
    using l laid_out_cong [of xs "mh_size ?mb" "mh_size (mem s)"] fields by (simp add: p_def)
  from laid_out_extend [OF this refl lo(1)]
  have lay: "laid_out ?lo (unat (p + 20 + n)) (mh_size ?mb) (p # xs)"
    using brk new(1) by (simp add: extent_def add.assoc)
  have hi: "unat (p + 20 + n) \<le> unat (brk_max s)" using brk n by (simp add: p_def add.assoc)
  have d: "dlist (mem s) ?h xs" and hc: "head_clear ?h (heap_base s) (brk_max s)" using l by auto
  note pb = push_block [OF d old(1) lay hc hi]
  have grow: "kmalloc_grow n s =
      Some (p, s\<lparr>heap_brk := p + 20 + n, mem := ?m, total_blocks := total_blocks s + 1\<rparr>)"
    using n brk by (simp add: kmalloc_grow_def grow_stores_def ksbrk_def kbrk_def SIZEOF_MALLOC_HEAD_def p_def
        word_le_nat_alt add.assoc)
  have "laid_out ?lo (unat (p + 20 + n)) (mh_size ?m) (p # xs)"
    using lay pb(2) laid_out_cong [of "p # xs" "mh_size ?m" "mh_size ?mb"] by simp
  then have "heap_shape (s\<lparr>heap_brk := p + 20 + n, mem := ?m, total_blocks := total_blocks s + 1\<rparr>) (p # xs)"
    using pb(1,3) l hi hc new fields by (simp add: heap_shape_def)
  moreover have "mh_size ?m p = n" using pb(2) new by simp
  moreover have "keeps (set xs) (mem s) ?m"
    using pb(2,4) fields by (simp add: keeps_def mh_used_def)
  moreover have "chain_frame ?h (p # xs) (mem s) ?m"
    unfolding chain_frame_def
  proof (intro allI impI)
    fix b assume b: "b \<notin> span ?h 8 \<and> b \<noteq> 16 \<and> (\<forall>x \<in> set (p # xs). b \<notin> span x 20)"
    then have "?m b = ?mb b" using link_in_header by (intro pb(5)) blast+
    also have "\<dots> = mem s b" using b fields_in_header by (intro grow_stores_outside) auto
    finally show "?m b = mem s b" .
  qed
  moreover have "?m 16 = ?mb 16"
  proof (rule pb(5))
    show "16 \<notin> span ?h 8" using hc apart_disjoint by (auto simp: head_clear_def span_iff apart_def)
    fix x assume "x \<in> set (p # xs)"
    then have "17 \<le> unat x" "unat x + 20 \<le> 4294967296"
      using lo lp l top laid_out_bounds [of ?lo "unat p" "mh_size (mem s)" xs x] n
      by (auto simp: head_clear_def p_def)
    then show "16 \<notin> span x 8" using in_link [of x 16] by simp
  qed
  moreover have "mh_state ?m p = mh_state (mem s) p" using pb(4) new(3) by simp
  ultimately show ?thesis using grow pm new(4) by (intro exI [of _ ?m]) simp
qed

text \<open>The stores of the split: the header of the rest at \<open>y\<close>, and the new size of the block.\<close>

definition rest_stores :: "u32 \<Rightarrow> u32 \<Rightarrow> bytes \<Rightarrow> bytes" where
  "rest_stores y k m = set_state y 0 (set_magic y 0xBEEF (set_size y k m))"

definition split_stores :: "u32 \<Rightarrow> u32 \<Rightarrow> bytes \<Rightarrow> bytes" where
  "split_stores p n m = set_size p n (rest_stores (p + 20 + n) (mh_size m p - n - 20) m)"

lemma split_stores_outside:
  "b \<notin> span (p + 20 + n + 8) 9 \<Longrightarrow> b \<notin> span (p + 8) 9 \<Longrightarrow> split_stores p n m b = m b"
  by (simp add: split_stores_def rest_stores_def set_fields_outside)

lemma split_room:
  assumes h: "heap_shape s xs" and p: "p \<in> set xs" and big: "unat n + 28 \<le> unat (mh_size (mem s) p)"
  shows "unat (p + 20 + n) = unat p + 20 + unat n" "unat (p + 20 + n) + 20 \<le> 4294967296"
    "b \<in> span (p + 20 + n + 8) 9 \<Longrightarrow> unat p + 28 \<le> unat b \<and> unat b < unat p + extent (mh_size (mem s)) p"
    "b \<in> span (p + 8) 9 \<Longrightarrow> unat p + 8 \<le> unat b \<and> unat b < unat p + 17"
proof -
  have l: "laid_out (unat (heap_base s)) (unat (heap_brk s)) (mh_size (mem s)) xs"
    and hi: "unat (heap_brk s) \<le> unat (brk_max s)" using h by (simp_all add: heap_shape_def)
  note pb = laid_out_bounds [OF l p] and lim = unat_less_2p32 [of "brk_max s"]
  show yu: "unat (p + 20 + n) = unat p + 20 + unat n"
    using pb hi lim big unat_plus_small [of p 20] unat_plus_small [of "p + 20" n] by simp
  show yb: "unat (p + 20 + n) + 20 \<le> 4294967296" using yu pb hi lim big by linarith
  show "unat p + 28 \<le> unat b \<and> unat b < unat p + extent (mh_size (mem s)) p" if "b \<in> span (p + 20 + n + 8) 9"
    using that in_header [OF yb, of b] yu big by (auto simp: extent_def)
  show "unat p + 8 \<le> unat b \<and> unat b < unat p + 17" if "b \<in> span (p + 8) 9"
    using that in_header [of p b] pb hi lim by auto
qed

lemma split_stores_fields:
  assumes h: "heap_shape s xs" and p: "p \<in> set xs" and big: "unat n + 28 \<le> unat (mh_size (mem s) p)"
  defines "y \<equiv> p + 20 + n" and "m \<equiv> split_stores p n (mem s)"
  shows "mh_size m y = mh_size (mem s) p - n - 20" "mh_magic m y = 0xBEEF" "mh_state m y = 0"
    "mh_size m p = n" "mh_magic m p = mh_magic (mem s) p" "mh_used m p = mh_used (mem s) p"
    "x \<in> set xs \<Longrightarrow> x \<noteq> p \<Longrightarrow> mh_size m x = mh_size (mem s) x \<and> mh_magic m x = mh_magic (mem s) x
      \<and> mh_used m x = mh_used (mem s) x"
    "x \<in> set (chain_hd s # xs) \<Longrightarrow> b \<in> span x 8 \<Longrightarrow> m b = mem s b"
proof -
  let ?lo = "unat (heap_base s)" and ?hi = "unat (heap_brk s)" and ?h = "chain_hd s"
  let ?ma = "rest_stores y (mh_size (mem s) p - n - 20) (mem s)"
  have l: "laid_out ?lo ?hi (mh_size (mem s)) xs"
    and hi: "?hi \<le> unat (brk_max s)" and hc: "head_clear ?h (heap_base s) (brk_max s)"
    using h by (simp_all add: heap_shape_def)
  have lim: "?hi < 4294967296" by (rule unat_less_2p32)
  have ext: "unat p + 17 \<le> unat p + extent (mh_size (mem s)) p" by (simp add: extent_def)
  note sr = split_room [OF h p big, folded y_def]
  have cross: "b \<notin> span (y + 8) 9" if "b \<in> span (p + 8) 9" for b
    using sr(3) [of b] sr(4) [OF that] by linarith
  then have "?ma b = mem s b" if "b \<in> span (p + 8) 9" for b
    using that by (simp add: rest_stores_def set_fields_outside)
  from fields_cong [of p ?ma "mem s", OF this]
  show "mh_magic m p = mh_magic (mem s) p" "mh_used m p = mh_used (mem s) p"
    by (simp_all add: m_def split_stores_def mh_used_def flip: y_def)
  show "mh_size m p = n" by (simp add: m_def split_stores_def)
  have "m b = ?ma b" if "b \<in> span (y + 8) 9" for b
  proof -
    have "b \<notin> span (p + 8) 9" using cross [of b] that by blast
    then show ?thesis by (simp add: m_def split_stores_def set_fields_outside flip: y_def)
  qed
  from fields_cong [of y m ?ma, OF this]
  show "mh_size m y = mh_size (mem s) p - n - 20" "mh_magic m y = 0xBEEF" "mh_state m y = 0"
    by (simp_all add: rest_stores_def)
  show "mh_size m x = mh_size (mem s) x \<and> mh_magic m x = mh_magic (mem s) x \<and> mh_used m x = mh_used (mem s) x"
    if x: "x \<in> set xs" "x \<noteq> p"
  proof -
    have "m b = mem s b" if bx: "b \<in> span (x + 8) 9" for b
      unfolding m_def
    proof (rule split_stores_outside)
      have xb: "unat x + 8 \<le> unat b" "unat b < unat x + extent (mh_size (mem s)) x"
        using in_header [of x b] bx laid_out_bounds [OF l x(1)] lim by (auto simp: extent_def)
      show "b \<notin> span (p + 8) 9" using body_byte(4) [OF hc l hi x(1) xb p] x(2) by simp
      show "b \<notin> span (p + 20 + n + 8) 9"
        using sr(3) [of b] laid_out_disjoint [OF l x(1) p x(2)] xb unfolding disjoint_blocks_def y_def by linarith
    qed
    from fields_cong [of x m "mem s", OF this] show ?thesis by simp
  qed
  show "m b = mem s b" if x: "x \<in> set (?h # xs)" "b \<in> span x 8"
    unfolding m_def
  proof (rule split_stores_outside)
    have out: "\<not> (unat p + 8 \<le> unat b \<and> unat b < unat p + extent (mh_size (mem s)) p)"
      using body_byte(1,3) [OF hc l hi p, of b] x by auto
    show "b \<notin> span (p + 20 + n + 8) 9" using sr(3) [of b] out unfolding y_def by linarith
    show "b \<notin> span (p + 8) 9" using sr(4) [of b] out ext by linarith
  qed
qed

lemma kmalloc_split_ok:
  assumes h: "heap_shape s xs" and p: "p \<in> set xs"
    and big: "unat n + 28 \<le> unat (mh_size (mem s) p)"
  defines "y \<equiv> p + 20 + n"
  shows "\<exists>m. kmalloc_split p n s = s\<lparr>mem := m, total_blocks := total_blocks s + 1\<rparr>
    \<and> heap_shape (s\<lparr>mem := m, total_blocks := total_blocks s + 1\<rparr>) (y # xs)
    \<and> y \<notin> set xs \<and> mh_size m p = n \<and> mh_size m y = mh_size (mem s) p - n - 20
    \<and> \<not> mh_used m y \<and> mh_used m p = mh_used (mem s) p \<and> keeps (set xs - {p}) (mem s) m
    \<and> chain_frame (chain_hd s) (y # xs) (mem s) m"
proof -
  let ?lo = "unat (heap_base s)" and ?hi = "unat (heap_brk s)" and ?h = "chain_hd s"
  let ?z = "mh_size (mem s) p" and ?mb = "split_stores p n (mem s)"
  let ?m = "list_add y ?h ?mb"
  have d: "dlist (mem s) ?h xs" and l: "laid_out ?lo ?hi (mh_size (mem s)) xs"
    and mg: "\<And>x. x \<in> set xs \<Longrightarrow> mh_magic (mem s) x = 0xBEEF"
    and hi: "?hi \<le> unat (brk_max s)" and hc: "head_clear ?h (heap_base s) (brk_max s)"
    using h by (simp_all add: heap_shape_def)
  note yu = split_room(1) [OF h p big, folded y_def] and sf = split_stores_fields [OF h p big, folded y_def]
  have zu: "unat (?z - n - 20) = unat ?z - unat n - 20" using big by (simp add: unat_minus_cases)
  have ne: "y \<noteq> p" using yu by auto
  have gap: "unat x + extent (mh_size (mem s)) x \<le> unat y \<or> unat y + 20 + (unat ?z - unat n - 20) \<le> unat x"
    if "x \<in> set xs" "x \<noteq> p" for x
    using laid_out_disjoint [OF l that(1) p that(2)] yu big unfolding disjoint_blocks_def extent_def
    by linarith
  from this [of y] ne have new: "y \<notin> set xs" by (auto simp: extent_def)
  have lay: "laid_out ?lo ?hi (mh_size ?mb) (y # xs)"
    using yu zu big sf(1,4,7) by (intro laid_out_split [OF l p]) (simp_all add: extent_def)
  note pbl = push_block [OF d sf(8) lay hc hi]
  have "?z - n \<ge> 28" using big by (simp add: word_le_nat_alt unat_minus_cases)
  then have split: "kmalloc_split p n s = s\<lparr>mem := ?m, total_blocks := total_blocks s + 1\<rparr>"
    by (simp add: kmalloc_split_def split_stores_def rest_stores_def SIZEOF_MALLOC_HEAD_def Let_def y_def)
  have "laid_out ?lo ?hi (mh_size ?m) (y # xs)"
    using lay pbl(2) laid_out_cong [of "y # xs" "mh_size ?m" "mh_size ?mb"] by simp
  moreover have "mh_magic ?m x = 0xBEEF" if "x \<in> set (y # xs)" for x
  proof -
    have "mh_magic ?m x = mh_magic ?mb x" using pbl(3) that by simp
    then show ?thesis using that sf(2,5,7) mg p by (cases "x = p"; cases "x = y") auto
  qed
  ultimately have "heap_shape (s\<lparr>mem := ?m, total_blocks := total_blocks s + 1\<rparr>) (y # xs)"
    using pbl(1) hi hc by (simp add: heap_shape_def)
  moreover have "mh_size ?m p = n" "mh_size ?m y = ?z - n - 20" using pbl(2) p sf(1,4) by simp_all
  moreover have "\<not> mh_used ?m y" "mh_used ?m p = mh_used (mem s) p"
    using pbl(4) p sf(3,6) by (simp_all add: mh_used_def)
  moreover have "keeps (set xs - {p}) (mem s) ?m"
    using pbl(2,4) sf(7) by (simp add: keeps_def mh_used_def)
  moreover have "chain_frame ?h (y # xs) (mem s) ?m"
    unfolding chain_frame_def
  proof (intro allI impI)
    fix b assume b: "b \<notin> span ?h 8 \<and> b \<noteq> 16 \<and> (\<forall>x \<in> set (y # xs). b \<notin> span x 20)"
    then have "?m b = ?mb b" using link_in_header by (intro pbl(5)) blast+
    also have "\<dots> = mem s b" using b p fields_in_header unfolding y_def by (intro split_stores_outside) auto
    finally show "?m b = mem s b" .
  qed
  ultimately show ?thesis using split new by blast
qed

section \<open>\<^verbatim>\<open>kmalloc\<close>\<close>

definition fits :: "bytes \<Rightarrow> u32 \<Rightarrow> u32 \<Rightarrow> bool" where
  "fits m n x \<longleftrightarrow> n \<le> mh_size m x \<and> \<not> mh_used m x"

text \<open>The search stops at the first block of the chain that is free and large enough.\<close>

lemma run_search:
  assumes "\<And>x. x \<in> set xs \<Longrightarrow> mh_magic (mem s) x = 0xBEEF"
  shows "\<exists>q. run_body (kmalloc_body n) xs (p, 0, s) =
    Some (case find (fits (mem s) n) xs of Some x \<Rightarrow> (x, 1, s) | None \<Rightarrow> (q, 0, s))"
  using assms
proof (induction xs arbitrary: p)
  case (Cons x xs)
  show ?case
  proof (cases "fits (mem s) n x")
    case True
    then show ?thesis using Cons.prems by (simp add: kmalloc_body_def fits_def mh_used_def)
  next
    case False
    then have "kmalloc_body n x (p, 0, s) = Some ((x, 0, s), False)"
      by (auto simp: kmalloc_body_def fits_def mh_used_def)
    then show ?thesis using False Cons.IH [of x] Cons.prems by simp
  qed
qed simp

lemma kmalloc_search:
  assumes "heap_shape s xs"
  shows "\<exists>q. list_for_each (\<lambda>(_, _, s). mem s) (chain_hd s) (kmalloc_body n)
      (list_next (mem s) (chain_hd s)) (0, 0, s) =
    Some (case find (fits (mem s) n) xs of Some x \<Rightarrow> (x, 1, s) | None \<Rightarrow> (q, 0, s))"
proof -
  let ?memory = "\<lambda>(_ :: u32, _ :: u8, s :: 'a heap_scheme). mem s"
  have "list_for_each ?memory (chain_hd s) (kmalloc_body n)
      (list_next (?memory (0, 0, s)) (chain_hd s)) (0, 0, s) = run_body (kmalloc_body n) xs (0, 0, s)"
  proof (rule for_each_run [where P = "\<lambda>(_, _, s'). s' = s"])
    show "\<And>x t t'. x \<in> set xs \<Longrightarrow> (case t of (_, _, s') \<Rightarrow> s' = s) \<Longrightarrow>
        kmalloc_body n x t = Some (t', False) \<Longrightarrow> (case t' of (_, _, s') \<Rightarrow> s' = s)"
      by (auto simp: kmalloc_body_def Let_def split: if_splits bind_splits)
  qed (use assms in \<open>auto simp: heap_shape_def\<close>)
  then show ?thesis using run_search [of xs s n 0] assms by (simp add: heap_shape_def)
qed

lemma length_filter_mark:
  assumes "distinct xs" "p \<in> set xs" "\<not> U p" "U' p" "\<And>x. x \<in> set xs \<Longrightarrow> x \<noteq> p \<Longrightarrow> U' x = U x"
  shows "length (filter U' xs) = length (filter U xs) + 1"
proof -
  obtain us vs where xs: "xs = us @ p # vs" using split_list [OF assms(2)] by blast
  then have "filter U' us = filter U us" "filter U' vs = filter U vs"
    using assms(1,5) by (auto intro!: filter_cong)
  then show ?thesis using xs assms(3,4) by simp
qed

lemma keeps_trans: "keeps X m m1 \<Longrightarrow> keeps Y m1 m2 \<Longrightarrow> Z \<subseteq> X \<inter> Y \<Longrightarrow> keeps Z m m2"
  unfolding keeps_def by (metis IntE subsetD)

lemma chain_frame_trans: "chain_frame h xs m m1 \<Longrightarrow> chain_frame h xs m1 m2 \<Longrightarrow> chain_frame h xs m m2"
  by (simp add: chain_frame_def)

definition alloc_result ::
  "u32 \<Rightarrow> 'a heap_scheme \<Rightarrow> u32 list \<Rightarrow> u32 \<Rightarrow> 'a heap_scheme \<Rightarrow> u32 list \<Rightarrow> bool" where
  "alloc_result n s xs p s' xs' \<longleftrightarrow>
     heap_wf s' xs' \<and> set xs \<subseteq> set xs' \<and> p \<in> set xs'
     \<and> \<not> (p \<in> set xs \<and> mh_used (mem s) p)
     \<and> (\<forall>x \<in> set xs'. mh_used (mem s') x \<longleftrightarrow> x = p \<or> x \<in> set xs \<and> mh_used (mem s) x)
     \<and> n \<le> mh_size (mem s') p \<and> unat (mh_size (mem s') p) < unat n + 28
     \<and> keeps (set xs - {p}) (mem s) (mem s') \<and> chain_frame (chain_hd s) xs' (mem s) (mem s')
     \<and> (case find (fits (mem s) n) xs of
          Some q \<Rightarrow> p = q \<and> heap_brk s' = heap_brk s
        | None \<Rightarrow> p = heap_brk s \<and> heap_brk s' = p + 20 + n)
     \<and> s' = s\<lparr>heap_brk := heap_brk s', mem := mem s', total_blocks := total_blocks s',
              used_blocks := used_blocks s'\<rparr>"

lemma kmalloc_finish:
  assumes h: "heap_shape s' xs'" and p: "p \<in> set xs'"
    and t: "total_blocks s' = of_nat (length xs')"
    and u: "used_blocks s' + 1 = of_nat (length (filter (\<lambda>x. x = p \<or> mh_used (mem s') x) xs'))"
  defines "s2 \<equiv> s'\<lparr>mem := set_state p (mh_state (mem s') p OR KMALLOC_USED) (mem s'),
      used_blocks := used_blocks s' + 1\<rparr>"
  shows "heap_wf s2 xs'" "mh_used (mem s2) p" "mh_size (mem s2) p = mh_size (mem s') p"
    "keeps (set xs' - {p}) (mem s') (mem s2)" "chain_frame (chain_hd s') xs' (mem s') (mem s2)"
proof -
  let ?m = "set_state p (mh_state (mem s') p OR KMALLOC_USED) (mem s')"
  note mb = mark_block [OF h p, of "mh_state (mem s') p OR KMALLOC_USED"]
  have us: "mh_used ?m x \<longleftrightarrow> x = p \<or> mh_used (mem s') x" if "x \<in> set xs'" for x
    using mb(2) that by (cases "x = p") (simp_all add: keeps_def)
  have "heap_shape s2 xs'" using mb(1) by (simp add: s2_def heap_shape_def)
  moreover have "filter (mh_used ?m) xs' = filter (\<lambda>x. x = p \<or> mh_used (mem s') x) xs'"
    using us by (rule filter_cong [OF refl])
  ultimately show "heap_wf s2 xs'" using t u by (simp add: heap_wf_def s2_def)
  show "mh_used (mem s2) p" "mh_size (mem s2) p = mh_size (mem s') p"
    "keeps (set xs' - {p}) (mem s') (mem s2)" "chain_frame (chain_hd s') xs' (mem s') (mem s2)"
    using mb by (simp_all add: s2_def)
qed

text \<open>No free block fits: the heap grows. A free block fits: it is split, or it is taken whole.\<close>

lemma kmalloc_grows:
  assumes wf: "heap_wf s xs" and n: "n \<noteq> 0" and none: "find (fits (mem s) n) xs = None"
    and lt: "unat (heap_brk s) + 20 + unat n < unat (brk_max s)"
  shows "\<exists>s' xs'. kmalloc n flags s = Some (heap_brk s + 20, s') \<and> alloc_result n s xs (heap_brk s) s' xs'"
proof -
  let ?p = "heap_brk s"
  let ?s1 = "\<lambda>m. s\<lparr>heap_brk := ?p + 20 + n, mem := m, total_blocks := total_blocks s + 1\<rparr>"
  have h: "heap_shape s xs" and tb: "total_blocks s = of_nat (length xs)"
    and ub: "used_blocks s = of_nat (length (filter (mh_used (mem s)) xs))"
    using wf by (simp_all add: heap_wf_def)
  obtain q where search: "list_for_each (\<lambda>(_, _, s). mem s) (chain_hd s) (kmalloc_body n)
      (list_next (mem s) (chain_hd s)) (0, 0, s) = Some (q, 0, s)"
    using kmalloc_search [OF h, of n] none by auto
  from kmalloc_grow_ok [OF h lt] obtain m where
    grow: "kmalloc_grow n s = Some (?p, ?s1 m)" and h1: "heap_shape (?s1 m) (?p # xs)" and new: "?p \<notin> set xs"
    and sz: "mh_size m ?p = n" and kp: "keeps (set xs) (mem s) m"
    and fr: "chain_frame (chain_hd s) (?p # xs) (mem s) m" by blast
  have "filter (\<lambda>x. x = ?p \<or> mh_used m x) xs = filter (mh_used (mem s)) xs"
    using kp new by (intro filter_cong) (auto simp: keeps_def)
  then have "used_blocks (?s1 m) + 1 =
      of_nat (length (filter (\<lambda>x. x = ?p \<or> mh_used (mem (?s1 m)) x) (?p # xs)))" by (simp add: ub)
  from kmalloc_finish [OF h1 _ _ this] tb
  obtain s2 where s2: "s2 = (?s1 m)\<lparr>mem := set_state ?p (mh_state m ?p OR KMALLOC_USED) m,
      used_blocks := used_blocks s + 1\<rparr>" "heap_wf s2 (?p # xs)" "mh_used (mem s2) ?p"
    "mh_size (mem s2) ?p = n" "keeps (set (?p # xs) - {?p}) m (mem s2)"
    "chain_frame (chain_hd s) (?p # xs) m (mem s2)" using sz by simp
  have "kmalloc n flags s = Some (?p + 20, s2)"
    using n search grow s2(1) by (simp add: kmalloc_def ksbrk_def SIZEOF_MALLOC_HEAD_def)
  moreover have k: "keeps (set xs - {?p}) (mem s) (mem s2)" using keeps_trans [OF kp s2(5)] by auto
  have "mh_used (mem s2) x \<longleftrightarrow> x = ?p \<or> x \<in> set xs \<and> mh_used (mem s) x" if "x \<in> set (?p # xs)" for x
    using that s2(3) k by (cases "x = ?p") (auto simp: keeps_def)
  then have "alloc_result n s xs ?p s2 (?p # xs)"
    using s2 new none k chain_frame_trans [OF fr s2(6)] by (auto simp: alloc_result_def)
  ultimately show ?thesis by blast
qed

lemma kmalloc_found:
  assumes "heap_shape s xs" "n \<noteq> 0" "find (fits (mem s) n) xs = Some p"
  shows "kmalloc n flags s = (let s = kmalloc_split p n s in
    Some (p + 20, s\<lparr>mem := set_state p (mh_state (mem s) p OR KMALLOC_USED) (mem s), used_blocks := used_blocks s + 1\<rparr>))"
  using assms kmalloc_search [OF assms(1), of n] by (auto simp: kmalloc_def ksbrk_def SIZEOF_MALLOC_HEAD_def Let_def)

lemma kmalloc_splits:
  assumes wf: "heap_wf s xs" and n: "n \<noteq> 0" and found: "find (fits (mem s) n) xs = Some p"
    and big: "unat n + 28 \<le> unat (mh_size (mem s) p)"
  shows "\<exists>s' xs'. kmalloc n flags s = Some (p + 20, s') \<and> alloc_result n s xs p s' xs'"
proof -
  have h: "heap_shape s xs" and tb: "total_blocks s = of_nat (length xs)" and dist: "distinct xs"
    and ub: "used_blocks s = of_nat (length (filter (mh_used (mem s)) xs))"
    using wf by (simp_all add: heap_wf_def heap_shape_def laid_out_def)
  have p: "p \<in> set xs" and fit: "n \<le> mh_size (mem s) p" "\<not> mh_used (mem s) p"
    using found by (auto simp: find_Some_iff fits_def)
  let ?y = "p + 20 + n"
  let ?s1 = "\<lambda>m. s\<lparr>mem := m, total_blocks := total_blocks s + 1\<rparr>"
  from kmalloc_split_ok [OF h p big] obtain m where
    split: "kmalloc_split p n s = ?s1 m" and h1: "heap_shape (?s1 m) (?y # xs)" and new: "?y \<notin> set xs" and sz: "mh_size m p = n"
    and free: "\<not> mh_used m ?y" and kp: "keeps (set xs - {p}) (mem s) m"
    and fr: "chain_frame (chain_hd s) (?y # xs) (mem s) m" by blast
  have ne: "?y \<noteq> p" using new p by metis
  have "length (filter (\<lambda>x. x = p \<or> mh_used m x) xs) = length (filter (mh_used (mem s)) xs) + 1"
    using kp fit(2) by (intro length_filter_mark [OF dist p]) (auto simp: keeps_def)
  then have "used_blocks (?s1 m) + 1 =
      of_nat (length (filter (\<lambda>x. x = p \<or> mh_used (mem (?s1 m)) x) (?y # xs)))"
    using ne free by (simp add: ub)
  from kmalloc_finish [OF h1 _ _ this] tb p
  obtain s2 where s2: "s2 = (?s1 m)\<lparr>mem := set_state p (mh_state m p OR KMALLOC_USED) m,
      used_blocks := used_blocks s + 1\<rparr>" "heap_wf s2 (?y # xs)" "mh_used (mem s2) p"
    "mh_size (mem s2) p = n" "keeps (set (?y # xs) - {p}) m (mem s2)"
    "chain_frame (chain_hd s) (?y # xs) m (mem s2)" using sz by simp
  have "kmalloc n flags s = Some (p + 20, s2)" using kmalloc_found [OF h n found] s2(1) by (simp add: split)
  moreover have k: "keeps (set xs - {p}) (mem s) (mem s2)" using keeps_trans [OF kp s2(5)] by auto
  have "\<not> mh_used (mem s2) ?y" using s2(5) ne free by (simp add: keeps_def)
  then have "mh_used (mem s2) x \<longleftrightarrow> x = p \<or> x \<in> set xs \<and> mh_used (mem s) x" if "x \<in> set (?y # xs)" for x
    using that s2(3) k new ne
    by (metis (no_types, lifting) Diff_iff empty_iff insert_iff keeps_def set_ConsD)
  then have "alloc_result n s xs p s2 (?y # xs)"
    using s2 p fit found k chain_frame_trans [OF fr s2(6)] by (auto simp: alloc_result_def)
  ultimately show ?thesis by blast
qed

lemma kmalloc_takes_whole:
  assumes wf: "heap_wf s xs" and n: "n \<noteq> 0" and found: "find (fits (mem s) n) xs = Some p"
    and small: "\<not> unat n + 28 \<le> unat (mh_size (mem s) p)"
  shows "\<exists>s' xs'. kmalloc n flags s = Some (p + 20, s') \<and> alloc_result n s xs p s' xs'"
proof -
  have h: "heap_shape s xs" and tb: "total_blocks s = of_nat (length xs)" and dist: "distinct xs"
    and ub: "used_blocks s = of_nat (length (filter (mh_used (mem s)) xs))"
    using wf by (simp_all add: heap_wf_def heap_shape_def laid_out_def)
  have p: "p \<in> set xs" and fit: "n \<le> mh_size (mem s) p" "\<not> mh_used (mem s) p"
    using found by (auto simp: find_Some_iff fits_def)
  have "unat n \<le> unat (mh_size (mem s) p)" using fit(1) by (simp add: word_le_nat_alt)
  then have "\<not> mh_size (mem s) p - n \<ge> 28" using small by (simp add: word_le_nat_alt unat_minus_cases)
  then have split: "kmalloc_split p n s = s" by (simp add: kmalloc_split_def SIZEOF_MALLOC_HEAD_def)
  have "length (filter (\<lambda>x. x = p \<or> mh_used (mem s) x) xs) = length (filter (mh_used (mem s)) xs) + 1"
    using fit(2) by (intro length_filter_mark [OF dist p]) auto
  then have "used_blocks s + 1 = of_nat (length (filter (\<lambda>x. x = p \<or> mh_used (mem s) x) xs))"
    by (simp add: ub)
  note s2 = kmalloc_finish [OF h p tb this]
  let ?s2 = "s\<lparr>mem := set_state p (mh_state (mem s) p OR KMALLOC_USED) (mem s), used_blocks := used_blocks s + 1\<rparr>"
  have "mh_used (mem ?s2) x \<longleftrightarrow> x = p \<or> x \<in> set xs \<and> mh_used (mem s) x" if "x \<in> set xs" for x
    using that s2(2,4) by (cases "x = p") (simp_all add: keeps_def)
  then have "alloc_result n s xs p ?s2 xs"
    using s2 p fit found small by (simp add: alloc_result_def)
  then show ?thesis unfolding kmalloc_found [OF h n found] split Let_def by blast
qed

lemma kmalloc_result:
  assumes "heap_wf s xs" "n \<noteq> 0"
    and "find (fits (mem s) n) xs \<noteq> None \<or> unat (heap_brk s) + 20 + unat n < unat (brk_max s)"
  shows "\<exists>p s' xs'. kmalloc n flags s = Some (p + 20, s') \<and> alloc_result n s xs p s' xs'"
  using kmalloc_grows [OF assms(1,2)] kmalloc_splits [OF assms(1,2)] kmalloc_takes_whole [OF assms(1,2)] assms(3)
  by (cases "find (fits (mem s) n) xs") blast+

section \<open>\<^verbatim>\<open>kfree\<close>, \<^verbatim>\<open>init_heap\<close> and the checker\<close>

lemma block_bounds:
  assumes "heap_shape s xs" "x \<in> set xs"
  shows "17 \<le> unat x" "unat x + 20 + unat (mh_size (mem s) x) \<le> unat (heap_brk s)"
    "unat (x + 20) = unat x + 20" "x + 20 \<noteq> 0"
proof -
  have l: "laid_out (unat (heap_base s)) (unat (heap_brk s)) (mh_size (mem s)) xs"
    and hc: "17 \<le> unat (heap_base s)" using assms(1) by (simp_all add: heap_shape_def head_clear_def)
  note b = laid_out_bounds [OF l assms(2)]
  show "17 \<le> unat x" "unat x + 20 + unat (mh_size (mem s) x) \<le> unat (heap_brk s)"
    using b hc by simp_all
  show u: "unat (x + 20) = unat x + 20"
    using b unat_less_2p32 [of "heap_brk s"] unat_plus_small [of x 20] by simp
  then show "x + 20 \<noteq> 0" by auto
qed

lemma kfree_result:
  assumes wf: "heap_wf s xs" and x: "x \<in> set xs" and u: "mh_used (mem s) x"
  defines "m \<equiv> set_state x (mh_state (mem s) x AND KMALLOC_FREE) (mem s)"
  shows "kfree (x + 20) s = Some (s\<lparr>mem := m, used_blocks := used_blocks s - 1\<rparr>)"
    and "heap_wf (s\<lparr>mem := m, used_blocks := used_blocks s - 1\<rparr>) xs"
    and "\<not> mh_used m x" "mh_size m x = mh_size (mem s) x" "keeps (set xs - {x}) (mem s) m"
    and "b \<noteq> x + 16 \<Longrightarrow> m b = mem s b"
proof -
  have h: "heap_shape s xs" and ub: "used_blocks s = of_nat (length (filter (mh_used (mem s)) xs))"
    using wf by (simp_all add: heap_wf_def)
  have dist: "distinct xs" and mg: "mh_magic (mem s) x = 0xBEEF"
    using h x by (simp_all add: heap_shape_def laid_out_def)
  note mb = mark_block [OF h x, of "mh_state (mem s) x AND KMALLOC_FREE", folded m_def]
  show nu: "\<not> mh_used m x" by (simp add: m_def)
  show "mh_size m x = mh_size (mem s) x" "keeps (set xs - {x}) (mem s) m" using mb by simp_all
  show "b \<noteq> x + 16 \<Longrightarrow> m b = mem s b" by (simp add: m_def set_state_def store8_outside)
  show "kfree (x + 20) s = Some (s\<lparr>mem := m, used_blocks := used_blocks s - 1\<rparr>)"
    using block_bounds [OF h x] mg by (simp add: kfree_def SIZEOF_MALLOC_HEAD_def m_def)
  have "length (filter (mh_used (mem s)) xs) = length (filter (mh_used m) xs) + 1"
    using mb(2) nu u by (intro length_filter_mark [OF dist x]) (auto simp: keeps_def)
  then show "heap_wf (s\<lparr>mem := m, used_blocks := used_blocks s - 1\<rparr>) xs"
    using mb(1) wf ub by (simp add: heap_wf_def heap_shape_def)
qed

lemma init_heap_wf:
  assumes "head_clear (chain_hd s) (kernel_end s) (brk_max s)"
    and "kernel_end s \<le> brk_max s" "apart (chain_hd s) 8 (temp_map_hd s) 8"
  shows "heap_wf (init_heap s) []"
proof -
  let ?m = "INIT_LIST_HEAD (chain_hd s) (mem s)"
  have "b \<notin> span (temp_map_hd s) 8" if "b \<in> span (chain_hd s) 8" for b
    using assms(3) that by (rule apart_disjoint)
  moreover have "INIT_LIST_HEAD t m b = m b" if "b \<notin> span t 8" for t m b
  proof -
    have "b \<notin> span t 4" "b \<notin> span (t + 4) 4"
      using that span_offset [of b t 4 4 8] span_mono [of b t 4 8] by auto
    then show ?thesis by (simp add: INIT_LIST_HEAD_def set_next_def set_prev_def store32_outside)
  qed
  ultimately have "INIT_LIST_HEAD (temp_map_hd s) ?m b = ?m b" if "b \<in> span (chain_hd s) 8" for b
    using that by blast
  then have "dlist (INIT_LIST_HEAD (temp_map_hd s) ?m) (chain_hd s) []"
    by (intro dlist_frame [OF dlist_init]) simp
  then show ?thesis
    using assms(1,2) by (simp add: init_heap_def heap_wf_def heap_shape_def laid_out_def word_le_nat_alt Let_def)
qed

text \<open>On a well-formed heap the checker finds nothing and changes nothing.\<close>

lemma heapchecker_clean:
  assumes "heap_shape s xs"
  shows "heapchecker_walk s = Some s"
proof -
  let ?body = "\<lambda>this (s :: 'a heap_scheme). do {
      s \<leftarrow> (if mh_magic (mem s) this \<noteq> 0xBEEF then panic ''HEAP BLOCK CORRUPTION DETECTED!'' s
            else Some s);
      Some (s, False) }"
  have mg: "\<And>x. x \<in> set xs \<Longrightarrow> mh_magic (mem s) x = 0xBEEF" using assms by (simp add: heap_shape_def)
  have "list_for_each mem (chain_hd s) ?body (list_next (mem s) (chain_hd s)) s = run_body ?body xs s"
    by (rule for_each_run [where P = "\<lambda>t. t = s"]) (use assms mg in \<open>auto simp: heap_shape_def\<close>)
  also have "run_body ?body xs s = Some s" using mg by (induction xs) auto
  finally show ?thesis by (simp add: heapchecker_walk_def)
qed

section \<open>The allocator's contract\<close>

text \<open>
  What a client may rely on: an allocation adds one block to those it owns, a release takes one away,
  neither touches a byte of the others, and owned blocks never overlap.
\<close>

locale allocator =
  fixes inv :: "'s \<Rightarrow> bool"
    and owned :: "'s \<Rightarrow> (u32 \<times> nat) set"
    and contents :: "'s \<Rightarrow> bytes"
    and room :: "u32 \<Rightarrow> 's \<Rightarrow> bool"
    and alloc :: "u32 \<Rightarrow> 's \<Rightarrow> (u32 \<times> 's) option"
    and release :: "u32 \<Rightarrow> 's \<Rightarrow> 's option"
  assumes alloc_ok: "inv s \<Longrightarrow> n \<noteq> 0 \<Longrightarrow> room n s \<Longrightarrow> \<exists>p k s'. alloc n s = Some (p, s') \<and> inv s'
      \<and> unat n \<le> k \<and> (p, k) \<notin> owned s \<and> owned s' = insert (p, k) (owned s)
      \<and> (\<forall>(q, j) \<in> owned s. \<forall>b \<in> span q j. contents s' b = contents s b)"
    and release_ok: "inv s \<Longrightarrow> (p, k) \<in> owned s \<Longrightarrow> \<exists>s'. release p s = Some s' \<and> inv s'
      \<and> owned s' = owned s - {(p, k)}
      \<and> (\<forall>(q, j) \<in> owned s. \<forall>b \<in> span q j. contents s' b = contents s b)"
    and owned_disjoint: "inv s \<Longrightarrow> (p, k) \<in> owned s \<Longrightarrow> (q, j) \<in> owned s \<Longrightarrow> (p, k) \<noteq> (q, j) \<Longrightarrow>
      span p k \<inter> span q j = {}"
begin

lemma alloc_separate:
  assumes "inv s" "n \<noteq> 0" "room n s" "(q, j) \<in> owned s"
  shows "\<exists>p s'. alloc n s = Some (p, s') \<and> inv s' \<and> (q, j) \<in> owned s' \<and> span p (unat n) \<inter> span q j = {}
    \<and> (\<forall>b \<in> span q j. contents s' b = contents s b)"
proof -
  from alloc_ok [OF assms(1-3)] obtain p k s' where a: "alloc n s = Some (p, s')" "inv s'" "unat n \<le> k"
    "(p, k) \<notin> owned s" "owned s' = insert (p, k) (owned s)"
    "\<forall>(q, j) \<in> owned s. \<forall>b \<in> span q j. contents s' b = contents s b" by blast
  then have "span p k \<inter> span q j = {}" using assms(4) by (intro owned_disjoint [of s']) auto
  moreover have "span p (unat n) \<subseteq> span p k" using span_mono [OF _ a(3)] by blast
  moreover have "\<forall>b \<in> span q j. contents s' b = contents s b" using a(6) assms(4) by fast
  ultimately show ?thesis using a(1,2,5) assms(4) by (intro exI [of _ p] exI [of _ s']) auto
qed

lemma alloc_release:
  assumes "inv s" "n \<noteq> 0" "room n s"
  shows "\<exists>p s' s''. alloc n s = Some (p, s') \<and> release p s' = Some s'' \<and> inv s'' \<and> owned s'' = owned s
    \<and> (\<forall>(q, j) \<in> owned s. \<forall>b \<in> span q j. contents s'' b = contents s b)"
proof -
  from alloc_ok [OF assms] obtain p k s' where a: "alloc n s = Some (p, s')" "inv s'" "(p, k) \<notin> owned s"
    "owned s' = insert (p, k) (owned s)"
    "\<forall>(q, j) \<in> owned s. \<forall>b \<in> span q j. contents s' b = contents s b" by blast
  then have "(p, k) \<in> owned s'" by simp
  from release_ok [OF a(2) this] obtain s'' where r: "release p s' = Some s''" "inv s''"
    "owned s'' = owned s' - {(p, k)}"
    "\<forall>(q, j) \<in> owned s'. \<forall>b \<in> span q j. contents s'' b = contents s' b" by blast
  have "owned s'' = owned s" using a(3,4) r(3) by simp
  moreover have "\<forall>(q, j) \<in> owned s. \<forall>b \<in> span q j. contents s'' b = contents s b"
    using a(4,5) r(4) by fastforce
  ultimately show ?thesis using a(1) r(1,2) by blast
qed

end

text \<open>The chain determines the list of blocks, so the blocks a client owns are a function of the state.\<close>

lemma chain_unique:
  "chain nx pv a xs z \<Longrightarrow> chain nx pv a ys z \<Longrightarrow> z \<notin> set xs \<Longrightarrow> z \<notin> set ys \<Longrightarrow> xs = ys"
proof (induction xs arbitrary: a ys)
  case Nil
  then show ?case by (cases ys) auto
next
  case (Cons x xs)
  then obtain y ys' where ys: "ys = y # ys'" by (cases ys) auto
  with Cons.prems have "y = x" by simp
  with Cons ys show ?case by auto
qed

lemma heap_wf_unique: "heap_wf s xs \<Longrightarrow> heap_wf s ys \<Longrightarrow> xs = ys"
  by (auto simp: heap_wf_def heap_shape_def dlist_def intro: chain_unique)

definition heap_owned :: "'a heap_scheme \<Rightarrow> (u32 \<times> nat) set" where
  "heap_owned s = {(x + 20, unat (mh_size (mem s) x)) | x xs. heap_wf s xs \<and> x \<in> set xs \<and> mh_used (mem s) x}"

definition heap_room :: "u32 \<Rightarrow> 'a heap_scheme \<Rightarrow> bool" where
  "heap_room n s \<longleftrightarrow> unat (heap_brk s) + 20 + unat n < unat (brk_max s)"

lemma heap_owned_eq:
  assumes "heap_wf s xs"
  shows "heap_owned s = (\<lambda>x. (x + 20, unat (mh_size (mem s) x))) ` {x \<in> set xs. mh_used (mem s) x}"
proof -
  have "heap_wf s ys \<longleftrightarrow> ys = xs" for ys using assms heap_wf_unique by blast
  then show ?thesis by (auto simp: heap_owned_def)
qed

lemma payload_byte:
  assumes h: "heap_shape s xs" and x: "x \<in> set xs" and b: "b \<in> span (x + 20) (unat (mh_size (mem s) x))"
  shows "unat x + 20 \<le> unat b" "unat b < unat x + extent (mh_size (mem s)) x"
  using in_payload [of x "unat (mh_size (mem s) x)" b] b block_bounds(2) [OF h x]
    unat_less_2p32 [of "heap_brk s"] by (auto simp: extent_def)

text \<open>Payload bytes are in no header, so whatever only writes headers leaves them.\<close>

lemma payload_frame:
  assumes h: "heap_shape s xs" and x: "x \<in> set xs" and b: "b \<in> span (x + 20) (unat (mh_size (mem s) x))"
  shows "b \<notin> span (chain_hd s) 8" "b \<noteq> 16" "y \<in> set xs \<Longrightarrow> b \<notin> span y 20"
proof -
  have l: "laid_out (unat (heap_base s)) (unat (heap_brk s)) (mh_size (mem s)) xs"
    and hi: "unat (heap_brk s) \<le> unat (brk_max s)"
    and hc: "head_clear (chain_hd s) (heap_base s) (brk_max s)"
    using h by (simp_all add: heap_shape_def)
  note pb = payload_byte [OF h x b]
  show "b \<notin> span (chain_hd s) 8" "b \<noteq> 16"
    using body_byte(1,2) [OF hc l hi x _ pb(2)] pb(1) by auto
  show "b \<notin> span y 20" if y: "y \<in> set xs"
  proof -
    have yb: "unat y + 20 \<le> 4294967296"
      using block_bounds(2) [OF h y] unat_less_2p32 [of "heap_brk s"] by linarith
    show ?thesis
    proof (cases "y = x")
      case True
      then show ?thesis using pb span_nat_iff [OF yb, of b] by auto
    next
      case False
      then show ?thesis
        using laid_out_disjoint [OF l y x False] pb span_nat_iff [OF yb, of b]
        by (auto simp: disjoint_blocks_def extent_def)
    qed
  qed
qed

lemma add20_inj: "(x :: u32) + 20 = y + 20 \<longleftrightarrow> x = y"
  by simp

lemma kmalloc_owned:
  assumes wf: "heap_wf s xs" and r: "alloc_result n s xs p s' xs'"
  shows "unat n \<le> unat (mh_size (mem s') p)" "(p + 20, unat (mh_size (mem s') p)) \<notin> heap_owned s"
    "heap_owned s' = insert (p + 20, unat (mh_size (mem s') p)) (heap_owned s)"
    "(q, j) \<in> heap_owned s \<Longrightarrow> b \<in> span q j \<Longrightarrow> mem s' b = mem s b"
proof -
  have wf': "heap_wf s' xs'" and sub: "set xs \<subseteq> set xs'" and p: "p \<in> set xs'"
    and np: "\<not> (p \<in> set xs \<and> mh_used (mem s) p)"
    and us: "\<And>x. x \<in> set xs' \<Longrightarrow> mh_used (mem s') x \<longleftrightarrow> x = p \<or> x \<in> set xs \<and> mh_used (mem s) x"
    and big: "n \<le> mh_size (mem s') p" and kp: "keeps (set xs - {p}) (mem s) (mem s')"
    and fr: "chain_frame (chain_hd s) xs' (mem s) (mem s')" and same: "s' = s\<lparr>heap_brk := heap_brk s',
      mem := mem s', total_blocks := total_blocks s', used_blocks := used_blocks s'\<rparr>"
    using r by (simp_all add: alloc_result_def)
  have hd: "chain_hd s' = chain_hd s" by (subst same) simp
  have sh: "heap_shape s' xs'" using wf' by (simp add: heap_wf_def)
  have old: "x \<noteq> p \<and> x \<in> set xs' \<and> mh_size (mem s') x = mh_size (mem s) x"
    if "x \<in> set xs" "mh_used (mem s) x" for x
    using that np sub kp by (auto simp: keeps_def)
  have "{x \<in> set xs'. mh_used (mem s') x} = insert p {x \<in> set xs. mh_used (mem s) x}"
    using us p sub by auto
  then show "heap_owned s' = insert (p + 20, unat (mh_size (mem s') p)) (heap_owned s)"
    using old unfolding heap_owned_eq [OF wf] heap_owned_eq [OF wf'] by (auto simp: image_iff)
  show "(p + 20, unat (mh_size (mem s') p)) \<notin> heap_owned s"
    using np unfolding heap_owned_eq [OF wf] by auto
  show "mem s' b = mem s b" if "(q, j) \<in> heap_owned s" "b \<in> span q j" for q j b
  proof -
    from that obtain x where x: "x \<in> set xs" "mh_used (mem s) x"
      and b: "b \<in> span (x + 20) (unat (mh_size (mem s) x))" unfolding heap_owned_eq [OF wf] by auto
    have "b \<in> span (x + 20) (unat (mh_size (mem s') x))" using old [OF x] b by simp
    from payload_frame [OF sh _ this] old [OF x] show ?thesis
      using fr hd by (auto simp: chain_frame_def)
  qed
  show "unat n \<le> unat (mh_size (mem s') p)" using big by (simp add: word_le_nat_alt)
qed

lemma kfree_owned:
  assumes wf: "heap_wf s xs" and o: "(p, k) \<in> heap_owned s"
  shows "\<exists>s'. kfree p s = Some s' \<and> (\<exists>xs. heap_wf s' xs) \<and> heap_owned s' = heap_owned s - {(p, k)}
      \<and> (\<forall>(q, j) \<in> heap_owned s. \<forall>b \<in> span q j. mem s' b = mem s b)"
proof -
  have sh: "heap_shape s xs" using wf by (simp add: heap_wf_def)
  from o obtain x where x: "x \<in> set xs" "mh_used (mem s) x"
    and pk: "p = x + 20" "k = unat (mh_size (mem s) x)" unfolding heap_owned_eq [OF wf] by auto
  note kf = kfree_result [OF wf x]
  let ?s = "s\<lparr>mem := set_state x (mh_state (mem s) x AND KMALLOC_FREE) (mem s),
      used_blocks := used_blocks s - 1\<rparr>"
  have "mh_used (mem ?s) y \<longleftrightarrow> y \<noteq> x \<and> mh_used (mem s) y" "mh_size (mem ?s) y = mh_size (mem s) y"
    if "y \<in> set xs" for y
    using that kf(3-5) by (cases "y = x"; simp add: keeps_def)+
  then have "heap_owned ?s = heap_owned s - {(p, k)}"
    unfolding heap_owned_eq [OF wf] heap_owned_eq [OF kf(2)] pk by (auto simp: image_iff)
  moreover have "mem ?s b = mem s b" if "(q, j) \<in> heap_owned s" "b \<in> span q j" for q j b
  proof -
    from that obtain y where y: "y \<in> set xs"
      and b: "b \<in> span (y + 20) (unat (mh_size (mem s) y))" unfolding heap_owned_eq [OF wf] by auto
    have "x + 16 \<in> span x 20" by (simp add: span_iff)
    with payload_frame(3) [OF sh y b x(1)] have "b \<noteq> x + 16" by auto
    then show ?thesis using kf(6) by simp
  qed
  ultimately show ?thesis using kf(1,2) pk(1) by (intro exI [of _ ?s]) auto
qed

lemma owned_apart:
  assumes wf: "heap_wf s xs" and o: "(p, k) \<in> heap_owned s" "(q, j) \<in> heap_owned s" "(p, k) \<noteq> (q, j)"
  shows "span p k \<inter> span q j = {}"
proof -
  have sh: "heap_shape s xs" using wf by (simp add: heap_wf_def)
  from o obtain x y where x: "x \<in> set xs" "y \<in> set xs" "x \<noteq> y"
    and pk: "p = x + 20" "k = unat (mh_size (mem s) x)" "q = y + 20" "j = unat (mh_size (mem s) y)"
    unfolding heap_owned_eq [OF wf] by auto
  have "disjoint_blocks (mh_size (mem s)) x y"
    using sh x by (auto simp: heap_shape_def laid_out_def)
  then have "False" if "b \<in> span p k" "b \<in> span q j" for b
    using payload_byte [OF sh x(1)] payload_byte [OF sh x(2)] that unfolding pk disjoint_blocks_def
    by fastforce
  then show ?thesis by blast
qed

interpretation kh: allocator "\<lambda>s. \<exists>xs. heap_wf s xs" heap_owned mem heap_room "\<lambda>n. kmalloc n 0" kfree
proof unfold_locales
  fix s :: "'a heap_scheme" and n
  assume "\<exists>xs. heap_wf s xs" and n: "n \<noteq> 0" and room: "heap_room n s"
  then obtain xs where wf: "heap_wf s xs" by blast
  from kmalloc_result [OF wf n] room obtain p s' xs'
    where k: "kmalloc n 0 s = Some (p + 20, s')" and r: "alloc_result n s xs p s' xs'"
    unfolding heap_room_def by blast
  moreover from r have "heap_wf s' xs'" by (simp add: alloc_result_def)
  ultimately show "\<exists>p k s'. kmalloc n 0 s = Some (p, s') \<and> (\<exists>xs. heap_wf s' xs) \<and> unat n \<le> k
      \<and> (p, k) \<notin> heap_owned s \<and> heap_owned s' = insert (p, k) (heap_owned s)
      \<and> (\<forall>(q, j) \<in> heap_owned s. \<forall>b \<in> span q j. mem s' b = mem s b)"
    using kmalloc_owned [OF wf r] by blast
qed (erule exE, erule (1) kfree_owned, erule exE, erule (3) owned_apart)

end
