(* ===== verification/Printf_Spec.thy ===== *)
theory Printf_Spec
  imports Printf
begin

text \<open>
  What \<^verbatim>\<open>do_printf\<close> is meant to print. A format is a list of pieces, plain characters, \<^verbatim>\<open>%%\<close> and
  conversions with their flags, width and size; \<open>render\<close> is its text and \<open>printed\<close> the characters
  it stands for. The locale \<open>char_sink\<close> says what the interpreter needs of the function it prints
  with: that it leaves the memory outside its own region alone. In the locale the interpreter is
  shown to print exactly the output of the format; \<open>tty_putc\<close> is an instance.
\<close>

section \<open>Digits\<close>

function digits :: "nat \<Rightarrow> nat \<Rightarrow> nat list" where
  "digits b n = (if n < b \<or> b < 2 then [n] else digits b (n div b) @ [n mod b])"
  by pat_completeness auto
termination
  by (relation "measure snd") (auto intro: div_less_dividend)

declare digits.simps [simp del]

definition digit_char :: "bool \<Rightarrow> nat \<Rightarrow> u8" where
  "digit_char upper d = of_nat (if d < 10 then d + 48 else if upper then d + 55 else d + 87)"

lemma digits_less: "2 \<le> b \<Longrightarrow> d \<in> set (digits b n) \<Longrightarrow> d < b"
proof (induction b n rule: digits.induct)
  case (1 b n)
  then show ?case by (auto simp: digits.simps [of b n] split: if_splits)
qed

lemma digits_value: "2 \<le> b \<Longrightarrow> foldl (\<lambda>a d. a * b + d) 0 (digits b n) = n"
proof (induction b n rule: digits.induct)
  case (1 b n)
  then show ?case
    by (cases "n < b") (simp_all add: digits.simps [of b n] mult.commute)
qed

lemma digits_not_nil [simp]: "digits b n \<noteq> []"
  by (subst digits.simps) simp

lemma digits_head: "2 \<le> b \<Longrightarrow> n \<noteq> 0 \<Longrightarrow> hd (digits b n) \<noteq> 0"
proof (induction b n rule: digits.induct)
  case (1 b n)
  show ?case
  proof (cases "n < b")
    case False
    then have "n div b \<noteq> 0" using 1(2) by (simp add: div_eq_0_iff)
    then show ?thesis using False 1 by (simp add: digits.simps [of b n] hd_append)
  qed (use 1 in \<open>simp add: digits.simps\<close>)
qed

primrec radix_nat :: "radix \<Rightarrow> nat" where
  "radix_nat Octal = 8" | "radix_nat Decimal = 10" | "radix_nat Hex = 16"

lemma radix_nat [simp]: "unat (radix_val r) = radix_nat r" "2 \<le> radix_nat r" "\<not> radix_nat r < 2" "radix_nat r \<le> 16" "radix_nat r \<noteq> 0"
  by (cases r; simp)+

lemma pr_digit_char:
  assumes "unat d < 16"
  shows "pr_digit flags d = digit_char (flags AND PR_CA \<noteq> 0) (unat d)"
proof -
  have u: "(ucast x :: u8) = of_nat (unat x)" for x :: u32 by simp
  have e: "d - 10 + 0x41 = d + 55" "d - 10 + 0x61 = d + 87" by simp_all
  have "unat (d + 0x30) = unat d + 48" using assms unat_plus_small [of d "0x30"] by simp
  moreover have "unat (d - 10 + 0x41) = unat d + 55" "unat (d - 10 + 0x61) = unat d + 87" if "\<not> unat d < 10"
    unfolding e using assms unat_plus_small [of d "55"] unat_plus_small [of d "87"] by simp_all
  ultimately show ?thesis
    by (simp add: pr_digit_def digit_char_def word_less_nat_alt u del: of_nat_unat)
qed

lemma pr_num_digits:
  "pr_num flags r num where =
    map (digit_char (flags AND PR_CA \<noteq> 0)) (digits (radix_nat r) (unat num)) @ where"
proof (induction flags r num "where" rule: pr_num.induct)
  case (1 flags r num "where")
  have m: "unat (num mod radix_val r) = unat num mod radix_nat r" "unat (num div radix_val r) = unat num div radix_nat r"
    by (simp_all add: unat_mod unat_div)
  have "unat num mod radix_nat r < radix_nat r" by (rule mod_less_divisor) (cases r; simp)
  then have d: "pr_digit flags (num mod radix_val r) = digit_char (flags AND PR_CA \<noteq> 0) (unat num mod radix_nat r)"
    using pr_digit_char [of "num mod radix_val r" flags] radix_nat(4) [of r] by (simp only: m)
  have z: "num div radix_val r = 0 \<longleftrightarrow> unat num < radix_nat r"
    using m(2) by (metis div_eq_0_iff radix_nat(5) unat_eq_0)
  show ?case
  proof (cases "unat num < radix_nat r")
    case True
    then show ?thesis using z d by (subst pr_num.simps, subst digits.simps) (simp add: Let_def)
  next
    case False
    then show ?thesis
      using z 1 [OF refl refl refl] radix_nat(2) [of r]
      by (subst pr_num.simps, subst digits.simps) (simp add: Let_def d m)
  qed
qed

section \<open>Formats and their output\<close>

datatype size_mod = Plain | Short | Long

datatype conv = C_X | C_x | C_p | C_n | C_d | C_i | C_u | C_o | C_c | C_s

text \<open>A conversion has a flag \<^verbatim>\<open>-\<close>, a flag \<^verbatim>\<open>0\<close>, a width (0 is no width) and a size.\<close>

datatype piece = Text u8 | Percent | Conv bool bool nat size_mod conv

primrec size_text :: "size_mod \<Rightarrow> u8 list" where
  "size_text Plain = []" | "size_text Short = [0x68]" | "size_text Long = [0x6C]"

primrec conv_char :: "conv \<Rightarrow> u8" where
  "conv_char C_X = 0x58" | "conv_char C_x = 0x78" | "conv_char C_p = 0x70" | "conv_char C_n = 0x6E"
| "conv_char C_d = 0x64" | "conv_char C_i = 0x69" | "conv_char C_u = 0x75" | "conv_char C_o = 0x6F"
| "conv_char C_c = 0x63" | "conv_char C_s = 0x73"

primrec render :: "piece \<Rightarrow> u8 list" where
  "render (Text b) = [b]"
| "render Percent = [0x25, 0x25]"
| "render (Conv left zero wd m k) =
     0x25 # (if left then [0x2D] else []) @ (if zero then [0x30] else [])
       @ (if wd = 0 then [] else map (digit_char False) (digits 10 wd)) @ size_text m @ [conv_char k]"

primrec piece_ok :: "piece \<Rightarrow> bool" where
  "piece_ok (Text b) \<longleftrightarrow> b \<noteq> 0 \<and> b \<noteq> 0x25"
| "piece_ok Percent \<longleftrightarrow> True"
| "piece_ok (Conv left zero wd m k) \<longleftrightarrow> wd < 4294967296"

text \<open>An argument is a word, or the address of a string with its characters.\<close>

datatype arg = Word u32 | String u32 "u8 list"

primrec arg_word :: "arg \<Rightarrow> u32" where
  "arg_word (Word w) = w" | "arg_word (String a bs) = a"

definition justify :: "bool \<Rightarrow> bool \<Rightarrow> nat \<Rightarrow> nat \<Rightarrow> u8 list \<Rightarrow> u8 list \<Rightarrow> u8 list" where
  "justify left zero wd aw sign body =
     (if left then sign @ body @ replicate (wd - aw) 0x20
      else if zero then sign @ replicate (wd - aw) 0x30 @ body
      else replicate (wd - aw) 0x20 @ sign @ body)"

definition signed_of :: "size_mod \<Rightarrow> u32 \<Rightarrow> int" where
  "signed_of m w = (if m = Short then sint (ucast w :: u16) else sint w)"

definition unsigned_of :: "size_mod \<Rightarrow> u32 \<Rightarrow> int" where
  "unsigned_of m w = (if m = Short then uint (ucast w :: u16) else uint w)"

definition number :: "bool \<Rightarrow> bool \<Rightarrow> nat \<Rightarrow> bool \<Rightarrow> nat \<Rightarrow> int \<Rightarrow> u8 list" where
  "number left zero wd upper base v =
     (let sign = (if v < 0 then [0x2D] else []);
          body = map (digit_char upper) (digits base (nat \<bar>v\<bar>))
      in justify left zero wd (length sign + length body) sign body)"

fun conv_out :: "bool \<Rightarrow> bool \<Rightarrow> nat \<Rightarrow> size_mod \<Rightarrow> conv \<Rightarrow> arg \<Rightarrow> u8 list option" where
  "conv_out left zero wd m C_X a = Some (number left zero wd True 16 (unsigned_of m (arg_word a)))"
| "conv_out left zero wd m C_x a = Some (number left zero wd False 16 (unsigned_of m (arg_word a)))"
| "conv_out left zero wd m C_p a = Some (number left zero wd False 16 (unsigned_of m (arg_word a)))"
| "conv_out left zero wd m C_n a = Some (number left zero wd False 16 (unsigned_of m (arg_word a)))"
| "conv_out left zero wd m C_d a = Some (number left zero wd False 10 (signed_of m (arg_word a)))"
| "conv_out left zero wd m C_i a = Some (number left zero wd False 10 (signed_of m (arg_word a)))"
| "conv_out left zero wd m C_u a = Some (number left zero wd False 10 (unsigned_of m (arg_word a)))"
| "conv_out left zero wd m C_o a = Some (number left zero wd False 8 (unsigned_of m (arg_word a)))"
| "conv_out left zero wd m C_c a =
     (let c = ucast (arg_word a) in Some (justify left False wd 1 [] (if c = 0 then [] else [c])))"
| "conv_out left zero wd m C_s (String a bs) = Some (justify left False wd (length bs) [] bs)"
| "conv_out left zero wd m C_s (Word w) = None"

text \<open>The output of a format, if there are arguments for its conversions.\<close>

fun printed :: "piece list \<Rightarrow> arg list \<Rightarrow> u8 list option" where
  "printed [] args = Some []"
| "printed (Text b # ps) args = map_option (Cons b) (printed ps args)"
| "printed (Percent # ps) args = map_option (Cons 0x25) (printed ps args)"
| "printed (Conv left zero wd m k # ps) [] = None"
| "printed (Conv left zero wd m k # ps) (a # args) = do {
     o1 \<leftarrow> conv_out left zero wd m k a;
     o2 \<leftarrow> printed ps args;
     Some (o1 @ o2)
   }"

section \<open>Text in memory\<close>

primrec text_at :: "bytes \<Rightarrow> u32 \<Rightarrow> u8 list \<Rightarrow> bool" where
  "text_at m p [] \<longleftrightarrow> True"
| "text_at m p (b # bs) \<longleftrightarrow> m p = b \<and> text_at m (p + 1) bs"

lemma text_at_append [simp]:
  "text_at m p (xs @ ys) \<longleftrightarrow> text_at m p xs \<and> text_at m (p + of_nat (length xs)) ys"
  by (induction xs arbitrary: p) (simp_all add: algebra_simps)

lemma text_at_nth: "text_at m p bs \<longleftrightarrow> (\<forall>i < length bs. m (p + of_nat i) = bs ! i)"
proof (induction bs arbitrary: p)
  case (Cons b bs)
  have "(\<forall>i < Suc (length bs). m (p + of_nat i) = (b # bs) ! i)
    \<longleftrightarrow> m p = b \<and> (\<forall>i < length bs. m (p + 1 + of_nat i) = bs ! i)"
    by (simp add: All_less_Suc2 add.assoc)
  then show ?case by (simp add: Cons.IH)
qed simp

lemma text_at_cong:
  assumes "text_at m p bs" "\<And>x. x \<in> span p (length bs) \<Longrightarrow> m' x = m x" "length bs < 4294967296"
  shows "text_at m' p bs"
  using assms by (simp add: text_at_nth span_iff unat_of_nat)

lemma cstring_text: "cstring m p bs \<longleftrightarrow> text_at m p (bs @ [0]) \<and> 0 \<notin> set bs"
  by (induction bs arbitrary: p) auto

lemma cstring_length: "cstring m p bs \<Longrightarrow> length bs < 4294967296"
proof (rule ccontr)
  assume c: "cstring m p bs" and "\<not> length bs < 4294967296"
  then have l: "4294967296 \<le> length bs" by simp
  have t: "m (p + of_nat i) = (bs @ [0]) ! i" if "i < Suc (length bs)" for i
    using c that by (simp add: cstring_text text_at_nth del: text_at_append)
  define i where "i = length bs - 4294967296"
  have i: "i < length bs" "length bs = i + 4294967296" using l by (simp_all add: i_def)
  have "of_nat (length bs) = (of_nat (i + 4294967296) :: u32)" using i(2) by simp
  also have "\<dots> = of_nat i" by simp
  finally have "m (p + of_nat i) = 0" using t [of "length bs"] by simp
  moreover have "m (p + of_nat i) = bs ! i" "bs ! i \<in> set bs" using t [of i] i(1) by (simp_all add: nth_append)
  ultimately show False using c by (simp add: cstring_text)
qed

section \<open>The steps of the interpreter\<close>

text \<open>The interpreter in each of its states, inside the switch.\<close>

definition "run1 fn f L s = Option.bind (pr_case1 fn f L s) (\<lambda>(f, L, s). pr_loop fn (f + 1) L s)"
definition "run2 fn f L s = Option.bind (pr_case2 fn f L s) (\<lambda>(L, s). pr_loop fn (f + 1) L s)"
definition "run3 fn f L s = Option.bind (pr_case3 fn f L s) (\<lambda>(L, s). pr_loop fn (f + 1) L s)"
definition "run4 fn f L s = Option.bind (pr_case4 fn f L s) (\<lambda>(L, s). pr_loop fn (f + 1) L s)"

lemmas run_defs = run1_def run2_def run3_def run4_def

lemma bind_pair: "Option.bind (map_option (Pair f) x) (\<lambda>(f, L, s). g f L s) = Option.bind x (\<lambda>(L, s). g f L s)"
  by (cases x) auto

lemma loop_state:
  assumes "mem s f \<noteq> 0"
  shows "pr_state L = 1 \<Longrightarrow> pr_loop fn f L s = run1 fn f L s"
    "pr_state L = 2 \<Longrightarrow> pr_loop fn f L s = run2 fn f L s"
    "pr_state L = 3 \<Longrightarrow> pr_loop fn f L s = run3 fn f L s"
  using assms by (simp_all add: run_defs pr_loop.simps [of fn f L s] pr_switch_def bind_pair)

lemma loop_text:
  "pr_state L = 0 \<Longrightarrow> mem s f \<noteq> 0 \<Longrightarrow> mem s f \<noteq> 0x25 \<Longrightarrow>
    pr_loop fn f L s = pr_loop fn (f + 1) (L\<lparr>pr_count := pr_count L + 1\<rparr>) (fn (mem s f) s)"
  by (simp add: run_defs pr_loop.simps [of fn f L s] pr_switch_def pr_case0_def Let_def)

lemma loop_percent:
  "pr_state L = 0 \<Longrightarrow> mem s f = 0x25 \<Longrightarrow> pr_loop fn f L s = run1 fn (f + 1) (L\<lparr>pr_state := 1\<rparr>) s"
  by (simp add: run_defs pr_loop.simps [of fn f L s] pr_switch_def pr_case0_def Let_def)

lemma run1_percent:
  "mem s f = 0x25 \<Longrightarrow> run1 fn f L s = pr_loop fn (f + 1) (pr_reset (L\<lparr>pr_count := pr_count L + 1\<rparr>)) (fn 0x25 s)"
  by (simp add: run_defs pr_case1_def Let_def)

lemma run1_left:
  "pr_state L = 1 \<Longrightarrow> pr_flags L = 0 \<Longrightarrow> mem s f = 0x2D \<Longrightarrow> mem s (f + 1) \<noteq> 0 \<Longrightarrow>
    run1 fn f L s = run1 fn (f + 1) (L\<lparr>pr_flags := PR_LJ\<rparr>) s"
  by (simp add: run_defs pr_case1_def Let_def loop_state)

lemma run1_zero:
  "pr_state L = 1 \<Longrightarrow> mem s f = 0x30 \<Longrightarrow>
    run1 fn f L s = run2 fn (f + 1) (L\<lparr>pr_state := 2, pr_flags := pr_flags L OR PR_LZ\<rparr>) s"
  by (simp add: run_defs pr_case1_def Let_def bind_pair)

lemma run1_other:
  "pr_state L = 1 \<Longrightarrow> mem s f \<notin> {0x25, 0x2D, 0x30} \<Longrightarrow> run1 fn f L s = run2 fn f (L\<lparr>pr_state := 2\<rparr>) s"
  by (simp add: run_defs pr_case1_def Let_def bind_pair)

lemma run2_digit:
  "pr_state L = 2 \<Longrightarrow> 0x30 \<le> mem s f \<Longrightarrow> mem s f \<le> 0x39 \<Longrightarrow> mem s (f + 1) \<noteq> 0 \<Longrightarrow>
    run2 fn f L s = run2 fn (f + 1) (L\<lparr>pr_wd := 10 * pr_wd L + (ucast (mem s f) - 0x30)\<rparr>) s"
  by (simp add: run_defs pr_case2_def Let_def loop_state)

lemma run2_other:
  "pr_state L = 2 \<Longrightarrow> \<not> (0x30 \<le> mem s f \<and> mem s f \<le> 0x39) \<Longrightarrow> run2 fn f L s = run3 fn f (L\<lparr>pr_state := 3\<rparr>) s"
  by (auto simp: run_defs pr_case2_def Let_def)

lemma run3_size:
  "pr_state L = 3 \<Longrightarrow> mem s f = 0x6C \<Longrightarrow> mem s (f + 1) \<noteq> 0 \<Longrightarrow>
    run3 fn f L s = run3 fn (f + 1) (L\<lparr>pr_flags := pr_flags L OR PR_32\<rparr>) s"
  "pr_state L = 3 \<Longrightarrow> mem s f = 0x68 \<Longrightarrow> mem s (f + 1) \<noteq> 0 \<Longrightarrow>
    run3 fn f L s = run3 fn (f + 1) (L\<lparr>pr_flags := pr_flags L OR PR_16\<rparr>) s"
  by (simp_all add: run_defs pr_case3_def Let_def loop_state)

lemma run3_other:
  "pr_state L = 3 \<Longrightarrow> mem s f \<notin> {0x46, 0x4E, 0x6C, 0x68} \<Longrightarrow> run3 fn f L s = run4 fn f (L\<lparr>pr_state := 4\<rparr>) s"
  by (simp add: run_defs pr_case3_def Let_def)

text \<open>A width is read digit by digit.\<close>

lemma digit_byte: "d < 10 \<Longrightarrow> digit_char False d = of_nat (d + 48)"
  by (simp add: digit_char_def)

lemma digit_byte_facts:
  assumes "d < 10"
  shows "0x30 \<le> digit_char False d" "digit_char False d \<le> 0x39" "ucast (digit_char False d) - 0x30 = (of_nat d :: u32)"
proof -
  have u: "unat (of_nat (d + 48) :: u8) = d + 48" using assms by (simp only: unat_of_nat) simp
  then show "0x30 \<le> digit_char False d" "digit_char False d \<le> 0x39"
    using assms by (simp_all only: digit_byte [OF assms] word_le_nat_alt) simp_all
  have "ucast (digit_char False d) = (of_nat (unat (digit_char False d)) :: u32)" by simp
  also have "\<dots> = of_nat (d + 48)" by (simp only: digit_byte [OF assms] u)
  finally show "ucast (digit_char False d) - 0x30 = (of_nat d :: u32)" by simp
qed

lemma run2_digits:
  "pr_state L = 2 \<Longrightarrow> text_at (mem s) f (map (digit_char False) ds) \<Longrightarrow> \<forall>d \<in> set ds. d < 10 \<Longrightarrow>
    mem s (f + of_nat (length ds)) \<noteq> 0 \<Longrightarrow>
    run2 fn f L s = run2 fn (f + of_nat (length ds)) (L\<lparr>pr_wd := foldl (\<lambda>w d. 10 * w + of_nat d) (pr_wd L) ds\<rparr>) s"
proof (induction ds arbitrary: f L)
  case (Cons d ds)
  note b = digit_byte_facts [of d]
  have nz: "mem s (f + 1) \<noteq> 0"
    using Cons.prems digit_byte_facts(1) [of "hd ds"] by (cases ds) (auto simp: add.assoc)
  have "run2 fn f L s = run2 fn (f + 1) (L\<lparr>pr_wd := 10 * pr_wd L + of_nat d\<rparr>) s"
    using run2_digit [of L s f fn] Cons.prems b nz by simp
  then show ?case
    using Cons.IH [of "L\<lparr>pr_wd := 10 * pr_wd L + of_nat d\<rparr>" "f + 1"] Cons.prems by (simp add: add.assoc)
qed simp

lemma foldl_of_nat:
  "foldl (\<lambda>w d. 10 * w + of_nat d) (of_nat a) ds = (of_nat (foldl (\<lambda>a d. a * 10 + d) a ds) :: u32)"
proof (induction ds arbitrary: a)
  case (Cons d ds)
  have "10 * of_nat a + of_nat d = (of_nat (a * 10 + d) :: u32)" by simp
  then show ?case by (simp only: foldl.simps Cons.IH)
qed simp

text \<open>The head of a conversion, up to its conversion character.\<close>

definition conv_flags :: "bool \<Rightarrow> bool \<Rightarrow> size_mod \<Rightarrow> u32" where
  "conv_flags left zero m = (if left then PR_LJ else 0) OR (if zero then PR_LZ else 0)
     OR (case m of Plain \<Rightarrow> 0 | Short \<Rightarrow> PR_16 | Long \<Rightarrow> PR_32)"

definition locals :: "u32 \<Rightarrow> u32 \<Rightarrow> u32 \<Rightarrow> u32 \<Rightarrow> u32 list \<Rightarrow> pr_locals" where
  "locals st flags wd count args =
     \<lparr>pr_state = st, pr_flags = flags, pr_wd = wd, pr_count = count, pr_args = args\<rparr>"

lemma locals_simps [simp]:
  "pr_state (locals st fl wd n as) = st" "pr_flags (locals st fl wd n as) = fl" "pr_wd (locals st fl wd n as) = wd"
  "pr_count (locals st fl wd n as) = n" "pr_args (locals st fl wd n as) = as"
  "(locals st fl wd n as)\<lparr>pr_state := st'\<rparr> = locals st' fl wd n as"
  "(locals st fl wd n as)\<lparr>pr_flags := fl'\<rparr> = locals st fl' wd n as"
  "(locals st fl wd n as)\<lparr>pr_wd := wd'\<rparr> = locals st fl wd' n as"
  "(locals st fl wd n as)\<lparr>pr_count := n'\<rparr> = locals st fl wd n' as"
  "(locals st fl wd n as)\<lparr>pr_args := as'\<rparr> = locals st fl wd n as'"
  "pr_reset (locals st fl wd n as) = locals 0 0 0 n as"
  by (simp_all add: locals_def pr_reset_def)

lemma conv_char_facts:
  "conv_char k \<noteq> 0" "conv_char k \<notin> {0x25, 0x2D, 0x30}" "conv_char k \<notin> {0x46, 0x4E, 0x6C, 0x68}"
  "\<not> (0x30 \<le> conv_char k \<and> conv_char k \<le> 0x39)"
  by (cases k; simp)+

lemma size_run:
  assumes "text_at (mem s) f (size_text m @ [conv_char k])"
  shows "run3 fn f (locals 3 fl wd n as) s = run4 fn (f + of_nat (length (size_text m)))
    (locals 4 (fl OR (case m of Plain \<Rightarrow> 0 | Short \<Rightarrow> PR_16 | Long \<Rightarrow> PR_32)) wd n as) s"
proof -
  have o: "mem s g = conv_char k \<Longrightarrow> run3 fn g (locals 3 fl' wd n as) s = run4 fn g (locals 4 fl' wd n as) s" for g fl'
    using run3_other [of "locals 3 fl' wd n as" s g fn] conv_char_facts(3) [of k] by simp
  show ?thesis
    using assms o run3_size [of "locals 3 fl wd n as" s f fn] conv_char_facts(1) [of k]
    by (cases m) simp_all
qed

lemma width_run:
  assumes "text_at (mem s) f ((if wd = 0 then [] else map (digit_char False) (digits 10 wd)) @ size_text m @ [conv_char k])"
    and "wd < 4294967296"
  shows "run2 fn f (locals 2 fl 0 n as) s =
    run3 fn (f + of_nat (if wd = 0 then 0 else length (digits 10 wd))) (locals 3 fl (of_nat wd) n as) s"
proof -
  let ?ds = "if wd = 0 then [] else digits 10 wd"
  have t: "text_at (mem s) f (map (digit_char False) ?ds @ size_text m @ [conv_char k])" using assms(1) by (simp split: if_splits)
  have c: "mem s (f + of_nat (length ?ds)) \<in> {0x68, 0x6C, conv_char k}" using t by (cases m) auto
  then have nz: "mem s (f + of_nat (length ?ds)) \<noteq> 0" using conv_char_facts(1) [of k] by auto
  have nd: "\<not> (0x30 \<le> mem s (f + of_nat (length ?ds)) \<and> mem s (f + of_nat (length ?ds)) \<le> 0x39)"
    using c conv_char_facts(4) [of k] by auto
  have "\<forall>d \<in> set ?ds. d < 10" using digits_less [of 10 _ wd] by auto
  then have "run2 fn f (locals 2 fl 0 n as) s = run2 fn (f + of_nat (length ?ds))
      (locals 2 fl (foldl (\<lambda>w d. 10 * w + of_nat d) 0 ?ds) n as) s"
    using run2_digits [of "locals 2 fl 0 n as" s f ?ds fn] t nz by simp
  moreover have "foldl (\<lambda>w d. 10 * w + of_nat d) 0 ?ds = (of_nat wd :: u32)"
    using foldl_of_nat [of 0 "digits 10 wd"] digits_value [of 10 wd] by simp
  ultimately show ?thesis
    using run2_other [of "locals 2 fl (of_nat wd) n as" s "f + of_nat (length ?ds)" fn, OF _ nd] by (simp split: if_splits)
qed

lemma head_run:
  assumes "text_at (mem s) f (render (Conv left zero wd m k))" "wd < 4294967296"
    and "g = f + of_nat (length (render (Conv left zero wd m k))) - 1"
  shows "pr_loop fn f (locals 0 0 0 n as) s = run4 fn g (locals 4 (conv_flags left zero m) (of_nat wd) n as) s
    \<and> mem s g = conv_char k"
proof -
  let ?W = "if wd = 0 then [] else map (digit_char False) (digits 10 wd)"
  let ?Z = "if zero then [0x30 :: u8] else []" and ?L = "if left then [0x2D :: u8] else []"
  define f1 where "f1 = f + 1"
  define f2 where "f2 = f1 + of_nat (length ?L)"
  define f3 where "f3 = f2 + of_nat (length ?Z)"
  define f4 where "f4 = f3 + of_nat (length ?W)"
  have t: "mem s f = 0x25" "text_at (mem s) f1 ?L" "text_at (mem s) f2 ?Z" "text_at (mem s) f3 (?W @ size_text m @ [conv_char k])"
    "text_at (mem s) f4 (size_text m @ [conv_char k])"
    using assms(1) by (simp_all add: f1_def f2_def f3_def f4_def add.assoc)
  have d: "mem s f3 \<in> {0x68, 0x6C, conv_char k} \<or> wd \<noteq> 0 \<and> mem s f3 = digit_char False (hd (digits 10 wd))"
    using t(4) by (cases "wd = 0"; cases m; cases "digits 10 wd") auto
  have hd: "wd \<noteq> 0 \<Longrightarrow> hd (digits 10 wd) < 10" "wd \<noteq> 0 \<Longrightarrow> hd (digits 10 wd) \<noteq> 0"
    using digits_less [of 10 _ wd] digits_head [of 10 wd] hd_in_set [of "digits 10 wd"] by auto
  have nz3: "mem s f3 \<noteq> 0"
    using d conv_char_facts(1) [of k] digit_byte_facts(1) [OF hd(1)] by auto
  have n3: "mem s f3 \<notin> {0x25, 0x2D, 0x30}"
  proof -
    have "digit_char False e \<notin> {0x25, 0x2D, 0x30}" if "e < 10" "e \<noteq> 0" for e
    proof -
      have "e \<in> {1, 2, 3, 4, 5, 6, 7, 8, 9}" using that by auto
      then show ?thesis by (auto simp: digit_char_def)
    qed
    then show ?thesis using d conv_char_facts(2) [of k] hd by auto
  qed
  have nz2: "mem s f2 \<noteq> 0" using t(3) nz3 by (cases zero) (simp_all add: f3_def)
  have a: "pr_loop fn f (locals 0 0 0 n as) s = run1 fn f1 (locals 1 0 0 n as) s"
    using loop_percent [of "locals 0 0 0 n as" s f fn] t(1) by (simp add: f1_def)
  have b: "run1 fn f1 (locals 1 0 0 n as) s = run1 fn f2 (locals 1 (if left then PR_LJ else 0) 0 n as) s"
    using run1_left [of "locals 1 0 0 n as" s f1 fn] t(2) nz2 by (cases left) (simp_all add: f2_def)
  have c: "run1 fn f2 (locals 1 fl 0 n as) s = run2 fn f3 (locals 2 (fl OR (if zero then PR_LZ else 0)) 0 n as) s" for fl
    using run1_zero [of "locals 1 fl 0 n as" s f2 fn] run1_other [of "locals 1 fl 0 n as" s f2 fn] t(3) n3
    by (cases zero) (simp_all add: f3_def)
  have w: "run2 fn f3 (locals 2 fl 0 n as) s = run3 fn f4 (locals 3 fl (of_nat wd) n as) s" for fl
    using width_run [OF t(4) assms(2)] by (simp add: f4_def split: if_splits)
  have g: "g = f4 + of_nat (length (size_text m))"
    unfolding assms(3) by (simp add: f1_def f2_def f3_def f4_def)
  show ?thesis
    unfolding a b c w size_run [OF t(5)] g using t(5) by (simp add: conv_flags_def or.assoc)
qed

section \<open>Printing through a sink\<close>

locale char_sink =
  fixes fn :: "u8 \<Rightarrow> 'a machine_scheme \<Rightarrow> 'a machine_scheme"
    and good :: "'a machine_scheme \<Rightarrow> bool"
    and region :: "'a machine_scheme \<Rightarrow> u32 set"
  assumes good_put: "good s \<Longrightarrow> good (fn c s)"
    and region_put: "good s \<Longrightarrow> region (fn c s) = region s"
    and mem_put: "good s \<Longrightarrow> x \<notin> region s \<Longrightarrow> mem (fn c s) x = mem s x"
begin

definition follows :: "'a machine_scheme \<Rightarrow> 'a machine_scheme \<Rightarrow> bool" where
  "follows s s' \<longleftrightarrow> good s' \<and> region s' = region s \<and> (\<forall>x. x \<notin> region s \<longrightarrow> mem s' x = mem s x)"

lemma follows_put: "follows s s' \<Longrightarrow> follows s (fn c s')"
  using good_put region_put mem_put by (auto simp: follows_def)

lemma follows_fold: "follows s s' \<Longrightarrow> follows s (fold fn bs s')"
  by (induction bs arbitrary: s') (simp_all add: follows_put)

lemma follows_refl: "good s \<Longrightarrow> follows s s"
  by (simp add: follows_def)

lemma emit_mem:
  "cstring (mem s) p bs \<Longrightarrow> span p (Suc (length bs)) \<inter> region s = {} \<Longrightarrow> follows s s' \<Longrightarrow>
    pr_emit_mem fn p count s' = Some (count + of_nat (length bs), fold fn bs s')"
proof (induction bs arbitrary: p count s')
  case Nil
  then have "mem s' p = 0" using self_in_span [of 1 p] by (auto simp: follows_def)
  then show ?case by (simp add: pr_emit_mem.simps)
next
  case (Cons b bs)
  have "p \<notin> region s" using Cons.prems(2) self_in_span [of "Suc (length (b # bs))" p] by auto
  then have m: "mem s' p = b" "b \<noteq> 0" using Cons.prems by (auto simp: follows_def)
  have "length (b # bs) < 4294967296" by (rule cstring_length [OF Cons.prems(1)])
  then have "span (p + 1) (Suc (length bs)) \<subseteq> span p (Suc (length (b # bs)))"
    using span_offset [of _ p 1 "Suc (length bs)" "Suc (length (b # bs))"] by auto
  then have "pr_emit_mem fn (p + 1) (count + 1) (fn b s') = Some (count + 1 + of_nat (length bs), fold fn bs (fn b s'))"
    using Cons.IH [of "p + 1" "fn b s'" "count + 1"] Cons.prems follows_put by auto
  then show ?case using m by (simp add: pr_emit_mem.simps [of fn p count s'] add.assoc)
qed

lemma emit_buf: "pr_emit_buf fn bs count s = (count + of_nat (length (takeWhile (\<lambda>b. b \<noteq> 0) bs)), fold fn (takeWhile (\<lambda>b. b \<noteq> 0) bs) s)"
  by (induction bs arbitrary: count s) (simp_all add: add.assoc)

end

lemma padl_fold:
  "pr_padl fn c given actual count s =
    (if actual < given then (actual, count + (given - actual), fold fn (replicate (unat given - unat actual) c) s)
     else (given, count, s))"
proof (induction fn c given actual count s rule: pr_padl.induct)
  case (1 fn c given actual count s)
  show ?case
  proof (cases "actual < given")
    case True
    then have "given \<noteq> 0" by auto
    then have g: "unat (given - 1) = unat given - 1" "unat actual < unat given" "given \<noteq> 0"
      using True by (simp_all add: unat_minus_one word_less_nat_alt)
    then have r: "unat given - unat actual = Suc (unat (given - 1) - unat actual)" by simp
    have e: "\<not> actual < given - 1 \<Longrightarrow> given - 1 = actual"
      using g by (simp add: word_less_nat_alt word_unat_eq_iff)
    show ?thesis
      using 1 [OF True] True g(2) e by (subst pr_padl.simps) (auto simp: r algebra_simps)
  qed (simp add: pr_padl.simps [of fn c given])
qed

lemma padr_fold: "pr_padr fn given count s = (count + given, fold fn (replicate (unat given) 0x20) s)"
proof (induction fn given count s rule: pr_padr.induct)
  case (1 fn given count s)
  show ?case
  proof (cases "given = 0")
    case False
    then have "unat given = Suc (unat (given - 1))" using unat_minus_one [of given] by (simp add: unat_gt_0)
    then show ?thesis using 1 [OF False] False by (subst pr_padr.simps) simp
  qed (simp add: pr_padr.simps)
qed

text \<open>The flags that decide where sign and padding go.\<close>

definition fl_bit :: "u32 \<Rightarrow> u32 \<Rightarrow> bool" where
  "fl_bit fl b \<longleftrightarrow> fl AND b \<noteq> 0"

lemma and_pow: "fl AND (2 ^ n) = (if bit fl n then 2 ^ n else 0)" for fl :: u32
  by (rule bit_word_eqI) (auto simp: bit_simps)

lemma sign_flags:
  "fl AND (PR_WS OR PR_LZ) = PR_WS \<longleftrightarrow> fl_bit fl PR_WS \<and> \<not> fl_bit fl PR_LZ"
  "fl AND (PR_WS OR PR_LZ) = (PR_WS OR PR_LZ) \<longleftrightarrow> fl_bit fl PR_WS \<and> fl_bit fl PR_LZ"
proof -
  have a: "fl AND 32 = (if bit fl 5 then 32 else 0)" "fl AND 64 = (if bit fl 6 then 64 else 0)"
    using and_pow [of fl 5] and_pow [of fl 6] by simp_all
  have c: "fl AND 96 = (fl AND 32) OR (fl AND 64)" using bit.conj_disj_distrib [of fl 32 64] by simp
  show "fl AND (PR_WS OR PR_LZ) = PR_WS \<longleftrightarrow> fl_bit fl PR_WS \<and> \<not> fl_bit fl PR_LZ"
    "fl AND (PR_WS OR PR_LZ) = (PR_WS OR PR_LZ) \<longleftrightarrow> fl_bit fl PR_WS \<and> fl_bit fl PR_LZ"
    by (simp_all add: PR_defs fl_bit_def c a)
qed

context char_sink
begin

definition emits :: "'a machine_scheme \<Rightarrow> pr_src \<Rightarrow> u8 list \<Rightarrow> bool" where
  "emits s src body \<longleftrightarrow> (\<forall>s' count. follows s s' \<longrightarrow>
     pr_emit fn src count s' = Some (count + of_nat (length body), fold fn body s'))"

lemma emits_buf: "emits s (Buf bs) (takeWhile (\<lambda>b. b \<noteq> 0) bs)"
  by (simp add: emits_def emit_buf)

lemma emits_str: "cstring (mem s) p bs \<Longrightarrow> span p (Suc (length bs)) \<inter> region s = {} \<Longrightarrow> emits s (Str p) bs"
  by (simp add: emits_def emit_mem)

lemma EMIT2_out:
  assumes "emits s src body" "follows s s'"
    and o: "out = (if fl_bit fl PR_LJ then [] else replicate (unat wd - unat aw) (if fl_bit fl PR_LZ then 0x30 else 0x20))
      @ (if fl_bit fl PR_WS \<and> \<not> fl_bit fl PR_LZ then [0x2D] else []) @ body
      @ (if fl_bit fl PR_LJ then replicate (unat wd - unat aw) 0x20 else [])"
  shows "pr_EMIT2 fn src aw (locals st fl wd n as) s' =
    Some (locals 0 0 0 (n + of_nat (length out)) as, fold fn out s')"
proof -
  define lead where "lead = (if fl_bit fl PR_LJ then [] else replicate (unat wd - unat aw) (if fl_bit fl PR_LZ then 0x30 else (0x20 :: u8)))"
  define sg where "sg = (if fl_bit fl PR_WS \<and> \<not> fl_bit fl PR_LZ then [0x2D :: u8] else [])"
  define trail where "trail = (if fl_bit fl PR_LJ then replicate (unat wd - unat aw) (0x20 :: u8) else [])"
  define wd' where "wd' = (if \<not> fl_bit fl PR_LJ \<and> aw < wd then aw else wd)"
  have sub: "aw < wd \<Longrightarrow> of_nat (unat wd - unat aw) = wd - aw"
    by (simp add: word_less_nat_alt)
  have lead: "(if fl AND PR_LJ = 0 then pr_padl fn (if fl AND PR_LZ \<noteq> 0 then 0x30 else 0x20) wd aw n s' else (wd, n, s'))
    = (wd', n + of_nat (length lead), fold fn lead s')"
    using sub by (auto simp: padl_fold lead_def wd'_def fl_bit_def word_less_nat_alt)
  have sgn: "(if fl AND (PR_WS OR PR_LZ) = PR_WS then (c + 1, fn 0x2D t) else (c, t)) = (c + of_nat (length sg), fold fn sg t)"
    for c t by (simp add: sign_flags sg_def)
  have f: "follows s (fold fn sg (fold fn lead s'))" by (intro follows_fold assms)
  have e: "pr_emit fn src c (fold fn sg (fold fn lead s')) =
      Some (c + of_nat (length body), fold fn body (fold fn sg (fold fn lead s')))" for c
    using assms(1) f by (simp add: emits_def)
  have tr: "pr_padr fn (if wd' < aw then 0 else wd' - aw) c t = (c + of_nat (length trail), fold fn trail t)" for c t
  proof -
    have "(if wd' < aw then 0 else wd' - aw) = of_nat (length trail)"
      using sub by (auto simp: wd'_def trail_def word_less_nat_alt not_less word_unat_eq_iff unat_sub word_le_nat_alt)
    moreover have "unat (of_nat (length trail) :: u32) = length trail"
      using unat_less_2p32 [of wd] by (simp add: trail_def unat_of_nat)
    ultimately show ?thesis by (simp add: padr_fold trail_def split: if_splits)
  qed
  have "out = lead @ sg @ body @ trail" by (simp add: o lead_def sg_def trail_def)
  then show ?thesis
    by (simp only: pr_EMIT2_def Let_def locals_simps lead prod.case sgn e tr bind.simps) (simp add: add.assoc)
qed

lemma EMIT_out:
  assumes e: "emits s src body" "good s" and l: "pr_strlen (mem s) src = Some (of_nat (length body))"
    "(if fl_bit fl PR_WS then 1 else 0) + length body < 4294967296"
    and o: "out = justify (fl_bit fl PR_LJ) (fl_bit fl PR_LZ) (unat wd)
      ((if fl_bit fl PR_WS then 1 else 0) + length body) (if fl_bit fl PR_WS then [0x2D] else []) body"
  shows "pr_EMIT fn src (locals st fl wd n as) s =
    Some (locals 0 0 0 (n + of_nat (length out)) as, fold fn out s)"
proof -
  define neg zero left where "neg = fl_bit fl PR_WS" and "zero = fl_bit fl PR_LZ" and "left = fl_bit fl PR_LJ"
  define aw where "aw = (if fl AND PR_WS \<noteq> 0 then of_nat (length body) + 1 else of_nat (length body) :: u32)"
  have k: "unat (of_nat (length body) :: u32) = length body" using l(2) by (simp add: unat_of_nat split: if_splits)
  then have k1: "fl_bit fl PR_WS \<Longrightarrow> unat (of_nat (length body) + 1 :: u32) = Suc (length body)"
    using unat_plus_small [of "of_nat (length body)" 1] l(2) by simp
  have aw: "unat aw = (if neg then 1 else 0) + length body"
    unfolding aw_def neg_def fl_bit_def using k k1 [unfolded fl_bit_def] by (cases "fl AND PR_WS = 0") (simp_all only: if_True if_False not_True_eq_False not_False_eq_True add_0 plus_1_eq_Suc simp_thms)
  define first where "first = (if neg \<and> zero then [0x2D :: u8] else [])"
  define rest where "rest = (if left then [] else replicate (unat wd - unat aw) (if zero then 0x30 else (0x20 :: u8)))
      @ (if neg \<and> \<not> zero then [0x2D] else []) @ body @ (if left then replicate (unat wd - unat aw) 0x20 else [])"
  have out: "out = first @ rest"
    by (auto simp: o justify_def first_def rest_def aw neg_def zero_def left_def)
  have two: "pr_EMIT2 fn src aw (locals st fl wd c as) (fold fn first s) =
      Some (locals 0 0 0 (c + of_nat (length rest)) as, fold fn rest (fold fn first s))" for c
    by (rule EMIT2_out [OF e(1) follows_fold [OF follows_refl [OF e(2)]]])
      (simp add: rest_def neg_def zero_def left_def)
  have "pr_EMIT fn src (locals st fl wd n as) s =
      pr_EMIT2 fn src aw (locals st fl wd (n + of_nat (length first)) as) (fold fn first s)"
    by (simp add: pr_EMIT_def l(1) sign_flags first_def neg_def zero_def flip: aw_def)
  then show ?thesis by (simp add: two out add.assoc)
qed

end

lemma digit_char_nonzero: "d < 16 \<Longrightarrow> digit_char upper d \<noteq> 0"
proof -
  assume d: "d < 16"
  have "unat (digit_char upper d) = (if d < 10 then d + 48 else if upper then d + 55 else d + 87)"
    using d by (simp only: digit_char_def unat_of_nat) auto
  then show ?thesis by (auto simp flip: unat_eq_0 split: if_splits)
qed

lemma digit_text:
  "takeWhile (\<lambda>b. b \<noteq> 0) (map (digit_char upper) (digits (radix_nat r) n)) = map (digit_char upper) (digits (radix_nat r) n)"
proof -
  have "d < 16" if "d \<in> set (digits (radix_nat r) n)" for d
    using digits_less [OF radix_nat(2) that] radix_nat(4) [of r] by linarith
  then show ?thesis by (auto simp: takeWhile_eq_all_conv digit_char_nonzero)
qed

lemma digits_length: "2 \<le> b \<Longrightarrow> n < b ^ k \<Longrightarrow> 0 < k \<Longrightarrow> length (digits b n) \<le> k"
proof (induction b n arbitrary: k rule: digits.induct)
  case (1 b n)
  show ?case
  proof (cases "n < b")
    case False
    obtain j where j: "k = Suc j" using 1(4) by (cases k) auto
    have "n div b < b ^ j" using 1(2,3) by (simp add: j less_mult_imp_div_less mult.commute)
    moreover have "0 < j" using False 1(3) j by (cases j) auto
    ultimately show ?thesis using 1(1) [of j] 1(2) False by (simp add: digits.simps [of b n] j)
  qed (use 1 in \<open>simp add: digits.simps\<close>)
qed

context char_sink
begin

text \<open>A number is printed with its sign, in its radix.\<close>

lemma EMIT_number:
  assumes "good s" "unat num = nat \<bar>v\<bar>"
    and f: "fl_bit fl PR_LJ = left" "fl_bit fl PR_LZ = zero" "fl_bit fl PR_WS = (v < 0)" "fl_bit fl PR_CA = upper"
    and o: "out = number left zero (unat wd) upper (radix_nat r) v"
  shows "pr_EMIT fn (Buf (pr_num fl r num [])) (locals st fl wd n as) s =
    Some (locals 0 0 0 (n + of_nat (length out)) as, fold fn out s)"
proof -
  let ?b = "map (digit_char upper) (digits (radix_nat r) (nat \<bar>v\<bar>))"
  have b: "pr_num fl r num [] = ?b" using f(4) assms(2) by (simp add: pr_num_digits fl_bit_def)
  have "unat num < radix_nat r ^ 32"
    using unat_less_2p32 [of num] power_mono [OF radix_nat(2) [of r], of 32] by simp
  then have l: "length ?b \<le> 32" using digits_length [OF radix_nat(2), of "unat num" r 32] assms(2) by simp
  show ?thesis
    unfolding b
  proof (rule EMIT_out [OF _ assms(1)])
    show "emits s (Buf ?b) ?b" using emits_buf [of s ?b] by (simp only: digit_text)
    show "pr_strlen (mem s) (Buf ?b) = Some (of_nat (length ?b))" by (simp only: pr_strlen.simps digit_text)
    show "(if fl_bit fl PR_WS then 1 else 0) + length ?b < 4294967296" using l by auto
  qed (simp add: o number_def Let_def f)
qed

end

section \<open>Conversions\<close>

lemma fl_bit_or: "fl_bit (x OR y) b \<longleftrightarrow> fl_bit x b \<or> fl_bit y b"
  by (simp add: fl_bit_def bit.conj_disj_distrib2 or_eq_0_iff)

lemma fl_bit_if: "fl_bit (if c then x else y) b \<longleftrightarrow> (if c then fl_bit x b else fl_bit y b)"
  by simp

lemma fl_bit_const [simp]:
  "\<not> fl_bit 0 b"
  "fl_bit PR_LJ PR_LJ" "\<not> fl_bit PR_LJ PR_CA" "\<not> fl_bit PR_LJ PR_SG" "\<not> fl_bit PR_LJ PR_32" "\<not> fl_bit PR_LJ PR_16"
  "\<not> fl_bit PR_LJ PR_WS" "\<not> fl_bit PR_LJ PR_LZ"
  "fl_bit PR_CA PR_CA" "\<not> fl_bit PR_CA PR_LJ" "\<not> fl_bit PR_CA PR_SG" "\<not> fl_bit PR_CA PR_32" "\<not> fl_bit PR_CA PR_16"
  "\<not> fl_bit PR_CA PR_WS" "\<not> fl_bit PR_CA PR_LZ"
  "fl_bit PR_SG PR_SG" "\<not> fl_bit PR_SG PR_LJ" "\<not> fl_bit PR_SG PR_CA" "\<not> fl_bit PR_SG PR_32" "\<not> fl_bit PR_SG PR_16"
  "\<not> fl_bit PR_SG PR_WS" "\<not> fl_bit PR_SG PR_LZ"
  "fl_bit PR_32 PR_32" "\<not> fl_bit PR_32 PR_LJ" "\<not> fl_bit PR_32 PR_CA" "\<not> fl_bit PR_32 PR_SG" "\<not> fl_bit PR_32 PR_16"
  "\<not> fl_bit PR_32 PR_WS" "\<not> fl_bit PR_32 PR_LZ"
  "fl_bit PR_16 PR_16" "\<not> fl_bit PR_16 PR_LJ" "\<not> fl_bit PR_16 PR_CA" "\<not> fl_bit PR_16 PR_SG" "\<not> fl_bit PR_16 PR_32"
  "\<not> fl_bit PR_16 PR_WS" "\<not> fl_bit PR_16 PR_LZ"
  "fl_bit PR_WS PR_WS" "\<not> fl_bit PR_WS PR_LJ" "\<not> fl_bit PR_WS PR_CA" "\<not> fl_bit PR_WS PR_SG" "\<not> fl_bit PR_WS PR_32"
  "\<not> fl_bit PR_WS PR_16" "\<not> fl_bit PR_WS PR_LZ"
  "fl_bit PR_LZ PR_LZ" "\<not> fl_bit PR_LZ PR_LJ" "\<not> fl_bit PR_LZ PR_CA" "\<not> fl_bit PR_LZ PR_SG" "\<not> fl_bit PR_LZ PR_32"
  "\<not> fl_bit PR_LZ PR_16" "\<not> fl_bit PR_LZ PR_WS"
  by (simp_all add: fl_bit_def PR_defs)

lemma conv_flags_bits [simp]:
  "fl_bit (conv_flags left zero m) PR_LJ = left" "fl_bit (conv_flags left zero m) PR_LZ = zero"
  "fl_bit (conv_flags left zero m) PR_32 = (m = Long)" "fl_bit (conv_flags left zero m) PR_16 = (m = Short)"
  "\<not> fl_bit (conv_flags left zero m) PR_CA" "\<not> fl_bit (conv_flags left zero m) PR_SG"
  "\<not> fl_bit (conv_flags left zero m) PR_WS"
  by (cases m; simp add: conv_flags_def fl_bit_or)+

lemma without_zero [simp]:
  "fl_bit (conv_flags left zero m AND NOT PR_LZ) PR_LJ = left"
  "\<not> fl_bit (conv_flags left zero m AND NOT PR_LZ) PR_LZ" "\<not> fl_bit (conv_flags left zero m AND NOT PR_LZ) PR_WS"
  by (cases left; cases zero; cases m; simp add: conv_flags_def fl_bit_def PR_defs)+

text \<open>The value of a numeric argument.\<close>

lemma va_num:
  assumes "fl_bit fl PR_32 = (m = Long)" "fl_bit fl PR_16 = (m = Short)"
  shows "fl_bit fl PR_SG \<Longrightarrow> sint (pr_va_num fl a) = signed_of m a"
    "\<not> fl_bit fl PR_SG \<Longrightarrow> uint (pr_va_num fl a) = unsigned_of m a"
proof -
  have "sint (scast x :: u32) = sint x" for x :: u16
    using sint_ge [of x] sint_less [of x] by (simp add: signed_scast_eq signed_take_bit_int_eq_self_iff)
  then show "fl_bit fl PR_SG \<Longrightarrow> sint (pr_va_num fl a) = signed_of m a"
    using assms by (auto simp: pr_va_num_def signed_of_def fl_bit_def)
  have "uint (ucast x :: u32) = uint x" for x :: u16
    using unsigned_less [of x, where 'a = int] by (simp add: unsigned_ucast_eq take_bit_int_eq_self_iff)
  then show "\<not> fl_bit fl PR_SG \<Longrightarrow> uint (pr_va_num fl a) = unsigned_of m a"
    using assms by (auto simp: pr_va_num_def unsigned_of_def fl_bit_def)
qed

lemma magnitude:
  "sint w < 0 \<Longrightarrow> unat (- w) = nat \<bar>sint w\<bar>" "\<not> sint w < 0 \<Longrightarrow> unat w = nat \<bar>sint w\<bar>" for w :: u32
proof -
  have m: "uint w = sint w mod 4294967296" by (simp add: uint_sint take_bit_eq_mod)
  have r: "- 2147483648 \<le> sint w" "sint w < 2147483648" using sint_ge [of w] sint_less [of w] by simp_all
  show "\<not> sint w < 0 \<Longrightarrow> unat w = nat \<bar>sint w\<bar>"
    using m r by (simp add: unat_eq_nat_uint)
  assume n: "sint w < 0"
  have "uint (- w) = (- sint w) mod 4294967296"
    by (simp add: uint_word_ariths m mod_minus_eq)
  then show "unat (- w) = nat \<bar>sint w\<bar>" using n r by (simp add: unat_eq_nat_uint)
qed

text \<open>An argument is available: a string lies in memory, apart from the region of the sink.\<close>

definition arg_ok :: "bytes \<Rightarrow> u32 set \<Rightarrow> arg \<Rightarrow> bool" where
  "arg_ok m R a = (case a of Word w \<Rightarrow> True
     | String p bs \<Rightarrow> cstring m p bs \<and> span p (Suc (length bs)) \<inter> R = {})"

context char_sink
begin

lemma arg_ok_follows: "arg_ok (mem s) (region s) a \<Longrightarrow> follows s s' \<Longrightarrow> arg_ok (mem s') (region s') a"
proof (cases a)
  case (String p bs)
  assume a: "arg_ok (mem s) (region s) a" and f: "follows s s'"
  then have c: "cstring (mem s) p bs" "span p (Suc (length bs)) \<inter> region s = {}" by (simp_all add: arg_ok_def String)
  have "mem s x = mem s' x" if "x \<in> span p (Suc (length bs))" for x
    using that c(2) f unfolding follows_def by (metis IntI empty_iff)
  then have "cstring (mem s') p bs"
    using c(1) cstring_cong [of p bs "mem s" "mem s'"] cstring_length [OF c(1)] by simp
  then show ?thesis using c f by (simp add: arg_ok_def String follows_def)
qed (simp add: arg_ok_def)

lemma DO_NUM_out:
  assumes "good s" and ex: "ex \<in> {0, PR_CA, PR_SG}"
    and o: "out = number left zero (unat wd) (ex = PR_CA) (radix_nat r) (if ex = PR_SG then signed_of m a else unsigned_of m a)"
  shows "pr_DO_NUM fn r (locals st (conv_flags left zero m OR ex) wd n (a # as)) s =
    Some (locals 0 0 0 (n + of_nat (length out)) as, fold fn out s)"
proof -
  let ?fl = "conv_flags left zero m OR ex"
  have d: "PR_CA \<noteq> 0" "PR_SG \<noteq> 0" "PR_CA \<noteq> PR_SG" by (simp_all add: PR_defs)
  have b: "fl_bit ?fl PR_LJ = left" "fl_bit ?fl PR_LZ = zero" "\<not> fl_bit ?fl PR_WS" "fl_bit ?fl PR_CA = (ex = PR_CA)"
    "fl_bit ?fl PR_SG = (ex = PR_SG)" "fl_bit ?fl PR_32 = (m = Long)" "fl_bit ?fl PR_16 = (m = Short)"
    using ex d by (auto simp: fl_bit_or)
  define num where "num = pr_va_num ?fl a"
  define v where "v = (if ex = PR_SG then signed_of m a else unsigned_of m a)"
  have v: "v = (if ex = PR_SG then sint num else uint num)" using va_num [OF b(6,7), of a] b(5) by (simp add: v_def num_def)
  have sg: "?fl AND PR_SG \<noteq> 0 \<longleftrightarrow> ex = PR_SG" using b(5) by (simp add: fl_bit_def)
  show ?thesis
  proof (cases "ex = PR_SG \<and> sint num < 0")
    case True
    have "pr_EMIT fn (Buf (pr_num (?fl OR PR_WS) r (- num) [])) (locals st (?fl OR PR_WS) wd n as) s =
        Some (locals 0 0 0 (n + of_nat (length out)) as, fold fn out s)"
      by (rule EMIT_number [where v = v]) (use True b v magnitude(1) [of num] assms(1) o d in \<open>simp_all add: fl_bit_or v_def\<close>)
    moreover have "?fl AND PR_SG \<noteq> 0" "sint num < 0" using True sg by simp_all
    ultimately show ?thesis by (simp add: pr_DO_NUM_def Let_def flip: num_def)
  next
    case False
    have nn: "\<not> v < 0" using False v by auto
    have "unat num = nat \<bar>v\<bar>"
    proof (cases "ex = PR_SG")
      case True
      then show ?thesis using v False magnitude(2) [of num] by simp
    next
      case False
      then have "v = uint num" using v by simp
      then show ?thesis by (simp only: unat_eq_nat_uint) simp
    qed
    then have "pr_EMIT fn (Buf (pr_num ?fl r num [])) (locals st ?fl wd n as) s =
        Some (locals 0 0 0 (n + of_nat (length out)) as, fold fn out s)"
      by (intro EMIT_number [where v = v]) (use False b nn assms(1) o in \<open>simp_all add: v_def\<close>)
    moreover have c: "(?fl AND PR_SG \<noteq> 0 \<and> sint num < 0) = False" using False sg by simp
    ultimately show ?thesis
      by (simp only: pr_DO_NUM_def locals_simps list.case Let_def c if_False prod.case flip: num_def)
  qed
qed

lemma conv_run:
  assumes "good s" "mem s g = conv_char k" "arg_ok (mem s) (region s) a"
    and o: "conv_out left zero (unat wd) m k a = Some out"
  shows "run4 fn g (locals 4 (conv_flags left zero m) wd n (arg_word a # as)) s =
    pr_loop fn (g + 1) (locals 0 0 0 (n + of_nat (length out)) as) (fold fn out s)"
proof -
  note num = DO_NUM_out [OF assms(1), where left = left and zero = zero and m = m and st = 4 and n = n and as = as
      and a = "arg_word a" and wd = wd]
  note num0 = num [where ex = 0, simplified]
  have d: "PR_CA \<noteq> PR_SG" "PR_CA \<noteq> 0" "PR_SG \<noteq> 0" by (simp_all add: PR_defs)
  have "pr_case4 fn g (locals 4 (conv_flags left zero m) wd n (arg_word a # as)) s =
    Some (locals 0 0 0 (n + of_nat (length out)) as, fold fn out s)"
  proof (cases k)
    case C_c
    let ?c = "ucast (arg_word a) :: u8"
    have "emits s (Buf [?c]) (if ?c = 0 then [] else [?c])" using emits_buf [of s "[?c]"] by (auto split: if_splits)
    then have "pr_EMIT2 fn (Buf [?c]) 1 (locals 4 (conv_flags left zero m AND NOT PR_LZ) wd n as) s =
        Some (locals 0 0 0 (n + of_nat (length out)) as, fold fn out s)"
      using o by (intro EMIT2_out [OF _ follows_refl [OF assms(1)]]) (auto simp: C_c justify_def Let_def)
    then show ?thesis using assms(2) by (simp add: pr_case4_def C_c Let_def)
  next
    case C_s
    obtain p bs where a: "a = String p bs" using o by (cases a) (simp_all add: C_s)
    have c: "cstring (mem s) p bs" "span p (Suc (length bs)) \<inter> region s = {}" using assms(3) by (simp_all add: arg_ok_def a)
    have "pr_EMIT fn (Str p) (locals 4 (conv_flags left zero m AND NOT PR_LZ) wd n as) s =
        Some (locals 0 0 0 (n + of_nat (length out)) as, fold fn out s)"
      by (rule EMIT_out [OF emits_str [OF c] assms(1)]) (use o c(1) cstring_length [OF c(1)] in \<open>simp_all add: C_s a\<close>)
    then show ?thesis using assms(2) by (simp add: pr_case4_def C_s Let_def a)
  qed (use o assms(2) num0 num [where ex = PR_CA] num [where ex = PR_SG] d in
      \<open>simp_all add: pr_case4_def Let_def\<close>)
  then show ?thesis by (simp add: run4_def)
qed

lemma text_follows:
  assumes "text_at (mem s) f (xs @ ys)" "span f (length (xs @ ys)) \<inter> region s = {}" "length (xs @ ys) < 4294967296"
    and "follows s s'"
  shows "text_at (mem s') (f + of_nat (length xs)) ys" "span (f + of_nat (length xs)) (length ys) \<inter> region s' = {}"
proof -
  have "unat (of_nat (length xs) :: u32) = length xs" using assms(3) by (simp add: unat_of_nat)
  then have sub: "x \<in> span f (length (xs @ ys))" if "x \<in> span (f + of_nat (length xs)) (length ys)" for x
    using span_offset [OF that, of "length (xs @ ys)"] assms(3) by simp
  show "span (f + of_nat (length xs)) (length ys) \<inter> region s' = {}"
    using sub assms(2,4) by (auto simp: follows_def)
  have "mem s' x = mem s x" if "x \<in> span (f + of_nat (length xs)) (length ys)" for x
    using sub [OF that] assms(2,4) unfolding follows_def by (metis IntI empty_iff)
  moreover have "text_at (mem s) (f + of_nat (length xs)) ys" using assms(1) by simp
  ultimately show "text_at (mem s') (f + of_nat (length xs)) ys"
    using assms(3) by (intro text_at_cong [of "mem s" _ ys "mem s'"]) simp_all
qed

lemma piece_run:
  assumes "good s" "text_at (mem s) f (render p)" "piece_ok p" "\<forall>a \<in> set args. arg_ok (mem s) (region s) a"
    and "printed (p # ps) args = Some out"
  obtains o1 o2 args' where "out = o1 @ o2" "printed ps args' = Some o2" "set args' \<subseteq> set args"
    "pr_loop fn f (locals 0 0 0 n (map arg_word args)) s =
      pr_loop fn (f + of_nat (length (render p))) (locals 0 0 0 (n + of_nat (length o1)) (map arg_word args')) (fold fn o1 s)"
proof (cases p)
  case (Text b)
  then have "mem s f = b" "b \<noteq> 0" "b \<noteq> 0x25" using assms(2,3) by simp_all
  then have "pr_loop fn f (locals 0 0 0 n (map arg_word args)) s =
      pr_loop fn (f + 1) (locals 0 0 0 (n + 1) (map arg_word args)) (fn b s)"
    using loop_text [of "locals 0 0 0 n (map arg_word args)" s f fn] by simp
  moreover obtain o2 where "printed ps args = Some o2" "out = b # o2" using assms(5) Text by auto
  ultimately show ?thesis using Text by (intro that [of "[b]" o2 args]) simp_all
next
  case Percent
  then have "mem s f = 0x25" "mem s (f + 1) = 0x25" using assms(2) by simp_all
  then have "pr_loop fn f (locals 0 0 0 n (map arg_word args)) s =
      pr_loop fn (2 + f) (locals 0 0 0 (n + 1) (map arg_word args)) (fn 0x25 s)"
    using loop_percent [of "locals 0 0 0 n (map arg_word args)" s f fn]
      run1_percent [of s "f + 1" fn "locals 1 0 0 n (map arg_word args)"] by simp
  moreover obtain o2 where "printed ps args = Some o2" "out = 0x25 # o2" using assms(5) Percent by auto
  ultimately show ?thesis using Percent by (intro that [of "[0x25]" o2 args]) (simp_all add: add.commute)
next
  case (Conv left zero wd m k)
  obtain a as o1 o2 where a: "args = a # as" and o: "conv_out left zero wd m k a = Some o1" "printed ps as = Some o2"
    "out = o1 @ o2"
    using assms(5) unfolding Conv by (cases args) (auto split: bind_splits)
  have wd: "wd < 4294967296" "unat (of_nat wd :: u32) = wd" using assms(3) by (simp_all add: Conv unat_of_nat)
  define g where "g = f + of_nat (length (render p)) - 1"
  have h: "pr_loop fn f (locals 0 0 0 n (map arg_word args)) s =
      run4 fn g (locals 4 (conv_flags left zero m) (of_nat wd) n (map arg_word args)) s" "mem s g = conv_char k"
    using head_run [of s f left zero wd m k g fn n] assms(2) wd(1) unfolding g_def Conv by simp_all
  have "run4 fn g (locals 4 (conv_flags left zero m) (of_nat wd) n (arg_word a # map arg_word as)) s =
      pr_loop fn (g + 1) (locals 0 0 0 (n + of_nat (length o1)) (map arg_word as)) (fold fn o1 s)"
    by (rule conv_run [OF assms(1) h(2)]) (use assms(4) o(1) in \<open>simp_all add: a wd(2)\<close>)
  then have "pr_loop fn f (locals 0 0 0 n (map arg_word args)) s =
      pr_loop fn (f + of_nat (length (render p))) (locals 0 0 0 (n + of_nat (length o1)) (map arg_word as)) (fold fn o1 s)"
    using h(1) by (simp add: a g_def)
  then show ?thesis using o a by (intro that [of o1 o2 as]) auto
qed

text \<open>The pieces \<open>ps\<close> of a text are printed with the first arguments; what follows them, \<open>qs\<close>, is left
  with the rest.\<close>

lemma pieces_run:
  assumes "good s" "text_at (mem s) f (concat (map render ps))" "list_all piece_ok ps"
    and "span f (length (concat (map render ps))) \<inter> region s = {}" "length (concat (map render ps)) < 4294967296"
    and "\<forall>a \<in> set args. arg_ok (mem s) (region s) a" "printed (ps @ qs) args = Some out"
  shows "\<exists>o1 o2 args'. out = o1 @ o2 \<and> printed qs args' = Some o2 \<and> set args' \<subseteq> set args
    \<and> pr_loop fn f (locals 0 0 0 n (map arg_word args)) s =
        pr_loop fn (f + of_nat (length (concat (map render ps)))) (locals 0 0 0 (n + of_nat (length o1)) (map arg_word args')) (fold fn o1 s)"
  using assms
proof (induction ps arbitrary: f n args s out)
  case Nil
  then show ?case by (intro exI [of _ "[]"] exI [of _ out] exI [of _ args]) simp
next
  case (Cons p ps)
  have t: "text_at (mem s) f (render p @ concat (map render ps))" using Cons.prems(2) by simp
  obtain o1 o2 args' where o: "out = o1 @ o2" "printed (ps @ qs) args' = Some o2" "set args' \<subseteq> set args"
    and l: "pr_loop fn f (locals 0 0 0 n (map arg_word args)) s =
      pr_loop fn (f + of_nat (length (render p))) (locals 0 0 0 (n + of_nat (length o1)) (map arg_word args')) (fold fn o1 s)"
    by (rule piece_run [of s f p args "ps @ qs" out n]) (use Cons.prems(1,3,6,7) t in simp_all)
  have fo: "follows s (fold fn o1 s)" by (intro follows_fold follows_refl Cons.prems)
  have len: "length (render p @ concat (map render ps)) < 4294967296"
    "span f (length (render p @ concat (map render ps))) \<inter> region s = {}"
    using Cons.prems(4,5) by simp_all
  note rest = text_follows [OF t len(2,1) fo]
  have "\<forall>a \<in> set args'. arg_ok (mem (fold fn o1 s)) (region (fold fn o1 s)) a"
    using o(3) Cons.prems(6) arg_ok_follows [OF _ fo] by blast
  moreover have "good (fold fn o1 s)" using fo by (simp add: follows_def)
  ultimately obtain r1 r2 args2 where r: "o2 = r1 @ r2" "printed qs args2 = Some r2" "set args2 \<subseteq> set args'"
    and l2: "pr_loop fn (f + of_nat (length (render p))) (locals 0 0 0 (n + of_nat (length o1)) (map arg_word args')) (fold fn o1 s) =
      pr_loop fn (f + of_nat (length (render p)) + of_nat (length (concat (map render ps))))
        (locals 0 0 0 (n + of_nat (length o1) + of_nat (length r1)) (map arg_word args2)) (fold fn r1 (fold fn o1 s))"
    using Cons.IH [of "fold fn o1 s" "f + of_nat (length (render p))" args' o2 "n + of_nat (length o1)"] rest o(2) Cons.prems(3,5)
    by auto
  show ?case
    using o(1,3) r l l2 by (intro exI [of _ "o1 @ r1"] exI [of _ r2] exI [of _ args2]) (auto simp: add.assoc)
qed

lemma do_printf_out:
  assumes "good s" "text_at (mem s) f (concat (map render ps) @ [0])" "list_all piece_ok ps"
    and "span f (Suc (length (concat (map render ps)))) \<inter> region s = {}" "length (concat (map render ps)) < 4294967295"
    and "\<forall>a \<in> set args. arg_ok (mem s) (region s) a" "printed ps args = Some out"
  shows "pr_loop fn f (locals 0 0 0 n (map arg_word args)) s = Some (n + of_nat (length out), fold fn out s)"
proof -
  let ?t = "concat (map render ps)"
  have d: "span f (length ?t) \<inter> region s = {}" "length ?t < 4294967296"
    using assms(4,5) span_mono [of _ f "length ?t" "Suc (length ?t)"] by auto
  obtain o1 args' where o: "out = o1" and l: "pr_loop fn f (locals 0 0 0 n (map arg_word args)) s =
      pr_loop fn (f + of_nat (length ?t)) (locals 0 0 0 (n + of_nat (length o1)) (map arg_word args')) (fold fn o1 s)"
    using pieces_run [OF assms(1) _ assms(3) d assms(6), of "[]" out n] assms(2,7) by auto
  have "follows s (fold fn o1 s)" by (intro follows_fold follows_refl assms(1))
  from text_follows(1) [OF assms(2) _ _ this] assms(4,5)
  have "mem (fold fn o1 s) (f + of_nat (length ?t)) = 0" by simp
  then show ?thesis by (simp add: l o pr_loop.simps [of fn "f + of_nat (length ?t)"])
qed

text \<open>A percent sign in front of the terminator: the terminator is taken for an unknown conversion, and
  the scan goes on behind it.\<close>

lemma skip_terminator:
  assumes "mem s f = 0x25" "mem s (f + 1) = 0"
  shows "pr_loop fn f (locals 0 0 0 n as) s = pr_loop fn (2 + f) (locals 0 0 0 n as) s"
proof -
  have "pr_loop fn f (locals 0 0 0 n as) s = run4 fn (f + 1) (locals 4 0 0 n as) s"
    using loop_percent [of "locals 0 0 0 n as" s f fn] run1_other [of "locals 1 0 0 n as" s "f + 1" fn]
      run2_other [of "locals 2 0 0 n as" s "f + 1" fn] run3_other [of "locals 3 0 0 n as" s "f + 1" fn] assms
    by simp
  also have "\<dots> = pr_loop fn (2 + f) (locals 0 0 0 n as) s"
    using assms(2) by (simp add: run4_def pr_case4_def Let_def)
  finally show ?thesis .
qed

lemma overrun_out:
  assumes "good s" "text_at (mem s) f (concat (map render ps) @ [0x25, 0] @ concat (map render qs) @ [0])"
    and "list_all piece_ok (ps @ qs)" "span f (length (concat (map render (ps @ qs))) + 3) \<inter> region s = {}"
    and "length (concat (map render (ps @ qs))) + 3 < 4294967296"
    and "\<forall>a \<in> set args. arg_ok (mem s) (region s) a" "printed (ps @ qs) args = Some out"
  shows "pr_loop fn f (locals 0 0 0 n (map arg_word args)) s = Some (n + of_nat (length out), fold fn out s)"
proof -
  let ?t = "concat (map render ps)" and ?u = "concat (map render qs)"
  have d: "span f (length ?t) \<inter> region s = {}" "length ?t < 4294967296"
    using assms(4,5) span_mono [of _ f "length ?t" "length ?t + length ?u + 3"] by auto
  have t: "text_at (mem s) f ?t" and p: "list_all piece_ok ps" "list_all piece_ok qs" using assms(2,3) by simp_all
  obtain o1 o2 args' where o: "out = o1 @ o2" "printed qs args' = Some o2" "set args' \<subseteq> set args"
    and l: "pr_loop fn f (locals 0 0 0 n (map arg_word args)) s =
      pr_loop fn (f + of_nat (length ?t)) (locals 0 0 0 (n + of_nat (length o1)) (map arg_word args')) (fold fn o1 s)"
    using pieces_run [OF assms(1) t(1) p(1) d assms(6,7), of n] by blast
  let ?s = "fold fn o1 s" and ?g = "f + of_nat (length ?t)"
  have fo: "follows s ?s" by (intro follows_fold follows_refl assms(1))
  have e: "length (?t @ [0x25, 0] @ ?u @ [0]) = length (concat (map render (ps @ qs))) + 3" by simp
  have len: "span f (length (?t @ [0x25, 0] @ ?u @ [0])) \<inter> region s = {}" "length (?t @ [0x25, 0] @ ?u @ [0]) < 4294967296"
    unfolding e by (rule assms(4), rule assms(5))
  note rest = text_follows [OF assms(2) len fo]
  then have g: "mem ?s ?g = 0x25" "mem ?s (?g + 1) = 0" by simp_all
  have good: "good ?s" using fo by (simp add: follows_def)
  have "span (2 + ?g) (Suc (length ?u)) \<subseteq> span ?g (length ([0x25, 0] @ ?u @ [0]))"
  proof
    fix b assume "b \<in> span (2 + ?g) (Suc (length ?u))"
    then have "b \<in> span (?g + 2) (Suc (length ?u))" by (simp only: add.commute)
    from span_offset [OF this, of "length ([0x25, 0] @ ?u @ [0])"] assms(5)
    show "b \<in> span ?g (length ([0x25, 0] @ ?u @ [0]))" by simp
  qed
  then have "span (2 + ?g) (Suc (length ?u)) \<inter> region ?s = {}" using rest(2) by blast
  moreover have "text_at (mem ?s) (2 + ?g) (?u @ [0])"
  proof -
    have "text_at (mem ?s) (?g + of_nat (length [0x25, 0 :: u8])) (?u @ [0])" using rest(1) by (simp only: text_at_append)
    then show ?thesis by (simp only: list.size) (simp add: add.commute add.left_commute)
  qed
  moreover have "\<forall>a \<in> set args'. arg_ok (mem ?s) (region ?s) a" using o(3) assms(6) arg_ok_follows [OF _ fo] by blast
  ultimately have "pr_loop fn (2 + ?g) (locals 0 0 0 (n + of_nat (length o1)) (map arg_word args')) ?s =
      Some (n + of_nat (length o1) + of_nat (length o2), fold fn o2 ?s)"
    using good p(2) assms(5) o(2) by (intro do_printf_out) simp_all
  then show ?thesis by (simp add: l o(1) skip_terminator [OF g] add.assoc)
qed

end

section \<open>The terminal as a sink\<close>

interpretation console: char_sink "tty_putc :: u8 \<Rightarrow> 'a tty_scheme \<Rightarrow> 'a tty_scheme" tty_wf screen
  by unfold_locales (simp_all add: tty_wf_putc tty_putc_outside)

text \<open>A format is in memory, with its arguments, apart from the screen.\<close>

definition format_at :: "'a tty_scheme \<Rightarrow> u32 \<Rightarrow> piece list \<Rightarrow> arg list \<Rightarrow> bool" where
  "format_at s f ps args \<longleftrightarrow> list_all piece_ok ps \<and> cstring (mem s) f (concat (map render ps))
     \<and> span f (Suc (length (concat (map render ps)))) \<inter> screen s = {}
     \<and> length (concat (map render ps)) < 4294967295
     \<and> (\<forall>a \<in> set args. arg_ok (mem s) (screen s) a)"

lemma do_printf_effect:
  assumes "tty_wf s" "format_at s f ps args" "printed ps args = Some out"
  shows "do_printf f (map arg_word args) tty_putc s = Some (of_nat (length out), fold tty_putc out s)"
  using console.do_printf_out [of s f ps args out 0] assms
  by (simp add: do_printf_def locals_def format_at_def cstring_text)

text \<open>C27: \<^verbatim>\<open>do_printf\<close> prints to the terminal exactly the characters the format stands for: literal
  characters, \<^verbatim>\<open>%%\<close>, and the conversions X, x, p, n, d, i, u, o, c and s with the flags - and 0, a
  width, and the sizes h and l; it takes one argument for each conversion, answers the number of
  characters, and \<^verbatim>\<open>kprintf\<close> returns with the same effect.\<close>

theorem do_printf_prints:
  assumes "tty_wf s" "format_at s f ps args" "printed ps args = Some out"
  shows "do_printf f (map arg_word args) tty_putc s = Some (of_nat (length out), fold tty_putc out s)
    \<and> kprintf f (map arg_word args) s = Some (fold tty_putc out s)"
  using do_printf_effect [OF assms] by (simp add: kprintf_def)

text \<open>The call \<^verbatim>\<open>kprintf("%05d %s", -42, "ok")\<close>.\<close>

definition printf_state :: tty where
  "printf_state = \<lparr>mem = (\<lambda>_. 0)(0x100 := 0x25, 0x101 := 0x30, 0x102 := 0x35, 0x103 := 0x64, 0x104 := 0x20,
     0x105 := 0x25, 0x106 := 0x73, 0x200 := 0x6F, 0x201 := 0x6B), ports = [], port_in = \<lambda>_. 0, panics = [],
     rodata = \<lambda>_. 0, tty_w = 80, tty_h = 25, tty_color = 7, tty_x = 0, tty_y = 0, tty_scr = 0xB8000\<rparr>"

theorem do_printf_prints_witness:
  "kprintf 0x100 [- 42, 0x200] printf_state =
    Some (fold tty_putc [0x2D, 0x30, 0x30, 0x34, 0x32, 0x20, 0x6F, 0x6B] printf_state)"
proof -
  let ?ps = "[Conv False True 5 Plain C_d, Text 0x20, Conv False False 0 Plain C_s]"
  let ?args = "[Word (- 42), String 0x200 [0x6F, 0x6B]]"
  have r: "concat (map render ?ps) = [0x25, 0x30, 0x35, 0x64, 0x20, 0x25, 0x73]"
    by (simp add: digits.simps digit_char_def)
  have wf: "tty_wf printf_state" by (simp add: tty_wf_def printf_state_def)
  have scr: "screen printf_state = span 0xB8000 4000" by (simp add: screen_def printf_state_def)
  have "span 0x100 n \<inter> span 0xB8000 4000 = {}" "span 0x200 n \<inter> span 0xB8000 4000 = {}" if "n \<le> 16" for n
    using that by (auto simp: span_nat_iff)
  then have f: "format_at printf_state 0x100 ?ps ?args"
    unfolding format_at_def r scr by (simp add: arg_ok_def) (simp add: printf_state_def)
  have v: "signed_of Plain (- 42) = - 42" by (simp add: signed_of_def)
  have "printed ?ps ?args = Some [0x2D, 0x30, 0x30, 0x34, 0x32, 0x20, 0x6F, 0x6B]"
    by (simp add: number_def justify_def v digits.simps digit_char_def numeral_2_eq_2)
  from do_printf_prints [OF wf f this] show ?thesis by simp
qed

lemma fold_putc:
  assumes "tty_wf s"
  shows "tty_wf (fold tty_putc bs s)" "x \<notin> screen s \<Longrightarrow> mem (fold tty_putc bs s) x = mem s x"
    "panics (fold tty_putc bs s) = panics s" "screen (fold tty_putc bs s) = screen s"
proof -
  have "console.follows s (fold tty_putc bs s)"
    by (rule console.follows_fold [OF console.follows_refl [OF assms]])
  then show "tty_wf (fold tty_putc bs s)" "x \<notin> screen s \<Longrightarrow> mem (fold tty_putc bs s) x = mem s x"
    "screen (fold tty_putc bs s) = screen s"
    by (simp_all add: console.follows_def)
  show "panics (fold tty_putc bs s) = panics s" by (induction bs arbitrary: s) simp_all
qed

text \<open>What printing changes: the screen, the cursor and the port log.\<close>

definition console_step :: "'a tty_scheme \<Rightarrow> 'a tty_scheme \<Rightarrow> bool" where
  "console_step s s' \<longleftrightarrow> tty_wf s' \<and> (\<forall>b. b \<notin> screen s \<longrightarrow> mem s' b = mem s b)
     \<and> (\<exists>m p x y. s' = s\<lparr>mem := m, ports := p, tty_x := x, tty_y := y\<rparr>)"

lemma console_step_screen: "console_step s s' \<Longrightarrow> screen s' = screen s \<and> rodata s' = rodata s"
  by (auto simp: console_step_def screen_def)

lemma console_step_trans:
  assumes "console_step s s1" "console_step s1 s2"
  shows "console_step s s2"
proof -
  obtain m p x y where 1: "s1 = s\<lparr>mem := m, ports := p, tty_x := x, tty_y := y\<rparr>"
    using assms(1) unfolding console_step_def by blast
  obtain m' p' x' y' where "s2 = s1\<lparr>mem := m', ports := p', tty_x := x', tty_y := y'\<rparr>"
    using assms(2) unfolding console_step_def by blast
  then have "s2 = s\<lparr>mem := m', ports := p', tty_x := x', tty_y := y'\<rparr>" by (simp add: 1)
  moreover have "mem s2 b = mem s b" if "b \<notin> screen s" for b
    using assms that console_step_screen [OF assms(1)] by (simp add: console_step_def)
  moreover have "tty_wf s2" using assms(2) by (simp add: console_step_def)
  ultimately show ?thesis unfolding console_step_def by blast
qed

lemma tty_putc_only: "\<exists>m p x y. tty_putc c s = s\<lparr>mem := m, ports := p, tty_x := x, tty_y := y\<rparr>"
proof -
  have "tty_switch c s = s\<lparr>mem := mem (tty_switch c s), tty_x := tty_x (tty_switch c s), tty_y := tty_y (tty_switch c s)\<rparr>"
    by (simp add: tty_switch_def Let_def)
  then obtain m x y where sw: "tty_switch c s = s\<lparr>mem := m, tty_x := x, tty_y := y\<rparr>" by blast
  have "tty_putc c s = s\<lparr>mem := mem (tty_putc c s), ports := ports (tty_putc c s), tty_x := tty_x (tty_putc c s),
      tty_y := tty_y (tty_putc c s)\<rparr>"
    by (simp add: tty_putc_def sw tty_setcursor_def tty_scrollup_def outportb_def Let_def)
  then show ?thesis by blast
qed

lemma fold_putc_only: "\<exists>m p x y. fold tty_putc bs s = s\<lparr>mem := m, ports := p, tty_x := x, tty_y := y\<rparr>"
proof (induction bs arbitrary: s)
  case Nil
  then show ?case by (intro exI [of _ "mem s"] exI [of _ "ports s"] exI [of _ "tty_x s"] exI [of _ "tty_y s"]) simp
next
  case (Cons b bs)
  obtain m p x y where 1: "tty_putc b s = s\<lparr>mem := m, ports := p, tty_x := x, tty_y := y\<rparr>"
    using tty_putc_only by blast
  obtain m' p' x' y' where "fold tty_putc bs (tty_putc b s) =
    (tty_putc b s)\<lparr>mem := m', ports := p', tty_x := x', tty_y := y'\<rparr>" using Cons.IH by blast
  then show ?case by (auto simp: 1)
qed

lemma console_step_fold: "tty_wf s \<Longrightarrow> console_step s (fold tty_putc bs s)"
  using fold_putc [where s = s and bs = bs] fold_putc_only [of bs s] by (simp add: console_step_def)

text \<open>A message without a percent sign is printed as it stands.\<close>

definition message_at :: "'a tty_scheme \<Rightarrow> string \<Rightarrow> bool" where
  "message_at s msg \<longleftrightarrow> cstring (mem s) (rodata s msg) (map of_char msg)
     \<and> span (rodata s msg) (Suc (length msg)) \<inter> screen s = {} \<and> length msg < 4294967295
     \<and> 0x25 \<notin> (of_char ` set msg :: u8 set)"

lemma render_text: "concat (map render (map Text bs)) = bs"
  by (induction bs) simp_all

lemma printed_text: "printed (map Text bs) [] = Some bs"
  by (induction bs) simp_all

lemma cstring_nonzero: "cstring m p bs \<Longrightarrow> 0 \<notin> set bs"
  by (induction bs arbitrary: p) auto

lemma kprintf_message:
  assumes "tty_wf s" "message_at s msg"
  shows "kprintf (rodata s msg) [] s = Some (fold tty_putc (map of_char msg) s)"
    "console_step s (fold tty_putc (map of_char msg) s)"
proof -
  have "format_at s (rodata s msg) (map Text (map of_char msg)) []"
    using assms(2) cstring_nonzero [of "mem s" "rodata s msg" "map of_char msg"]
    unfolding format_at_def message_at_def render_text by (auto simp: list_all_iff)
  from do_printf_effect [OF assms(1) this printed_text]
  show "kprintf (rodata s msg) [] s = Some (fold tty_putc (map of_char msg) s)" by (simp add: kprintf_def)
qed (rule console_step_fold [OF assms(1)])

text \<open>A format whose text ends in a percent sign, and what lies in memory behind its terminator, as a
  format of its own up to the next zero.\<close>

definition overrun_at :: "'a tty_scheme \<Rightarrow> u32 \<Rightarrow> piece list \<Rightarrow> piece list \<Rightarrow> arg list \<Rightarrow> bool" where
  "overrun_at s f ps qs args \<longleftrightarrow> list_all piece_ok (ps @ qs)
     \<and> text_at (mem s) f (concat (map render ps) @ [0x25, 0] @ concat (map render qs) @ [0])
     \<and> span f (length (concat (map render (ps @ qs))) + 3) \<inter> screen s = {}
     \<and> length (concat (map render (ps @ qs))) + 3 < 4294967296
     \<and> (\<forall>a \<in> set args. arg_ok (mem s) (screen s) a)"

lemma trailing_percent_run:
  assumes "tty_wf s" "overrun_at s f ps qs args" "printed (ps @ qs) args = Some out"
  shows "do_printf f (map arg_word args) tty_putc s = Some (of_nat (length out), fold tty_putc out s)"
    "kprintf f (map arg_word args) s = Some (fold tty_putc out s)"
  using console.overrun_out [of s f ps qs args out 0] assms
  by (simp_all add: kprintf_def do_printf_def locals_def overrun_at_def)

text \<open>C40: A format that ends in a percent sign is read past its end, whatever stands before the percent
  sign: the terminator is taken for an unknown conversion and skipped, and the bytes behind it, up to
  the next zero, are interpreted as the rest of the format. The output is that of the two texts
  together, and conversions in the bytes behind the format take arguments too.\<close>

theorem trailing_percent_overruns:
  assumes "tty_wf s" "overrun_at s f ps qs args" "printed (ps @ qs) args = Some out"
  shows "do_printf f (map arg_word args) tty_putc s = Some (of_nat (length out), fold tty_putc out s)
    \<and> kprintf f (map arg_word args) s = Some (fold tty_putc out s)"
  using trailing_percent_run [OF assms] by simp

text \<open>The call \<^verbatim>\<open>kprintf("50%", 7)\<close>, with the bytes \<^verbatim>\<open>A%d\<close> and a zero behind the format's own.\<close>

definition trailing_state :: tty where
  "trailing_state = printf_state\<lparr>mem := (\<lambda>_. 0)(0x100 := 0x35, 0x101 := 0x30, 0x102 := 0x25, 0x104 := 0x41,
     0x105 := 0x25, 0x106 := 0x64)\<rparr>"

lemma trailing_sample:
  "tty_wf trailing_state"
  "overrun_at trailing_state 0x100 [Text 0x35, Text 0x30] [Text 0x41, Conv False False 0 Plain C_d] [Word 7]"
  "printed ([Text 0x35, Text 0x30] @ [Text 0x41, Conv False False 0 Plain C_d]) [Word 7] = Some [0x35, 0x30, 0x41, 0x37]"
proof -
  show "tty_wf trailing_state" by (simp add: trailing_state_def tty_wf_def printf_state_def)
  have scr: "screen trailing_state = span 0xB8000 4000" by (simp add: screen_def trailing_state_def printf_state_def)
  have "span 0x100 8 \<inter> span 0xB8000 4000 = {}" by (auto simp: span_nat_iff)
  then show "overrun_at trailing_state 0x100 [Text 0x35, Text 0x30] [Text 0x41, Conv False False 0 Plain C_d] [Word 7]"
    unfolding overrun_at_def scr by (simp add: arg_ok_def) (simp add: trailing_state_def)
  have v: "signed_of Plain 7 = 7" by (simp add: signed_of_def)
  show "printed ([Text 0x35, Text 0x30] @ [Text 0x41, Conv False False 0 Plain C_d]) [Word 7] = Some [0x35, 0x30, 0x41, 0x37]"
    by (simp add: number_def justify_def v digits.simps digit_char_def)
qed

theorem trailing_percent_overruns_witness:
  "kprintf 0x100 [7] trailing_state = Some (fold tty_putc [0x35, 0x30, 0x41, 0x37] trailing_state)"
  using trailing_percent_overruns [OF trailing_sample] by simp

text \<open>\<^verbatim>\<open>panic\<close> prints and returns; it touches nothing but the screen, the cursor and its log.\<close>

definition panic_format :: "piece list" where
  "panic_format = map Text [0x50, 0x41, 0x4E, 0x49, 0x43, 0x21, 0x20, 0x2D, 0x20]
     @ [Conv False False 0 Plain C_s, Text 0x0A]"

definition panic_ready :: "string \<Rightarrow> 'a tty_scheme \<Rightarrow> bool" where
  "panic_ready msg s \<longleftrightarrow> tty_wf s \<and> (\<exists>bs. format_at s (rodata s (''PANIC! - %s'' @ [CHR 0x0A])) panic_format
     [String (rodata s msg) bs])"

lemma panic_effect:
  assumes "panic_ready msg s"
  obtains out where "panic msg s = Some ((fold tty_putc out s)\<lparr>panics := panics s @ [msg]\<rparr>)"
proof -
  obtain bs where a: "tty_wf s" "format_at s (rodata s (''PANIC! - %s'' @ [CHR 0x0A])) panic_format
     [String (rodata s msg) bs]" using assms by (auto simp: panic_ready_def)
  obtain out where out: "printed panic_format [String (rodata s msg) bs] = Some out" by (simp add: panic_format_def)
  from do_printf_effect [OF a out] show ?thesis
    by (intro that [of out]) (simp add: panic_def kprintf_def fold_putc [OF a(1)])
qed

end
