(* ===== verification/Heap_Props.thy ===== *)
theory Heap_Props
  imports Kheap_Inv Printf_Spec
begin

text \<open>
  What the heap of \<^verbatim>\<open>mm/heap.c\<close> promises its clients, read off the invariant \<open>heap_wf\<close> and the
  contract \<open>allocator\<close> that \<open>kh\<close> interprets: allocation by first fit with splitting, separation of
  the blocks handed out, release, reuse, the start of the heap and the heap checker, and the store
  through a null pointer that a growing allocation makes.
\<close>

section \<open>Allocation\<close>

text \<open>C5: \<^verbatim>\<open>kmalloc\<close> of \<open>n > 0\<close> bytes succeeds when a free block fits or the heap can grow: the
  result is the payload of the first fitting block of the chain, or of a new block at the old break;
  the block was not in use and is now, no other block's use or size changes, it holds at least \<open>n\<close> and
  fewer than \<open>n + 28\<close> bytes (what is left over is split off), the counters stay right, and memory
  changes in headers, the chain head and byte 16 only.\<close>

theorem kmalloc_first_fit:
  assumes "heap_wf s xs" "n \<noteq> 0" "find (fits (mem s) n) xs \<noteq> None \<or> heap_room n s"
  shows "\<exists>p s' xs'. kmalloc n flags s = Some (p + 20, s') \<and> heap_wf s' xs' \<and> set xs \<subseteq> set xs' \<and> p \<in> set xs'
    \<and> \<not> (p \<in> set xs \<and> mh_used (mem s) p)
    \<and> (\<forall>x \<in> set xs'. mh_used (mem s') x \<longleftrightarrow> x = p \<or> x \<in> set xs \<and> mh_used (mem s) x)
    \<and> (\<forall>x \<in> set xs - {p}. mh_size (mem s') x = mh_size (mem s) x)
    \<and> n \<le> mh_size (mem s') p \<and> unat (mh_size (mem s') p) < unat n + 28
    \<and> (case find (fits (mem s) n) xs of Some q \<Rightarrow> p = q \<and> heap_brk s' = heap_brk s
         | None \<Rightarrow> p = heap_brk s \<and> heap_brk s' = p + 20 + n)
    \<and> chain_frame (chain_hd s) xs' (mem s) (mem s')"
  using kmalloc_result [OF assms(1,2), of flags] assms(3)
  by (auto simp: heap_room_def alloc_result_def keeps_def) (fastforce+)?

text \<open>\<^verbatim>\<open>kmalloc\<close> of no bytes answers \<^verbatim>\<open>NULL\<close> and changes nothing.\<close>

theorem kmalloc_zero: "kmalloc 0 flags s = Some (0, s)"
  by (simp add: kmalloc_def)

text \<open>C6: A new allocation overlaps no block that is in use, and the contents of the blocks in use
  are what they were.\<close>

theorem kmalloc_separate:
  assumes "heap_wf s xs" "n \<noteq> 0" "heap_room n s" "(q, k) \<in> heap_owned s"
  shows "\<exists>p s'. kmalloc n 0 s = Some (p, s') \<and> (q, k) \<in> heap_owned s'
    \<and> span p (unat n) \<inter> span q k = {} \<and> (\<forall>b \<in> span q k. mem s' b = mem s b)"
  using kh.alloc_separate [of s n q k] assms by blast

section \<open>Release\<close>

text \<open>\<^verbatim>\<open>kfree\<close> of a block in use marks it free, counts one used block less, keeps the invariant,
  and changes no byte of memory but the state of that block.\<close>

theorem kfree_releases:
  assumes "heap_wf s xs" "x \<in> set xs" "mh_used (mem s) x"
  shows "\<exists>s'. kfree (x + 20) s = Some s' \<and> heap_wf s' xs \<and> \<not> mh_used (mem s') x
    \<and> mh_size (mem s') x = mh_size (mem s) x \<and> used_blocks s' = used_blocks s - 1
    \<and> (\<forall>b. b \<noteq> x + 16 \<longrightarrow> mem s' b = mem s b)"
  using kfree_result [OF assms] by simp

text \<open>C28: An allocation followed by its release gives the blocks in use back as they were, with their
  contents.\<close>

theorem kmalloc_kfree:
  assumes "heap_wf s xs" "n \<noteq> 0" "heap_room n s"
  shows "\<exists>p s' s''. kmalloc n 0 s = Some (p, s') \<and> kfree p s' = Some s'' \<and> (\<exists>ys. heap_wf s'' ys)
    \<and> heap_owned s'' = heap_owned s \<and> (\<forall>(q, k) \<in> heap_owned s. \<forall>b \<in> span q k. mem s'' b = mem s b)"
  using kh.alloc_release [of s n] assms by blast

text \<open>\<^verbatim>\<open>kfree\<close> does not notice a second release: the block is still marked free and the counter
  of used blocks is decremented again, so that it no longer counts the blocks in use.\<close>

theorem double_free_breaks_count:
  assumes "heap_wf s xs" "x \<in> set xs" "\<not> mh_used (mem s) x"
  shows "\<exists>s'. kfree (x + 20) s = Some s' \<and> used_blocks s' = used_blocks s - 1 \<and> \<not> heap_wf s' xs"
proof -
  have h: "heap_shape s xs" and ub: "used_blocks s = of_nat (length (filter (mh_used (mem s)) xs))"
    using assms(1) by (simp_all add: heap_wf_def)
  let ?m = "set_state x (mh_state (mem s) x AND KMALLOC_FREE) (mem s)"
  let ?s = "s\<lparr>mem := ?m, used_blocks := used_blocks s - 1\<rparr>"
  have mg: "mh_magic (mem s) x = 0xBEEF" using h assms(2) by (simp add: heap_shape_def)
  have k: "kfree (x + 20) s = Some ?s"
    using block_bounds [OF h assms(2)] mg by (simp add: kfree_def SIZEOF_MALLOC_HEAD_def)
  have "mh_used ?m y = mh_used (mem s) y" if "y \<in> set xs" for y
    using mark_block(2) [OF h assms(2)] that assms(3) by (cases "y = x") (simp_all add: keeps_def)
  then have "filter (mh_used ?m) xs = filter (mh_used (mem s)) xs" by (rule filter_cong [OF refl])
  then have "\<not> heap_wf ?s xs" using ub by (simp add: heap_wf_def)
  with k show ?thesis by auto
qed

section \<open>Start, checker, and the null store\<close>

text \<open>\<^verbatim>\<open>init_heap\<close> makes an empty well-formed heap at the end of the kernel.\<close>

theorem init_heap_empty:
  assumes "head_clear (chain_hd s) (kernel_end s) (brk_max s)" "kernel_end s \<le> brk_max s"
    and "apart (chain_hd s) 8 (temp_map_hd s) 8"
  shows "heap_wf (init_heap s) [] \<and> heap_base (init_heap s) = kernel_end s \<and> heap_brk (init_heap s) = kernel_end s
    \<and> heap_owned (init_heap s) = {}"
proof -
  have "heap_wf (init_heap s) []" by (rule init_heap_wf [OF assms])
  then show ?thesis by (simp add: heap_owned_eq) (simp add: init_heap_def Let_def)
qed

text \<open>A round of the heap checker over a well-formed heap raises no panic and changes nothing.\<close>

theorem heapchecker_silent:
  assumes "heap_wf s xs"
  shows "heapchecker_walk s = Some s"
  using assms heapchecker_clean [of s xs] by (simp add: heap_wf_def)

text \<open>C38: When the heap grows, the store that should clear the new block's state goes through the null
  pointer \<^verbatim>\<open>sb\<close>: byte 16 of memory is zeroed and the state of the new block stays what the memory
  held.\<close>

theorem grow_stores_through_null:
  assumes "heap_wf s xs" "heap_room n s"
  shows "\<exists>p s'. kmalloc_grow n s = Some (p, s') \<and> p = heap_brk s \<and> mem s' 16 = 0
    \<and> mh_state (mem s') p = mh_state (mem s) p"
proof -
  have "heap_shape s xs" "unat (heap_brk s) + 20 + unat n < unat (brk_max s)"
    using assms by (simp_all add: heap_wf_def heap_room_def)
  from kmalloc_grow_ok [OF this] show ?thesis by auto
qed

lemma heap_brk_print: "heap_brk (fold tty_putc bs s) = heap_brk s"
  using fold_putc_only [of bs s] by auto

text \<open>The blocks fill the heap: every byte of it belongs to one of them.\<close>

lemma laid_out_covers:
  assumes "laid_out lo hi sz xs" "lo \<le> n" "n < hi"
  shows "\<exists>x \<in> set xs. unat x \<le> n \<and> n < unat x + extent sz x"
proof -
  let ?I = "\<lambda>x. {unat x..<unat x + extent sz x}"
  note l = assms(1)[unfolded laid_out_def]
  have dis: "\<forall>x \<in> set xs. \<forall>y \<in> set xs. x \<noteq> y \<longrightarrow> ?I x \<inter> ?I y = {}"
    using l by (fastforce simp: disjoint_blocks_def)
  have sub: "(\<Union>x \<in> set xs. ?I x) \<subseteq> {lo..<hi}" using l by fastforce
  have "card (\<Union>x \<in> set xs. ?I x) = (\<Sum>x \<in> set xs. extent sz x)"
    using card_UN_disjoint [OF _ _ dis] by simp
  also have "\<dots> = hi - lo" using l sum_list_distinct_conv_sum_set [of xs "extent sz"] by auto
  finally have "card (\<Union>x \<in> set xs. ?I x) = card {lo..<hi}" by simp
  then have all: "(\<Union>x \<in> set xs. ?I x) = {lo..<hi}" by (intro card_subset_eq [OF _ sub]) simp
  have "n \<in> {lo..<hi}" using assms(2,3) by simp
  then have "n \<in> (\<Union>x \<in> set xs. ?I x)" by (simp only: all)
  then show ?thesis by auto
qed

text \<open>The last bytes of the heap lie in its blocks.\<close>

lemma heap_tail_in_blocks:
  assumes wf: "heap_wf s xs" and n: "unat (heap_base s) + unat bytes \<le> unat (heap_brk s)"
    and b: "b \<in> span (heap_brk s - bytes) (unat bytes)"
  shows "heap_base s \<le> b" "b < heap_brk s" "\<exists>x \<in> set xs. b \<in> span x (20 + unat (mh_size (mem s) x))"
proof -
  have l: "laid_out (unat (heap_base s)) (unat (heap_brk s)) (mh_size (mem s)) xs" and sh: "heap_shape s xs"
    using wf by (simp_all add: heap_wf_def heap_shape_def)
  have "unat (heap_brk s - bytes) = unat (heap_brk s) - unat bytes"
    using n by (intro unat_sub) (simp add: word_le_nat_alt)
  then have u: "unat (heap_brk s) - unat bytes \<le> unat b" "unat b < unat (heap_brk s)"
    using b n unat_less_2p32 [of "heap_brk s"] span_nat_iff [of "heap_brk s - bytes" "unat bytes" b] by auto
  then show "heap_base s \<le> b" "b < heap_brk s" using n by (simp_all add: word_le_nat_alt word_less_nat_alt)
  have "unat (heap_base s) \<le> unat b" using u(1) n by linarith
  then obtain x where x: "x \<in> set xs" "unat x \<le> unat b" "unat b < unat x + extent (mh_size (mem s)) x"
    using laid_out_covers [OF l _ u(2)] by blast
  have "unat x + (20 + unat (mh_size (mem s) x)) \<le> 4294967296"
    using block_bounds(2) [OF sh x(1)] unat_less_2p32 [of "heap_brk s"] by simp
  then have "b \<in> span x (20 + unat (mh_size (mem s) x))" using x(2,3) by (simp add: span_nat_iff extent_def)
  then show "\<exists>x \<in> set xs. b \<in> span x (20 + unat (mh_size (mem s) x))" using x(1) by blast
qed

lemma heap_wf_frame:
  assumes "heap_wf s xs"
    and same: "\<And>b. b \<in> span (chain_hd s) 8 \<or> (\<exists>x \<in> set xs. b \<in> span x 20) \<Longrightarrow> m' b = mem s b"
    and s': "mem s' = m'" "heap_base s' = heap_base s" "heap_brk s' = heap_brk s" "brk_max s' = brk_max s"
      "chain_hd s' = chain_hd s" "total_blocks s' = total_blocks s" "used_blocks s' = used_blocks s"
  shows "heap_wf s' xs"
proof -
  have sh: "heap_shape s xs" using assms(1) by (simp add: heap_wf_def)
  then have d: "dlist (mem s) (chain_hd s) xs" by (simp add: heap_shape_def)
  have "m' b = mem s b" if "x \<in> set (chain_hd s # xs)" "b \<in> span x 8" for x b
    using that same [of b] link_in_header [of b x] by auto
  then have d': "dlist m' (chain_hd s) xs" by (rule dlist_frame [OF d])
  have f: "mh_size m' x = mh_size (mem s) x" "mh_magic m' x = mh_magic (mem s) x" "mh_used m' x = mh_used (mem s) x"
    if "x \<in> set xs" for x
    using fields_cong [of x m' "mem s"] same that fields_in_header by blast+
  have "laid_out (unat (heap_base s)) (unat (heap_brk s)) (mh_size m') xs"
    using sh f(1) laid_out_cong [of xs "mh_size m'" "mh_size (mem s)"] by (simp add: heap_shape_def)
  moreover have "filter (mh_used m') xs = filter (mh_used (mem s)) xs" using f(3) by (auto intro: filter_cong)
  ultimately show ?thesis using assms(1) sh d' f(2) by (simp add: heap_wf_def heap_shape_def s')
qed

text \<open>When no free block fits, the heap grows by exactly the new block.\<close>

lemma alloc_at_break:
  assumes wf: "heap_wf s xs" and n: "n \<noteq> 0" and no: "find (fits (mem s) n) xs = None" and room: "heap_room n s"
  obtains s' xs' where "kmalloc n flags s = Some (heap_brk s + 20, s')" "heap_wf s' xs'"
    "set xs' = insert (heap_brk s) (set xs)" "unat (heap_brk s') = unat (heap_brk s) + 20 + unat n"
    "mh_size (mem s') (heap_brk s) = n" "mh_used (mem s') (heap_brk s)" "keeps (set xs) (mem s) (mem s')"
    "chain_frame (chain_hd s) xs' (mem s) (mem s')" "\<forall>x \<in> set xs. unat x + 20 + unat (mh_size (mem s) x) \<le> unat (heap_brk s)"
    "s' = s\<lparr>heap_brk := heap_brk s', mem := mem s', total_blocks := total_blocks s', used_blocks := used_blocks s'\<rparr>"
proof -
  obtain p s' xs' where k: "kmalloc n flags s = Some (p + 20, s')" and r: "alloc_result n s xs p s' xs'"
    using kmalloc_result [OF wf n, of flags] room by (auto simp: heap_room_def)
  have wf': "heap_wf s' xs'" and sub: "set xs \<subseteq> set xs'" and px: "p \<in> set xs'" and le: "n \<le> mh_size (mem s') p"
    and p: "p = heap_brk s" "heap_brk s' = p + 20 + n" and used: "mh_used (mem s') p"
    and kp: "keeps (set xs - {p}) (mem s) (mem s')" and fr: "chain_frame (chain_hd s) xs' (mem s) (mem s')"
    and s': "s' = s\<lparr>heap_brk := heap_brk s', mem := mem s', total_blocks := total_blocks s', used_blocks := used_blocks s'\<rparr>"
    using r no unfolding alloc_result_def by (auto split: option.splits)
  have base: "heap_base s' = heap_base s" "brk_max s' = brk_max s"
    using arg_cong [OF s', of heap_base] arg_cong [OF s', of brk_max] by simp_all
  have sh: "heap_shape s xs" "heap_shape s' xs'" using wf wf' by (simp_all add: heap_wf_def)
  note bb = block_bounds [OF sh(1)]
  have np: "p \<notin> set xs" using bb(2,3) [of p] p(1) by auto
  then have kp': "keeps (set xs) (mem s) (mem s')" using kp by simp
  have brk: "unat (heap_brk s') = unat (heap_brk s) + 20 + unat n"
    using room unat_less_2p32 [of "brk_max s"] unfolding heap_room_def p
    by (subst unat_plus_small; (subst unat_plus_small)?) simp_all
  let ?e = "extent (mh_size (mem s'))"
  have d: "distinct xs" "distinct xs'" using sh by (auto simp: heap_shape_def laid_out_def)
  have e: "?e x = extent (mh_size (mem s)) x" if "x \<in> set xs" for x
    using kp' that by (simp add: keeps_def extent_def)
  have "unat (heap_base s) + sum ?e (set xs') = unat (heap_brk s')"
    using sh(2) d(2) base by (simp add: heap_shape_def laid_out_def sum_list_distinct_conv_sum_set)
  moreover have "unat (heap_base s) + sum ?e (set xs) = unat (heap_brk s)"
    using sh(1) d(1) e by (simp add: heap_shape_def laid_out_def sum_list_distinct_conv_sum_set)
  moreover have "sum ?e (set xs') = sum ?e (set xs) + sum ?e (set xs' - set xs)"
    using sub by (subst sum.subset_diff [of "set xs" "set xs'"]) auto
  ultimately have new: "sum ?e (set xs' - set xs) = 20 + unat n" using brk by linarith
  have "p \<in> set xs' - set xs" using px np by simp
  then have split: "sum ?e (set xs' - set xs) = ?e p + sum ?e (set xs' - set xs - {p})"
    by (simp add: sum.remove)
  have ep: "20 + unat n \<le> ?e p" using le by (simp add: extent_def word_le_nat_alt)
  then have zero: "sum ?e (set xs' - set xs - {p}) = 0" and size: "?e p = 20 + unat n" using new split by linarith+
  have "set xs' - set xs - {p} = {}"
  proof (rule ccontr)
    assume "set xs' - set xs - {p} \<noteq> {}"
    then obtain y where "y \<in> set xs' - set xs - {p}" by blast
    then have "?e y = 0" using zero by simp
    then show False using extent_pos(2) [of "mh_size (mem s')" y] by simp
  qed
  then have set: "set xs' = insert (heap_brk s) (set xs)" using sub px p(1) by blast
  have "unat (mh_size (mem s') p) = unat n" using size by (simp add: extent_def)
  then have "mh_size (mem s') p = n" by (simp add: word_unat_eq_iff)
  then show ?thesis
    using that [of s' xs'] k wf' set brk used kp' fr s' bb(2) p(1) by blast
qed

text \<open>C39: \<^verbatim>\<open>ksbrk\<close> beyond \<^verbatim>\<open>brk_max\<close> does not fail: it prints a panic and answers the address
  \<open>bytes\<close> below the break, while the break stays. When the heap is sound and at least \<open>bytes\<close> bytes
  long, all \<open>bytes\<close> bytes from that address on lie between the heap's base and its break, each in the
  header or the payload of an existing block.\<close>

theorem ksbrk_exhausted:
  assumes "bytes \<noteq> 0" "brk_max s \<le> heap_brk s + bytes"
    and "panic_ready (''Unable to kbrk - Reached max_brk!'' @ [CHR 0x0A]) s"
  shows "(\<exists>s'. ksbrk bytes s = Some (heap_brk s - bytes, s') \<and> heap_brk s' = heap_brk s
      \<and> panics s' = panics s @ [''Unable to kbrk - Reached max_brk!'' @ [CHR 0x0A]])
    \<and> (heap_wf s xs \<and> unat (heap_base s) + unat bytes \<le> unat (heap_brk s) \<longrightarrow>
        (\<forall>b \<in> span (heap_brk s - bytes) (unat bytes). heap_base s \<le> b \<and> b < heap_brk s
          \<and> (\<exists>x \<in> set xs. b \<in> span x (20 + unat (mh_size (mem s) x)))))"
proof -
  obtain out where "panic (''Unable to kbrk - Reached max_brk!'' @ [CHR 0x0A]) s =
      Some ((fold tty_putc out s)\<lparr>panics := panics s @ [''Unable to kbrk - Reached max_brk!'' @ [CHR 0x0A]]\<rparr>)"
    by (rule panic_effect [OF assms(3)])
  then have "\<exists>s'. ksbrk bytes s = Some (heap_brk s - bytes, s') \<and> heap_brk s' = heap_brk s
      \<and> panics s' = panics s @ [''Unable to kbrk - Reached max_brk!'' @ [CHR 0x0A]]"
    using assms(1,2) by (simp add: ksbrk_def kbrk_def heap_brk_print)
  then show ?thesis using heap_tail_in_blocks [of s xs bytes] by blast
qed

end
