(* ===== verification/Lib_Props.thy ===== *)
theory Lib_Props
  imports Tty DList Bitmap
begin

text \<open>
  What the library routines promise: the memory and string routines of \<^verbatim>\<open>lib/stdlib\<close> and
  \<^verbatim>\<open>lib/string\<close>, the lists of \<^verbatim>\<open>include/ds/list.h\<close>, the bitmap of \<^verbatim>\<open>lib/ds/bitmap.c\<close>
  and the terminal of \<^verbatim>\<open>lib/tty/tty.c\<close>. Each property is followed by an instance at concrete
  addresses.
\<close>

section \<open>Memory and strings\<close>

text \<open>\<^verbatim>\<open>memset\<close> sets exactly the \<open>count\<close> bytes from its target, whatever the count, and
  \<^verbatim>\<open>memcpy\<close> between ranges that do not overlap delivers exactly the source bytes.\<close>

theorem memset_memcpy_exact:
  assumes "apart d (unat c) s (unat c)"
  shows "memset m a v c x = (if x \<in> span a (unat c) then v else m x)
    \<and> memcpy m d s c x = (if x \<in> span d (unat c) then m (s + (x - d)) else m x)"
  using memcpy_apply [OF assms] by simp

theorem memset_memcpy_exact_witness:
  "memset (\<lambda>_. 0) 0x500 7 3 0x502 = (7 :: u8) \<and> memcpy (\<lambda>b. ucast b) 0x2000 0x1005 16 0x2003 = (8 :: u8)"
proof -
  have "apart 0x2000 (unat (16 :: u32)) 0x1005 (unat (16 :: u32))" by (simp add: apart_def)
  from memset_memcpy_exact [OF this, where m = "\<lambda>b. ucast b" and x = "0x2003"]
  have "memcpy (\<lambda>b. ucast b) 0x2000 0x1005 16 0x2003 = (8 :: u8)" by (simp add: span_iff)
  then show ?thesis by (simp add: span_iff)
qed

text \<open>On a string of non-zero bytes that lies apart from the target, \<^verbatim>\<open>strlen\<close> counts it and
  \<^verbatim>\<open>strncpy\<close> copies its first \<open>count\<close> bytes (all of it when it is shorter), answers how many
  they were and writes nothing else: no terminator and no padding.\<close>

theorem strncpy_copies:
  assumes "cstring m s bs" "apart d (Suc (length bs)) s (Suc (length bs))" "length bs < 4294967295"
    and "n = min (length bs) (unat c)"
  shows "strlen m s = Some (of_nat (length bs)) \<and> snd (strncpy m d s c) = of_nat n
    \<and> fst (strncpy m d s c) x = (if x \<in> span d n then m (s + (x - d)) else m x)"
  using strncpy_cstring [OF assms] strlen_cstring [OF assms(1)] by simp

theorem strncpy_copies_witness:
  "snd (strncpy ((\<lambda>_. 0)(0x100 := 0x61, 0x101 := 0x62)) 0x200 0x100 31) = (2 :: u32)"
proof -
  have "cstring ((\<lambda>_. 0)(0x100 := 0x61, 0x101 := 0x62)) 0x100 [0x61, 0x62]" by simp
  moreover have "apart 0x200 (Suc (length [0x61 :: u8, 0x62])) 0x100 (Suc (length [0x61 :: u8, 0x62]))"
    by (simp add: apart_def)
  moreover have "length [0x61 :: u8, 0x62] < 4294967295" "2 = min (length [0x61 :: u8, 0x62]) (unat (31 :: u32))"
    by simp_all
  ultimately have "snd (strncpy ((\<lambda>_. 0)(0x100 := 0x61, 0x101 := 0x62)) 0x200 0x100 31) = (of_nat 2 :: u32)"
    using strncpy_copies by blast
  then show ?thesis by simp
qed

section \<open>Lists\<close>

text \<open>On a well-formed list, \<^verbatim>\<open>list_add\<close> puts a new node in front, \<^verbatim>\<open>list_add_tail\<close> at the
  end, and the ring stays well-formed in both directions.\<close>

theorem list_add_both_ends:
  assumes "dlist m h xs" "fresh_node n h xs"
  shows "dlist (list_add n h m) h (n # xs) \<and> dlist (list_add_tail n h m) h (xs @ [n])"
  using dl.seq_push [OF assms] dl.seq_append [OF assms] by simp

lemma ring_example:
  "dlist (list_add_tail 0x2000 0x1000 (INIT_LIST_HEAD 0x1000 (\<lambda>_. 0))) 0x1000 [0x2000]"
  using dl.seq_append [OF dlist_init, where n = "0x2000" and h = "0x1000"] by (simp add: fresh_node_def apart_def)

theorem list_add_both_ends_witness:
  "dlist (list_add 0x3000 0x1000 (list_add_tail 0x2000 0x1000 (INIT_LIST_HEAD 0x1000 (\<lambda>_. 0)))) 0x1000 [0x3000, 0x2000]"
  using list_add_both_ends [OF ring_example, where n = "0x3000"] by (simp add: fresh_node_def apart_def)

text \<open>C34: \<^verbatim>\<open>list_del\<close> takes exactly its node out of the list, wherever it stands, also after
  \<^verbatim>\<open>list_add_tail\<close> has put another at the end; so a queue filled by \<^verbatim>\<open>list_add_tail\<close> and emptied at
  the front (\<open>ws\<close> empty) is first in, first out.\<close>

theorem list_del_fifo:
  assumes "dlist m h (ws @ x # xs)" "fresh_node n h (ws @ x # xs)"
  shows "dlist (list_del x m) h (ws @ xs) \<and> dlist (list_del x (list_add_tail n h m)) h (ws @ xs @ [n])"
  using dl.append_remove_any [OF assms] dl.seq_remove [OF assms(1)] by simp

theorem list_del_fifo_witness:
  "dlist (list_del 0x2000 (list_add_tail 0x3000 0x1000 (list_add_tail 0x2000 0x1000
     (INIT_LIST_HEAD 0x1000 (\<lambda>_. 0))))) 0x1000 [0x3000]"
  using list_del_fifo [of _ _ "[]", simplified, OF ring_example, where n = "0x3000"] by (simp add: fresh_node_def apart_def)

text \<open>\<^verbatim>\<open>list_for_each\<close> over a well-formed list ends, and runs its body on each node once, in
  order, as long as the body keeps the list as it is.\<close>

theorem list_for_each_order:
  assumes "dlist m h xs" "\<And>x m'. x \<in> set xs \<Longrightarrow> dlist m' h xs \<Longrightarrow> dlist (f x m') h xs"
  shows "list_for_each (\<lambda>m. m) h (\<lambda>x m. Some (f x m, False)) (list_next m h) m = Some (fold f xs m)"
proof -
  have "list_for_each (\<lambda>m. m) h (\<lambda>x m. Some (f x m, False)) (list_next m h) m
      = run_body (\<lambda>x m. Some (f x m, False)) xs m"
    by (rule for_each_run [where P = "\<lambda>m. dlist m h xs"]) (use assms in auto)
  then show ?thesis by (simp add: run_body_fold)
qed

theorem list_for_each_order_witness:
  "\<exists>m. list_for_each (\<lambda>m. m) 0x1000 (\<lambda>x m. Some (store8 m (x + 8) 1, False)) 0x2000
     (list_add_tail 0x2000 0x1000 (INIT_LIST_HEAD 0x1000 (\<lambda>_. 0))) = Some m \<and> m 0x2008 = 1"
proof -
  have keep: "dlist (store8 m (x + 8) 1) 0x1000 [0x2000]" if "x \<in> set [0x2000]" "dlist m 0x1000 [0x2000]" for x m
    by (rule dlist_frame [OF that(2)]) (use that(1) in \<open>auto simp: store8_def span_iff\<close>)
  show ?thesis
    using list_for_each_order [OF ring_example keep] by (simp add: dlist_next [OF ring_example])
qed

text \<open>Moving the ends of a chain.\<close>

lemma chain_rehome:
  assumes "chain nx pv a ys z" "ys \<noteq> []" "distinct ys" "z' \<notin> set ys"
    and "\<And>y. y \<in> set ys \<Longrightarrow> nx' y = (if y = last ys then z' else nx y)" "nx' a' = hd ys"
    and "\<And>y. y \<in> set ys \<Longrightarrow> pv' y = (if y = hd ys then a' else pv y)" "pv' z' = last ys"
  shows "chain nx' pv' a' ys z'"
  using assms
proof (induction ys arbitrary: a a')
  case (Cons y ys)
  note P = Cons.prems
  show ?case
  proof (cases "ys = []")
    case True
    then show ?thesis using P(5) [of y] P(6-8) P(7) [of y] by simp
  next
    case False
    have ly: "last (y # ys) = last ys" "y \<noteq> last ys" using False P(3) by auto
    have hy: "nx y = hd ys" using P(1) False chain_next [of nx pv y ys z] by (cases ys) auto
    have "chain nx' pv' y ys z'"
    proof (rule Cons.IH [of y])
      show "chain nx pv y ys z" "distinct ys" "z' \<notin> set ys" "ys \<noteq> []" using P False by auto
      show "nx' x = (if x = last ys then z' else nx x)" if "x \<in> set ys" for x
        using P(5) [of x] that ly by simp
      show "nx' y = hd ys" using P(5) [of y] ly hy by simp
      show "pv' z' = last ys" using P(8) ly by simp
      show "pv' x = (if x = hd ys then y else pv x)" if x: "x \<in> set ys" for x
      proof -
        have "pv' x = pv x" using P(3) P(7) [of x] x by auto
        moreover have "x = hd ys \<Longrightarrow> pv x = y" using P(1) False by (cases ys) auto
        ultimately show ?thesis by simp
      qed
    qed
    then show ?thesis using P(6) P(7) [of y] by simp
  qed
qed simp

definition removal_example :: bytes where
  "removal_example = list_add 0x3000 0x1000 (list_add_tail 0x2000 0x1000 (INIT_LIST_HEAD 0x1000 (\<lambda>_. 0)))"

lemma removal_example_ring: "dlist removal_example 0x1000 [0x3000, 0x2000]"
  unfolding removal_example_def by (rule dl.seq_push [OF ring_example]) (simp add: fresh_node_def apart_def)

text \<open>The safe loop from a position in the list on, with a body that takes out the nodes of one kind.\<close>

lemma safe_suffix:
  assumes "dlist m h (ys @ zs)" "zs \<noteq> [] \<Longrightarrow> n = list_next m (hd zs)"
  shows "\<exists>m'. list_for_each_safe (\<lambda>m. m) h (\<lambda>x m. Some (if P x then list_del_init x m else m, False)) (hd (zs @ [h])) n m
    = Some m' \<and> dlist m' h (ys @ filter (\<lambda>x. \<not> P x) zs)"
  using assms
proof (induction zs arbitrary: ys n m)
  case Nil
  then show ?case by (simp add: list_for_each_safe.simps)
next
  case (Cons z zs)
  let ?m = "if P z then list_del_init z m else m" and ?ys = "if P z then ys else ys @ [z]"
  have z: "z \<noteq> h" using dlist_distinct [OF Cons.prems(1)] by auto
  have n: "n = hd (zs @ [h])" using Cons.prems dlist_entry(1) by simp
  have "dlist ?m h (?ys @ zs)" using Cons.prems(1) dlist_del_init [OF Cons.prems(1)] by simp
  from Cons.IH [OF this, of "list_next ?m n"] n obtain m' where
    "list_for_each_safe (\<lambda>m. m) h (\<lambda>x m. Some (if P x then list_del_init x m else m, False)) n (list_next ?m n) ?m = Some m'"
    "dlist m' h (?ys @ filter (\<lambda>x. \<not> P x) zs)" by auto
  then show ?case using z by (simp add: list_for_each_safe.simps [of _ h _ z] split: if_splits)
qed

text \<open>C35: The loop of \<^verbatim>\<open>list_for_each_safe\<close> may take nodes out as it goes: with a body that applies
  \<^verbatim>\<open>list_del_init\<close> to the nodes of one kind, it ends, and exactly the others stay in the list, in
  their order.\<close>

theorem list_for_each_safe_filters:
  assumes "dlist m h xs"
  shows "\<exists>m'. list_for_each_safe (\<lambda>m. m) h (\<lambda>x m. Some (if P x then list_del_init x m else m, False))
      (list_next m h) (list_next m (list_next m h)) m = Some m' \<and> dlist m' h (filter (\<lambda>x. \<not> P x) xs)"
  using safe_suffix [of m h "[]" xs "list_next m (list_next m h)" P] assms dlist_next [OF assms] by (cases xs) auto

theorem list_for_each_safe_filters_witness:
  "\<exists>m'. list_for_each_safe (\<lambda>m. m) 0x1000 (\<lambda>x m. Some (if x = 0x2000 then list_del_init x m else m, False))
      (list_next removal_example 0x1000) (list_next removal_example (list_next removal_example 0x1000)) removal_example = Some m'
    \<and> dlist m' 0x1000 [0x3000]"
  using list_for_each_safe_filters [OF removal_example_ring, of "\<lambda>x. x = 0x2000"] by simp

text \<open>\<^verbatim>\<open>list_splice\<close> inserts all nodes of the first list at the front of the second, in their
  order; the head of the first list is left out.\<close>

theorem list_splice_joins:
  assumes ys: "dlist m l ys" and xs: "dlist m h xs"
    and sep: "set (l # ys) \<inter> set (h # xs) = {}" "nodes_apart (set (l # ys) \<union> set (h # xs))"
  shows "dlist (list_splice l h m) h (ys @ xs)"
proof (cases "ys = []")
  case True
  then show ?thesis using xs dlist_next [OF ys] by (simp add: list_splice_def Let_def)
next
  case False
  let ?N = "set (l # ys) \<union> set (h # xs)" and ?f = "hd ys" and ?t = "last ys" and ?at = "hd (xs @ [h])"
  let ?m = "list_splice l h m"
  have ends: "?f \<in> set ys" "?t \<in> set ys" using False by simp_all
  have at: "?at \<in> set (h # xs)" by (cases xs) auto
  have d: "distinct (l # ys)" "distinct (h # xs)" using ys xs by (simp_all add: dlist_def)
  have f: "list_next m l = ?f" "list_prev m l = ?t" "list_next m h = ?at" "?f \<noteq> l"
    using dlist_next [OF ys] dlist_prev [OF ys] dlist_next [OF xs] False d(1) ends(1) by auto
  have N: "?f \<in> ?N" "?t \<in> ?N" "?at \<in> ?N" "h \<in> ?N" using ends at by auto
  have eff: "list_next ?m x = (if x = ?t then ?at else if x = h then ?f else list_next m x)"
    "list_prev ?m x = (if x = ?at then ?t else if x = ?f then h else list_prev m x)" if "x \<in> ?N" for x
    using set_link_effects [OF sep(2) N(1) that] set_link_effects [OF sep(2) N(2) that]
      set_link_effects [OF sep(2) N(3) that] set_link_effects [OF sep(2) N(4) that] f
    by (simp_all add: list_splice_def Let_def)
  have ne: "h \<noteq> ?t" "?at \<noteq> ?f" using sep(1) ends at by auto
  have cy: "chain (list_next m) (list_prev m) l ys l" and cx: "chain (list_next m) (list_prev m) h xs h"
    using ys xs by (simp_all add: dlist_def)
  have front: "chain (list_next ?m) (list_prev ?m) h ys ?at"
  proof (rule chain_rehome [OF cy False])
    show "distinct ys" using d by simp
    show "?at \<notin> set ys" using sep(1) at by auto
    show "list_next ?m h = ?f" "list_prev ?m ?at = ?t" using eff [OF N(4)] eff [OF N(3)] ne by simp_all
    show "list_next ?m y = (if y = ?t then ?at else list_next m y)" if "y \<in> set ys" for y
      using eff(1) [of y] that sep(1) by auto
    show "list_prev ?m y = (if y = ?f then h else list_prev m y)" if "y \<in> set ys" for y
      using eff(2) [of y] that sep(1) at by auto
  qed
  have "chain (list_next ?m) (list_prev ?m) h (ys @ xs) h"
  proof (cases xs)
    case Nil
    then show ?thesis using front by simp
  next
    case (Cons x xs')
    have "chain (list_next ?m) (list_prev ?m) x xs' h \<longleftrightarrow> chain (list_next m) (list_prev m) x xs' h"
    proof (rule chain_cong)
      show "list_next ?m y = list_next m y" if "y \<in> set (x # xs')" for y
        using eff(1) [of y] that sep(1) d(2) Cons ends by auto
      show "list_prev ?m y = list_prev m y" if "y \<in> set xs' \<union> {h}" for y
        using eff(2) [of y] that sep(1) d(2) Cons ends by auto
    qed
    then show ?thesis using front cx Cons by (simp add: chain_append)
  qed
  moreover have "distinct (h # ys @ xs)" using d sep(1) by auto
  moreover have "nodes_apart (set (h # ys @ xs))" by (rule nodes_apart_mono [OF sep(2)]) auto
  ultimately show ?thesis by (simp add: dlist_def)
qed

theorem list_splice_joins_witness:
  "dlist (list_splice 0x1000 0x4000 (INIT_LIST_HEAD 0x4000 (list_add_tail 0x2000 0x1000
     (INIT_LIST_HEAD 0x1000 (\<lambda>_. 0))))) 0x4000 [0x2000]"
proof -
  let ?m = "list_add_tail 0x2000 0x1000 (INIT_LIST_HEAD 0x1000 (\<lambda>_. 0))"
  have "dlist (INIT_LIST_HEAD 0x4000 ?m) 0x1000 [0x2000]"
    by (rule dlist_frame [OF ring_example])
      (auto simp: INIT_LIST_HEAD_def set_next_def set_prev_def store32_def span_iff)
  from list_splice_joins [OF this dlist_init] show ?thesis
    by (simp add: nodes_apart_def apart_def)
qed

section \<open>The bitmap\<close>

text \<open>C33: \<^verbatim>\<open>bitmap_bitset\<close> and \<^verbatim>\<open>bitmap_bitclear\<close> change the bit they are given and no
  other, \<^verbatim>\<open>bitmap_bitget\<close> reads it back, an index at or past the limit is refused with \<open>-1\<close> and
  nothing written, and no byte outside the bitmap is touched.\<close>

theorem bitmap_set_clear_get:
  "(if n < bm_limit b
    then bitmap_bitget b k (snd (bitmap_bitset b n m)) =
           (if bm_limit b \<le> k then -1 else if k = n then 1 else bitmap_bitget b k m)
         \<and> bitmap_bitget b k (snd (bitmap_bitclear b n m)) =
           (if bm_limit b \<le> k then -1 else if k = n then 0 else bitmap_bitget b k m)
    else bitmap_bitset b n m = (-1, m) \<and> bitmap_bitclear b n m = (-1, m) \<and> bitmap_bitget b n m = -1)
   \<and> (\<forall>x. x \<notin> bitmap_bytes b \<longrightarrow>
        snd (bitmap_bitset b n m) x = m x \<and> snd (bitmap_bitclear b n m) x = m x)"
proof (cases "n < bm_limit b")
  case True
  then show ?thesis
    using bitmap_bitset_ok(2) [OF True, of m k] bitmap_bitclear_ok(2) [OF True, of m k]
      bitmap_ops_outside [of _ b n m]
    by (simp add: bitmap_bitget_eq)
next
  case False
  then show ?thesis
    by (simp add: bitmap_bitset_def bitmap_bitclear_def bitmap_bitget_def not_less)
qed

theorem bitmap_set_clear_get_witness:
  "bitmap_bitget \<lparr>bm_base = 0x800, bm_limit = 20\<rparr> 13
     (snd (bitmap_bitset \<lparr>bm_base = 0x800, bm_limit = 20\<rparr> 13 (\<lambda>_. 0))) = 1"
  using bitmap_set_clear_get [of 13 "\<lparr>bm_base = 0x800, bm_limit = 20\<rparr>" 13 "\<lambda>_. 0"] by simp

text \<open>\<^verbatim>\<open>bitmap_init\<close> clears every bit below the limit, also when the limit is no multiple of 8,
  and writes the bytes of the bitmap only.\<close>

theorem bitmap_init_clears:
  "(if k < bm_limit b then bitmap_bitget b k (bitmap_init b m) = 0 else bitmap_bitget b k (bitmap_init b m) = -1)
   \<and> bitmap_init b m x = (if x \<in> bitmap_bytes b then 0 else m x)"
  using bit_byte_in_bitmap [of k b]
  by (auto simp: bitmap_bitget_eq bitmap_init_bytes bit_at_def not_le)

section \<open>The terminal\<close>

text \<open>C29: \<^verbatim>\<open>tty_putc\<close> implements the abstract terminal on the list of cells: carriage return, newline,
  backspace, characters that are not printable (control characters and all of \<open>0x80\<close> to \<open>0xFF\<close>, which are
  negative as \<^verbatim>\<open>char\<close>), printing with wrap at the end of a line, and scrolling at the bottom.\<close>

theorem tty_putc_refines:
  assumes "tty_wf s"
  shows "term_of (tty_putc c s) = term_putc c (tty_cell (ucast c) (tty_color s)) (term_of s)"
  using assms by (rule term_of_putc)

text \<open>C30: \<^verbatim>\<open>tty_putc\<close> keeps the cursor on the screen and writes no byte outside it.\<close>

theorem tty_putc_safe:
  assumes "tty_wf s"
  shows "tty_wf (tty_putc c s) \<and> (\<forall>x. x \<notin> screen s \<longrightarrow> mem (tty_putc c s) x = mem s x)"
  using tty_wf_putc [OF assms] tty_putc_outside [OF assms] by simp

definition vga :: tty where
  "vga = \<lparr>mem = \<lambda>_. 0, ports = [], port_in = \<lambda>_. 0, panics = [], rodata = \<lambda>_. 0, tty_w = 80, tty_h = 25,
     tty_color = 7, tty_x = 79, tty_y = 24, tty_scr = 0xB8000\<rparr>"

lemma vga_wf: "tty_wf vga"
  by (simp add: tty_wf_def vga_def)

theorem tty_putc_refines_witness:
  "t_row (term_of (tty_putc 0x41 vga)) = 24 \<and> t_col (term_of (tty_putc 0x41 vga)) = 0"
  using tty_putc_refines [OF vga_wf, where c = "0x41"]
  by (simp add: term_putc_def term_switch_def term_scroll_def Let_def) (simp add: term_of_def vga_def)

theorem tty_putc_safe_witness: "tty_wf (tty_putc 0x41 vga)"
  using tty_putc_safe [OF vga_wf, where c = "0x41"] by simp

text \<open>The hardware cursor is set to \<open>80 x + y\<close> for column \<open>x\<close> and row \<open>y\<close>, where the controller
  counts \<open>x + 80 y\<close>: on the 80 by 25 screen it is right on the diagonal only.\<close>

theorem tty_cursor_transposed:
  assumes "0 \<le> x" "x < 80" "0 \<le> y" "y < (25 :: int)"
  shows "ports (tty_setcursor x y w h s) = ports s @ [(0x3D4, 0x0F), (0x3D5, ucast (word_of_int (80 * x + y) :: u16)),
      (0x3D4, 0x0E), (0x3D5, ucast (drop_bit 8 (word_of_int (80 * x + y) :: u16)))]
    \<and> ((word_of_int (80 * x + y) :: u16) = word_of_int (x + 80 * y) \<longleftrightarrow> x = y)"
proof
  have m: "(0xFF :: u16) = mask 8" by (simp add: mask_eq_exp_minus_1)
  have u: "ucast (p AND 0xFF) = (ucast p :: u8)" for p :: u16
    unfolding m by (rule bit_word_eqI) (auto simp: bit_simps)
  show "ports (tty_setcursor x y w h s) = ports s @ [(0x3D4, 0x0F), (0x3D5, ucast (word_of_int (80 * x + y) :: u16)),
      (0x3D4, 0x0E), (0x3D5, ucast (drop_bit 8 (word_of_int (80 * x + y) :: u16)))]"
    by (simp add: tty_setcursor_def Let_def u mult.commute)
  have "uint (word_of_int (80 * x + y) :: u16) = 80 * x + y" "uint (word_of_int (x + 80 * y) :: u16) = x + 80 * y"
    using assms by (simp_all only: uint_word_of_int) simp_all
  then have "(word_of_int (80 * x + y) :: u16) = word_of_int (x + 80 * y) \<longleftrightarrow> 80 * x + y = x + 80 * y"
    by (simp only: word_uint_eq_iff)
  then show "(word_of_int (80 * x + y) :: u16) = word_of_int (x + 80 * y) \<longleftrightarrow> x = y" by auto
qed

theorem tty_cursor_transposed_witness:
  "(word_of_int (80 * 3 + 2) :: u16) \<noteq> word_of_int (3 + 80 * 2)"
  using tty_cursor_transposed [of 3 2] by simp

end
