(* ===== verification/Process.thy ===== *)
theory Process
  imports Kheap_Inv
begin

text \<open>
  Processes, the scheduler, the context switch and mutexes: \<^verbatim>\<open>process/process.c\<close>,
  \<^verbatim>\<open>process/pid.c\<close>, \<^verbatim>\<open>process/switchto.asm\<close> and \<^verbatim>\<open>process/mutex.c\<close>. A \<^verbatim>\<open>process_t\<close>
  is 84 bytes of heap memory; the process list links its field \<^verbatim>\<open>list\<close> at offset 24. The CPU is
  its registers. A function that gives up the CPU answers whether it switched: after a switch the
  processor runs the other context, and the rest of the caller runs when its own is restored.
\<close>

section \<open>State\<close>

record cpu_regs =
  eax :: u32
  ebx :: u32
  ecx :: u32
  edx :: u32
  esi :: u32
  edi :: u32
  ebp :: u32
  esp :: u32
  eip :: u32
  cs :: u32
  eflags :: u32
  es :: u32
  ds :: u32
  fs :: u32
  gs :: u32

record kernel = heap +
  cpu :: cpu_regs
  current :: u32
  pidcnt :: u32
  pcount :: u32
  kernel_preempt :: u32
  proc_hd :: u32
  schedule_ret :: u32

definition PROC_READY :: u8 where "PROC_READY = 1"
definition PROC_RUNNING :: u8 where "PROC_RUNNING = 2"
definition PROC_SLEEPING :: u8 where "PROC_SLEEPING = 3"
definition SIZEOF_PROCESS :: u32 where "SIZEOF_PROCESS = 84"

lemmas proc_state_defs = PROC_READY_def PROC_RUNNING_def PROC_SLEEPING_def

text \<open>The fields of a \<^verbatim>\<open>process_t\<close>, by their offsets.\<close>

definition p_esp :: "bytes \<Rightarrow> u32 \<Rightarrow> u32" where "p_esp m p = load32 m p"
definition p_ss :: "bytes \<Rightarrow> u32 \<Rightarrow> u32" where "p_ss m p = load32 m (p + 4)"
definition p_kstack :: "bytes \<Rightarrow> u32 \<Rightarrow> u32" where "p_kstack m p = load32 m (p + 8)"
definition p_pid :: "bytes \<Rightarrow> u32 \<Rightarrow> u32" where "p_pid m p = load32 m (p + 20)"
definition p_list :: "u32 \<Rightarrow> u32" where "p_list p = p + 24"
definition p_name :: "u32 \<Rightarrow> u32" where "p_name p = p + 32"
definition p_state :: "bytes \<Rightarrow> u32 \<Rightarrow> u8" where "p_state m p = m (p + 64)"
definition p_ticks :: "bytes \<Rightarrow> u32 \<Rightarrow> u16" where "p_ticks m p = load16 m (p + 66)"
definition p_timeout :: "bytes \<Rightarrow> u32 \<Rightarrow> u32" where "p_timeout m p = load32 m (p + 68)"
definition p_parent :: "bytes \<Rightarrow> u32 \<Rightarrow> u32" where "p_parent m p = load32 m (p + 76)"
definition p_tt :: "bytes \<Rightarrow> u32 \<Rightarrow> u32" where "p_tt m p = load32 m (p + 80)"

definition set_p_esp :: "u32 \<Rightarrow> u32 \<Rightarrow> bytes \<Rightarrow> bytes" where "set_p_esp p v m = store32 m p v"
definition set_p_ss :: "u32 \<Rightarrow> u32 \<Rightarrow> bytes \<Rightarrow> bytes" where "set_p_ss p v m = store32 m (p + 4) v"
definition set_p_kstack :: "u32 \<Rightarrow> u32 \<Rightarrow> bytes \<Rightarrow> bytes" where "set_p_kstack p v m = store32 m (p + 8) v"
definition set_p_pid :: "u32 \<Rightarrow> u32 \<Rightarrow> bytes \<Rightarrow> bytes" where "set_p_pid p v m = store32 m (p + 20) v"
definition set_p_state :: "u32 \<Rightarrow> u8 \<Rightarrow> bytes \<Rightarrow> bytes" where "set_p_state p v m = store8 m (p + 64) v"
definition set_p_ticks :: "u32 \<Rightarrow> u16 \<Rightarrow> bytes \<Rightarrow> bytes" where "set_p_ticks p v m = store16 m (p + 66) v"
definition set_p_timeout :: "u32 \<Rightarrow> u32 \<Rightarrow> bytes \<Rightarrow> bytes" where "set_p_timeout p v m = store32 m (p + 68) v"
definition set_p_parent :: "u32 \<Rightarrow> u32 \<Rightarrow> bytes \<Rightarrow> bytes" where "set_p_parent p v m = store32 m (p + 76) v"
definition set_p_tt :: "u32 \<Rightarrow> u32 \<Rightarrow> bytes \<Rightarrow> bytes" where "set_p_tt p v m = store32 m (p + 80) v"

lemmas p_field_defs = p_esp_def p_ss_def p_kstack_def p_pid_def p_state_def p_ticks_def p_timeout_def
  p_parent_def p_tt_def
lemmas set_p_defs = set_p_esp_def set_p_ss_def set_p_kstack_def set_p_pid_def set_p_state_def
  set_p_ticks_def set_p_timeout_def set_p_parent_def set_p_tt_def

text \<open>\<^verbatim>\<open>list_entry\<close>: from the link field to the process.\<close>

definition process_of :: "u32 \<Rightarrow> u32" where "process_of this = this - 24"

section \<open>Starting\<close>

definition init_process :: "'a kernel_scheme \<Rightarrow> 'a kernel_scheme" where
  "init_process s = s\<lparr>mem := INIT_LIST_HEAD (proc_hd s) (mem s), current := 0, pidcnt := 0,
     pcount := 0, kernel_preempt := 0\<rparr>"

definition enable_kernel_preempt :: "'a kernel_scheme \<Rightarrow> 'a kernel_scheme" where
  "enable_kernel_preempt s = s\<lparr>kernel_preempt := 1\<rparr>"

definition disable_kernel_preempt :: "'a kernel_scheme \<Rightarrow> 'a kernel_scheme" where
  "disable_kernel_preempt s = s\<lparr>kernel_preempt := 0\<rparr>"

definition is_kernel_preempt :: "'a kernel_scheme \<Rightarrow> u8" where
  "is_kernel_preempt s = ucast (kernel_preempt s)"

definition get_current_process :: "'a kernel_scheme \<Rightarrow> u32" where
  "get_current_process s = current s"

text \<open>\<^verbatim>\<open>cli\<close> and \<^verbatim>\<open>sti\<close> of \<^verbatim>\<open>cpu/cpu.c\<close>: bit 9 of the flags.\<close>

definition enable_ints :: "'a kernel_scheme \<Rightarrow> 'a kernel_scheme" where
  "enable_ints s = s\<lparr>cpu := (cpu s)\<lparr>eflags := eflags (cpu s) OR 0x200\<rparr>\<rparr>"

definition disable_ints :: "'a kernel_scheme \<Rightarrow> 'a kernel_scheme" where
  "disable_ints s = s\<lparr>cpu := (cpu s)\<lparr>eflags := eflags (cpu s) AND NOT 0x200\<rparr>\<rparr>"

fun push_words :: "u32 list \<Rightarrow> u32 \<Rightarrow> bytes \<Rightarrow> u32 \<times> bytes" where
  "push_words [] sp m = (sp, m)"
| "push_words (w # ws) sp m = push_words ws (sp - 4) (store32 m (sp - 4) w)"

text \<open>The words of \<^verbatim>\<open>setup_kernel_process\<close> below the pointer to the process, in the order written.\<close>

definition setup_kernel_process :: "u32 \<Rightarrow> u32 \<Rightarrow> bytes \<Rightarrow> bytes" where
  "setup_kernel_process p proc m =
     (let procstack = p_esp m p;
          m = store32 m procstack p;
          (procstack, m) = push_words
            [0x202, 0x10, proc, 0x08, 0x08, 0x08, 0x08, 0, 0, 0, 0, 0, 0, 0x08, 0x08] procstack m;
          m = set_p_esp p procstack m;
          m = set_p_ss p 0x08 m
      in set_p_state p PROC_READY m)"

definition create_process ::
  "u32 \<Rightarrow> u32 \<Rightarrow> u32 \<Rightarrow> 'a kernel_scheme \<Rightarrow> (u32 \<times> 'a kernel_scheme) option" where
  "create_process name arg proc s = do {
     (newproc, s) \<leftarrow> kmalloc SIZEOF_PROCESS 0 s;
     (if newproc = 0 then do {
        s \<leftarrow> panic ''Unable to malloc, panicing - this shouldn't be here'' s;
        Some (0, s)
      } else do {
        let s = s\<lparr>mem := memset (mem s) newproc 0 SIZEOF_PROCESS\<rparr>;
        let s = s\<lparr>mem := set_p_pid newproc (pidcnt s) (mem s), pidcnt := pidcnt s + 1\<rparr>;
        let s = s\<lparr>mem := fst (strncpy (mem s) (p_name newproc) name (32 - 1))\<rparr>;
        (kstack, s) \<leftarrow> kmalloc (ucast (page_size s)) 0 s;
        let s = s\<lparr>mem := set_p_kstack newproc kstack (mem s)\<rparr>;
        s \<leftarrow> (if p_kstack (mem s) newproc = 0 then do {
               s \<leftarrow> kfree newproc s;
               panic ''Couldn't malloc new stack, panicing - this shouldn't be here'' s
             } else Some s);
        let m = memset (mem s) (p_kstack (mem s) newproc) 0 (ucast (page_size s));
        let m = set_p_esp newproc (p_kstack m newproc + (ucast (page_size s) - 1)) m;
        let m = list_add_tail (p_list newproc) (proc_hd s) m;
        let m = setup_kernel_process newproc proc m;
        let m = set_p_ticks newproc 100 m;
        let m = set_p_tt newproc 0 m;
        let m = set_p_parent newproc (get_current_process s) m;
        Some (p_pid m newproc, s\<lparr>mem := m, pcount := pcount s + 1\<rparr>)
      })
   }"

section \<open>The context switch\<close>

text \<open>
  \<^verbatim>\<open>switchTo\<close>, entered with the return address on top of the stack and the process below it. It
  saves the registers in the order \<^verbatim>\<open>eflags cs eip es ds fs gs eax ecx edx ebx esp ebp esi edi\<close>,
  stores \<^verbatim>\<open>esp\<close> in the current process, if there is one, and restores the other context.
\<close>

definition pop_word :: "bytes \<Rightarrow> u32 \<Rightarrow> nat \<Rightarrow> u32" where
  "pop_word m sp i = load32 m (sp + of_nat (4 * i))"

definition restore_regs :: "bytes \<Rightarrow> u32 \<Rightarrow> cpu_regs" where
  "restore_regs m sp = \<lparr>eax = pop_word m sp 7, ebx = pop_word m sp 4, ecx = pop_word m sp 6,
     edx = pop_word m sp 5, esi = pop_word m sp 1, edi = pop_word m sp 0, ebp = pop_word m sp 2,
     esp = sp + 60, eip = pop_word m sp 12, cs = pop_word m sp 13, eflags = pop_word m sp 14,
     es = pop_word m sp 11, ds = pop_word m sp 10, fs = pop_word m sp 9, gs = pop_word m sp 8\<rparr>"

definition switchTo :: "'a kernel_scheme \<Rightarrow> 'a kernel_scheme" where
  "switchTo s =
     (let r = cpu s;
          ret = load32 (mem s) (esp r);
          sp = esp r + 4;
          (sp, m) = push_words [eflags r, cs r, ret, es r, ds r, fs r, gs r] sp (mem s);
          (sp, m) = push_words [ret, ecx r, edx r, ebx r, sp, ebp r, esi r, edi r] sp m;
          m = (if current s = 0 then m else store32 m (current s) sp);
          nextproc = load32 m (sp + 60)
      in s\<lparr>mem := m, current := nextproc, cpu := restore_regs m (p_esp m nextproc)\<rparr>)"

text \<open>The call in \<^verbatim>\<open>schedule\<close>: the argument, then the return address in the caller.\<close>

definition call_switchTo :: "u32 \<Rightarrow> 'a kernel_scheme \<Rightarrow> 'a kernel_scheme" where
  "call_switchTo nextproc s =
     (let (sp, m) = push_words [nextproc, schedule_ret s] (esp (cpu s)) (mem s)
      in switchTo (s\<lparr>mem := m, cpu := (cpu s)\<lparr>esp := sp\<rparr>\<rparr>))"

section \<open>The scheduler\<close>

definition give_ticks :: "'a kernel_scheme \<Rightarrow> 'a kernel_scheme option" where
  "give_ticks s =
     list_for_each mem (proc_hd s)
       (\<lambda>this s. Some (s\<lparr>mem := set_p_ticks (process_of this) 100 (mem s)\<rparr>, False))
       (list_next (mem s) (proc_hd s)) s"

definition find_ready :: "'a kernel_scheme \<Rightarrow> (u32 \<times> 'a kernel_scheme) option" where
  "find_ready s =
     list_for_each (\<lambda>(_, s). mem s) (proc_hd s)
       (\<lambda>this (selected, s).
          let ptr = process_of this
          in if p_state (mem s) ptr = PROC_READY \<and> p_ticks (mem s) ptr > 0
             then Some ((ptr, s), True) else Some ((0, s), False))
       (list_next (mem s) (proc_hd s)) (0, s)"

partial_function (option) select_next_process ::
  "'a kernel_scheme \<Rightarrow> (u32 \<times> 'a kernel_scheme) option" where
  "select_next_process s =
     Option.bind (find_ready s) (\<lambda>(selected, s).
       if selected = 0 then Option.bind (give_ticks s) (\<lambda>s. select_next_process s)
       else Some (selected, s))"

definition update_timeout :: "u32 \<Rightarrow> bytes \<Rightarrow> bytes" where
  "update_timeout ptr m =
     (if p_state m ptr = PROC_SLEEPING
      then let m = set_p_timeout ptr (p_timeout m ptr - 1) m
           in if p_timeout m ptr = 0 then set_p_state ptr PROC_READY m else m
      else m)"

definition update_timeouts :: "'a kernel_scheme \<Rightarrow> 'a kernel_scheme option" where
  "update_timeouts s =
     list_for_each mem (proc_hd s)
       (\<lambda>this s. Some (s\<lparr>mem := update_timeout (process_of this) (mem s)\<rparr>, False))
       (list_next (mem s) (proc_hd s)) s"

definition account_ticks :: "u32 \<Rightarrow> bytes \<Rightarrow> bytes" where
  "account_ticks p m =
     (if p_ticks m p > 0
      then let m = set_p_ticks p (p_ticks m p - 1) m in set_p_tt p (p_tt m p + 1) m
      else m)"

definition schedule :: "'a kernel_scheme \<Rightarrow> (bool \<times> 'a kernel_scheme) option" where
  "schedule s =
     (if is_kernel_preempt s = 0 then Some (False, s)
      else if pcount s = 0 then Some (False, s)
      else do {
        s \<leftarrow> update_timeouts s;
        (if current s \<noteq> 0 \<and> p_ticks (mem s) (current s) \<noteq> 0
         then Some (False, s\<lparr>mem := account_ticks (current s) (mem s)\<rparr>)
         else do {
           let s = (if p_state (mem s) (current s) = PROC_RUNNING
                    then s\<lparr>mem := set_p_state (current s) PROC_READY (mem s)\<rparr> else s);
           (nextproc, s) \<leftarrow> select_next_process s;
           let s = s\<lparr>mem := set_p_state nextproc PROC_RUNNING (mem s)\<rparr>;
           let s = outportb 0x20 0x20 s;
           let s = s\<lparr>mem := account_ticks nextproc (mem s)\<rparr>;
           Some (True, call_switchTo nextproc s)
         })
      })"

section \<open>Process control\<close>

definition process_expire :: "'a kernel_scheme \<Rightarrow> (bool \<times> 'a kernel_scheme) option" where
  "process_expire s =
     (let me = get_current_process s;
          s = s\<lparr>mem := set_p_ticks me 0 (mem s)\<rparr>;
          s = disable_ints s
      in do {
        (switched, s) \<leftarrow> schedule s;
        Some (switched, if switched then s else enable_ints s)
      })"

definition process_end :: "'a kernel_scheme \<Rightarrow> (bool \<times> 'a kernel_scheme) option" where
  "process_end s =
     (let me = get_current_process s;
          s = s\<lparr>mem := list_del (p_list me) (mem s)\<rparr>
      in do {
        s \<leftarrow> kfree me s;
        process_expire s
      })"

definition process_sleep :: "u32 \<Rightarrow> 'a kernel_scheme \<Rightarrow> (bool \<times> 'a kernel_scheme) option" where
  "process_sleep ticks s =
     (let me = get_current_process s;
          m = set_p_state me PROC_SLEEPING (mem s);
          m = set_p_timeout me ticks m
      in process_expire (s\<lparr>mem := m\<rparr>))"

definition ps :: "'a kernel_scheme \<Rightarrow> 'a kernel_scheme option" where
  "ps s = do {
     s \<leftarrow> kprintf (rodata s ''---[ Process List ]---'') [] s;
     s \<leftarrow> (if is_kernel_preempt s = 0 then kprintf (rodata s (''*'' @ [CHR 0x0A])) [] s
           else kprintf (rodata s [CHR 0x0A]) [] s);
     s \<leftarrow> kprintf (rodata s (''pid/name/stack/esp/state/ticks'' @ [CHR 0x0A])) [] s;
     s \<leftarrow> list_for_each mem (proc_hd s)
       (\<lambda>this s. do {
          let ptr = process_of this;
          s \<leftarrow> kprintf (rodata s (''%d/%s/0x%x/0x%x/0x%x/%d'' @ [CHR 0x0A]))
            [p_pid (mem s) ptr, p_name ptr, p_kstack (mem s) ptr, p_esp (mem s) ptr,
             ucast (p_state (mem s) ptr), p_tt (mem s) ptr] s;
          Some (s, False)
        }) (list_next (mem s) (proc_hd s)) s;
     kprintf (rodata s [CHR 0x0A]) [] s
   }"

definition get_pid :: "'a kernel_scheme \<Rightarrow> u32" where
  "get_pid s = (let me = get_current_process s in p_pid (mem s) me)"

definition get_ppid :: "'a kernel_scheme \<Rightarrow> u32" where
  "get_ppid s = (let me = get_current_process s in p_pid (mem s) (p_parent (mem s) me))"

section \<open>Mutexes\<close>

text \<open>A \<^verbatim>\<open>mutex_t\<close> is 8 bytes: \<^verbatim>\<open>state\<close> at 0, \<^verbatim>\<open>owner\<close> at 4.\<close>

definition MUTEX_UNLOCKED :: u8 where "MUTEX_UNLOCKED = 0"
definition MUTEX_LOCKED :: u8 where "MUTEX_LOCKED = 1"

definition mx_state :: "bytes \<Rightarrow> u32 \<Rightarrow> u8" where "mx_state m x = m x"
definition mx_owner :: "bytes \<Rightarrow> u32 \<Rightarrow> u32" where "mx_owner m x = load32 m (x + 4)"

definition mutex_init :: "u32 \<Rightarrow> 'a kernel_scheme \<Rightarrow> 'a kernel_scheme" where
  "mutex_init mutex s = s\<lparr>mem := store8 (store32 (mem s) (mutex + 4) 0) mutex MUTEX_UNLOCKED\<rparr>"

definition mutex_wait :: "'a kernel_scheme \<Rightarrow> 'a kernel_scheme" where
  "mutex_wait s = enable_ints (enable_kernel_preempt (disable_ints s))"

end
