(* ===== verification/Context.thy ===== *)
theory Context
  imports Process
begin

text \<open>
  The context switch of \<^verbatim>\<open>process/switchto.asm\<close>. A call pushes 16 words: the argument and the
  15 saved words, in the 64 bytes below the caller's stack pointer. \<open>saved_words\<close> lists the frame from its
  lowest word up; restoring it gives the registers back, now or after any number of other switches
  that leave the frame alone.
\<close>

section \<open>Pushing words\<close>

lemma push_words_append:
  "push_words (xs @ ys) sp m = (case push_words xs sp m of (sp, m) \<Rightarrow> push_words ys sp m)"
  by (induction xs arbitrary: sp m) simp_all

lemma push_words_sp: "fst (push_words ws sp m) = sp - of_nat (4 * length ws)"
proof (induction ws arbitrary: sp m)
  case (Cons w ws)
  show ?case using Cons.IH [of "sp - 4" "store32 m (sp - 4) w"] by (simp add: algebra_simps)
qed simp

lemma span_below:
  assumes "k \<le> n" "n \<le> 4294967295" "j \<le> n - k" "x \<in> span (a - of_nat n + of_nat k) j"
  shows "x \<in> span (a - of_nat n) n"
  using assms span_offset [of x "a - of_nat n" "of_nat k" j n]
  by (simp add: unat_of_nat)

lemma span_after:
  assumes "x \<in> span (a + i) j" "unat i + j \<le> 4294967296"
  shows "x \<notin> span a (unat i)"
proof -
  have "unat (x - (a + i)) < j" using assms(1) by (simp add: span_iff)
  then have "unat (x - (a + i) + i) = unat (x - (a + i)) + unat i"
    using assms(2) by (intro unat_plus_small) linarith
  moreover have "x - (a + i) + i = x - a" by simp
  ultimately show ?thesis by (simp add: span_iff)
qed

lemma push_words_outside:
  assumes "4 * length ws \<le> 4294967295" "b \<notin> span (sp - of_nat (4 * length ws)) (4 * length ws)"
  shows "snd (push_words ws sp m) b = m b"
  using assms
proof (induction ws arbitrary: sp m)
  case (Cons w ws)
  let ?n = "4 * length (w # ws)"
  have eq: "sp - 4 - of_nat (4 * length ws) = sp - of_nat ?n + of_nat 0"
    "sp - 4 = sp - of_nat ?n + of_nat (4 * length ws)" by (simp_all add: algebra_simps)
  have "b \<notin> span (sp - 4 - of_nat (4 * length ws)) (4 * length ws)"
    using span_below [of 0 ?n "4 * length ws" b sp] Cons.prems by (auto simp only: eq(1)) simp
  moreover have "b \<notin> span (sp - 4) 4"
    using span_below [of "4 * length ws" ?n 4 b sp] Cons.prems unfolding eq(2) by auto
  ultimately show ?case using Cons.IH [of "sp - 4"] Cons.prems(1) by (simp add: store32_outside)
qed simp

lemma push_words_load:
  assumes "4 * length ws \<le> 4294967295" "i < length ws"
  shows "load32 (snd (push_words ws sp m)) (sp - of_nat (4 * (i + 1))) = ws ! i"
  using assms
proof (induction ws arbitrary: sp m i)
  case (Cons w ws)
  show ?case
  proof (cases i)
    case 0
    have "snd (push_words ws (sp - 4) (store32 m (sp - 4) w)) b = store32 m (sp - 4) w b"
      if "b \<in> span (sp - 4) 4" for b
    proof (rule push_words_outside)
      have u: "unat (of_nat (4 * length ws) :: u32) = 4 * length ws"
        using Cons.prems(1) by (simp only: unat_of_nat) simp
      have "sp - 4 = sp - 4 - of_nat (4 * length ws) + of_nat (4 * length ws)" by simp
      then show "b \<notin> span (sp - 4 - of_nat (4 * length ws)) (4 * length ws)"
        using span_after [of b "sp - 4 - of_nat (4 * length ws)" "of_nat (4 * length ws)" 4]
          that Cons.prems(1) unfolding u by simp
    qed (use Cons.prems(1) in simp)
    then have "load32 (snd (push_words ws (sp - 4) (store32 m (sp - 4) w))) (sp - 4) =
        load32 (store32 m (sp - 4) w) (sp - 4)" by (rule load32_cong)
    then show ?thesis using 0 by simp
  next
    case (Suc j)
    have eq: "sp - of_nat (4 * (i + 1)) = sp - 4 - of_nat (4 * (j + 1))" by (simp add: Suc algebra_simps)
    have "load32 (snd (push_words ws (sp - 4) (store32 m (sp - 4) w))) (sp - 4 - of_nat (4 * (j + 1))) = ws ! j"
      using Cons.prems Suc by (intro Cons.IH) simp_all
    then show ?thesis unfolding eq using Suc by simp
  qed
qed simp

section \<open>The frame\<close>

text \<open>The words of the frame from the lowest up: \<^verbatim>\<open>edi\<close> first, the argument last.\<close>

definition saved_words :: "cpu_regs \<Rightarrow> u32 \<Rightarrow> u32 \<Rightarrow> u32 list" where
  "saved_words r ret arg = [edi r, esi r, ebp r, esp r - 32, ebx r, edx r, ecx r, ret,
     gs r, fs r, ds r, es r, ret, cs r, eflags r, arg]"

definition frame_at :: "bytes \<Rightarrow> u32 \<Rightarrow> u32 list \<Rightarrow> bool" where
  "frame_at m sp ws \<longleftrightarrow> (\<forall>i < length ws. pop_word m sp i = ws ! i)"

lemma frame_cong:
  assumes "frame_at m sp ws" "4 * length ws \<le> 4294967295"
    and "\<And>b. b \<in> span sp (4 * length ws) \<Longrightarrow> m' b = m b"
  shows "frame_at m' sp ws"
  unfolding frame_at_def
proof (intro allI impI)
  fix i assume i: "i < length ws"
  have "pop_word m' sp i = pop_word m sp i"
    unfolding pop_word_def
  proof (rule load32_cong, rule assms(3))
    fix b assume "b \<in> span (sp + of_nat (4 * i)) 4"
    moreover have "unat (of_nat (4 * i) :: u32) = 4 * i"
      using i assms(2) by (simp only: unat_of_nat) simp
    ultimately show "b \<in> span sp (4 * length ws)"
      using span_offset [of b sp "of_nat (4 * i)" 4 "4 * length ws"] i assms(2) by simp
  qed
  with i assms(1) show "pop_word m' sp i = ws ! i" by (simp add: frame_at_def)
qed

lemma push_words_frame:
  assumes "4 * length ws \<le> 4294967295"
  shows "frame_at (snd (push_words ws sp m)) (sp - of_nat (4 * length ws)) (rev ws)"
  unfolding frame_at_def
proof (intro allI impI)
  fix i assume "i < length (rev ws)"
  then have i: "i < length ws" by simp
  let ?j = "length ws - Suc i"
  have eq: "sp - of_nat (4 * length ws) + of_nat (4 * i) = sp - of_nat (4 * (?j + 1))"
  proof -
    have "4 * length ws = 4 * i + 4 * (?j + 1)" using i by simp
    then have "of_nat (4 * length ws) = (of_nat (4 * i) + of_nat (4 * (?j + 1)) :: u32)"
      by (metis of_nat_add)
    then show ?thesis by (simp only: algebra_simps)
  qed
  have "load32 (snd (push_words ws sp m)) (sp - of_nat (4 * (?j + 1))) = ws ! ?j"
    using i by (intro push_words_load [OF assms]) simp
  then show "pop_word (snd (push_words ws sp m)) (sp - of_nat (4 * length ws)) i = rev ws ! i"
    unfolding pop_word_def eq using i by (simp add: rev_nth)
qed

lemma frame_snoc:
  assumes "frame_at m sp ws" "load32 m (sp + of_nat (4 * length ws)) = w"
  shows "frame_at m sp (ws @ [w])"
  using assms by (auto simp: frame_at_def pop_word_def nth_append less_Suc_eq)

text \<open>The registers that a context with this frame continues with.\<close>

definition resumed :: "cpu_regs \<Rightarrow> u32 \<Rightarrow> cpu_regs" where
  "resumed r ret = r\<lparr>eax := ret, esp := esp r - 4, eip := ret\<rparr>"

lemma restore_saved:
  assumes "frame_at m (esp r - 64) (saved_words r ret arg)"
  shows "restore_regs m (esp r - 64) = resumed r ret"
proof -
  have w: "pop_word m (esp r - 64) i = saved_words r ret arg ! i" if "i < 16" for i
    using assms that by (simp add: frame_at_def saved_words_def)
  show ?thesis
    by (simp add: restore_regs_def w resumed_def) (simp add: saved_words_def)
qed

text \<open>What a call of \<^verbatim>\<open>switchTo\<close> does: the frame, the stack pointer in the old process, the new registers.\<close>

lemma call_switchTo_effect:
  assumes cur: "current s \<noteq> 0 \<Longrightarrow> span (current s) 4 \<inter> span (esp (cpu s) - 64) 64 = {}"
  shows "\<exists>m. call_switchTo n s = s\<lparr>mem := m, current := n, cpu := restore_regs m (p_esp m n)\<rparr>
    \<and> frame_at m (esp (cpu s) - 64) (saved_words (cpu s) (schedule_ret s) n)
    \<and> (current s \<noteq> 0 \<longrightarrow> p_esp m (current s) = esp (cpu s) - 64)
    \<and> (\<forall>b. b \<notin> span (esp (cpu s) - 64) 64 \<longrightarrow> (current s \<noteq> 0 \<longrightarrow> b \<notin> span (current s) 4) \<longrightarrow> m b = mem s b)"
proof -
  let ?r = "cpu s" and ?ret = "schedule_ret s" and ?E = "esp (cpu s)"
  define ma where "ma = snd (push_words [n, ?ret] ?E (mem s))"
  define ws where "ws = [eflags ?r, cs ?r, ?ret, es ?r, ds ?r, fs ?r, gs ?r]
      @ [?ret, ecx ?r, edx ?r, ebx ?r, ?E - 32, ebp ?r, esi ?r, edi ?r]"
  define mb where "mb = snd (push_words ws (?E - 4) ma)"
  let ?m = "if current s = 0 then mb else store32 mb (current s) (?E - 64)"
  have len: "length ws = 15" by (simp add: ws_def)
  have ret: "load32 ma (?E - 8) = ?ret"
    using push_words_load [of "[n, ?ret]" 1 ?E "mem s"] by (simp add: ma_def)
  have arg0: "load32 ma (?E - 4) = n"
    using push_words_load [of "[n, ?ret]" 0 ?E "mem s"] by (simp add: ma_def)
  have ou: "mb b = ma b" if "b \<notin> span (?E - 64) 60" for b
    using that push_words_outside [of ws b "?E - 4" ma] by (simp add: mb_def len)
  have "mb b = ma b" if "b \<in> span (?E - 4) 4" for b
    using span_after [of b "?E - 64" 60 4] that by (intro ou) simp
  then have arg: "load32 mb (?E - 4) = n" using arg0 load32_cong [of "?E - 4" mb ma] by simp
  have fr15: "frame_at mb (?E - 64) (rev ws)"
    using push_words_frame [of ws "?E - 4" ma] by (simp add: mb_def len)
  have sw: "saved_words ?r ?ret n = rev ws @ [n]" by (simp add: saved_words_def ws_def)
  have fb: "frame_at mb (?E - 64) (saved_words ?r ?ret n)"
    unfolding sw by (rule frame_snoc [OF fr15]) (simp add: len arg)
  have st: "store32 mb (current s) v b = mb b" if "b \<in> span (?E - 64) 64" "current s \<noteq> 0" for v b
    using cur that by (intro store32_outside) blast
  have l16: "length (saved_words ?r ?ret n) = 16" by (simp add: saved_words_def)
  have fm: "frame_at ?m (?E - 64) (saved_words ?r ?ret n)"
    by (rule frame_cong [OF fb]) (simp_all add: l16 st)
  then have "pop_word ?m (?E - 64) 15 = saved_words ?r ?ret n ! 15"
    unfolding frame_at_def l16 by (rule allE [of _ 15]) simp
  then have arg_m: "load32 ?m (?E - 4) = n" by (simp add: pop_word_def sw nth_append len)
  have "call_switchTo n s = s\<lparr>mem := ?m, current := n, cpu := restore_regs ?m (p_esp ?m n)\<rparr>"
  proof -
    have 1: "push_words [n, ?ret] ?E (mem s) = (?E - 8, ma)"
      using push_words_sp [of "[n, ?ret]" ?E "mem s"] by (simp add: ma_def prod_eq_iff)
    have 2: "push_words [?ret, ecx ?r, edx ?r, ebx ?r, ?E - 32, ebp ?r, esi ?r, edi ?r] (?E - 32)
        (snd (push_words [eflags ?r, cs ?r, ?ret, es ?r, ds ?r, fs ?r, gs ?r] (?E - 4) ma)) = (?E - 64, mb)"
      by (simp add: mb_def ws_def)
    show ?thesis
      using ret arg_m 2 unfolding call_switchTo_def 1
      by (cases "current s = 0") (simp_all add: switchTo_def Let_def)
  qed
  moreover have "?m b = mem s b"
    if "b \<notin> span (?E - 64) 64" "current s \<noteq> 0 \<longrightarrow> b \<notin> span (current s) 4" for b
  proof -
    have "?m b = mb b" using that(2) by (simp add: store32_outside)
    also have "\<dots> = ma b" using that(1) span_mono [of b "?E - 64" 60 64] by (intro ou) auto
    also have "\<dots> = mem s b"
    proof -
      have "b \<notin> span (?E - 8) 8"
        using that(1) span_offset [of b "?E - 64" 56 8 64] by (auto simp: algebra_simps)
      then show ?thesis using push_words_outside [of "[n, ?ret]" b ?E "mem s"] by (simp add: ma_def)
    qed
    finally show ?thesis .
  qed
  ultimately show ?thesis
    using fm by (intro exI [of _ ?m]) (simp add: p_esp_def)
qed

section \<open>Starting and resuming a process\<close>

text \<open>The words \<^verbatim>\<open>setup_kernel_process\<close> leaves on the new stack, from the lowest up.\<close>

definition start_words :: "u32 \<Rightarrow> u32 \<Rightarrow> u32 list" where
  "start_words p proc = [8, 8, 0, 0, 0, 0, 0, 0, 8, 8, 8, 8, proc, 0x10, 0x202, p]"

definition start_regs :: "u32 \<Rightarrow> u32 \<Rightarrow> cpu_regs" where
  "start_regs sp proc = \<lparr>eax = 0, ebx = 0, ecx = 0, edx = 0, esi = 8, edi = 8, ebp = 0, esp = sp,
     eip = proc, cs = 0x10, eflags = 0x202, es = 8, ds = 8, fs = 8, gs = 8\<rparr>"

lemma setup_effect:
  assumes "span p 84 \<inter> span (sp - 60) 64 = {}" "p_esp m p = sp"
  shows "frame_at (setup_kernel_process p proc m) (sp - 60) (start_words p proc)"
    and "p_esp (setup_kernel_process p proc m) p = sp - 60"
    and "p_state (setup_kernel_process p proc m) p = PROC_READY"
    and "b \<notin> span p 84 \<Longrightarrow> b \<notin> span (sp - 60) 64 \<Longrightarrow> setup_kernel_process p proc m b = m b"
    and "b \<in> span (p + 8) 56 \<union> span (p + 65) 19 \<Longrightarrow> setup_kernel_process p proc m b = m b"
proof -
  define ws where "ws = [0x202, 0x10, proc, 8, 8, 8, 8, 0, 0, 0, 0, 0, 0, 8, 8 :: u32]"
  define ma where "ma = store32 m sp p"
  define mb where "mb = snd (push_words ws sp ma)"
  have len: "length ws = 15" by (simp add: ws_def)
  let ?m = "set_p_state p PROC_READY (set_p_ss p 8 (set_p_esp p (sp - 60) mb))"
  have eq: "setup_kernel_process p proc m = ?m"
    using push_words_sp [of ws sp ma] assms(2)
    by (simp add: setup_kernel_process_def Let_def mb_def ma_def ws_def)
  have ou: "mb b = ma b" if "b \<notin> span (sp - 60) 60" for b
    using that push_words_outside [of ws b sp ma] by (simp add: mb_def len)
  have "mb b = ma b" if "b \<in> span sp 4" for b
    using span_after [of b "sp - 60" 60 4] that by (intro ou) simp
  then have top: "load32 mb sp = p" using load32_cong [of sp mb ma] by (simp add: ma_def)
  have fr: "frame_at mb (sp - 60) (rev ws)"
    using push_words_frame [of ws sp ma] by (simp add: mb_def len)
  have sw: "start_words p proc = rev ws @ [p]" by (simp add: start_words_def ws_def)
  have fb: "frame_at mb (sp - 60) (start_words p proc)"
    unfolding sw by (rule frame_snoc [OF fr]) (simp add: len top)
  have st: "b \<notin> span p 84 \<Longrightarrow> ?m b = mb b" for b
  proof -
    assume b: "b \<notin> span p 84"
    have "b \<notin> span p 4" "b \<notin> span (p + 4) 4" "b \<notin> span (p + 64) 1"
      using b span_mono [of b p 4 84] span_offset [of b p 4 4 84] span_offset [of b p 64 1 84] by auto
    then show "?m b = mb b"
      by (auto simp: set_p_defs store32_outside store8_def span_iff)
  qed
  have stack: "b \<in> span (sp - 60) 64 \<Longrightarrow> ?m b = mb b" for b using assms(1) st by blast
  show "frame_at (setup_kernel_process p proc m) (sp - 60) (start_words p proc)"
    unfolding eq by (rule frame_cong [OF fb]) (simp_all add: start_words_def stack)
  show "p_esp (setup_kernel_process p proc m) p = sp - 60"
    "p_state (setup_kernel_process p proc m) p = PROC_READY"
    unfolding eq by (simp_all add: p_field_defs set_p_defs mem_frame apart_def)
  have low: "mb b = m b" if "b \<notin> span (sp - 60) 64" for b
  proof -
    have "b \<notin> span sp 4" using that span_offset [of b "sp - 60" 60 4 64] by auto
    moreover have "b \<notin> span (sp - 60) 60" using that span_mono [of b "sp - 60" 60 64] by auto
    ultimately show ?thesis using ou by (simp add: ma_def store32_outside)
  qed
  show "b \<notin> span p 84 \<Longrightarrow> b \<notin> span (sp - 60) 64 \<Longrightarrow> setup_kernel_process p proc m b = m b"
    unfolding eq using st low by simp
  show "setup_kernel_process p proc m b = m b" if b: "b \<in> span (p + 8) 56 \<union> span (p + 65) 19"
  proof -
    have "b \<in> span p 84" using b span_offset [of b p 8 56 84] span_offset [of b p 65 19 84] by auto
    then have "mb b = m b" using assms(1) by (intro low) blast
    moreover have "b \<notin> span p 8 \<and> b \<noteq> p + 64"
    proof (cases "b \<in> span (p + 8) 56")
      case True
      then show ?thesis using span_after [of b p 8 56] by (auto simp: span_iff)
    next
      case False
      with b have b': "b \<in> span (p + 65) 19" by simp
      then have "b \<notin> span p 65" using span_after [of b p 65 19] by simp
      then show ?thesis using span_mono [of b p 8 65] by (auto simp: span_iff)
    qed
    moreover from this have "b \<notin> span p 4" "b \<notin> span (p + 4) 4"
      using span_mono [of b p 4 8] span_offset [of b p 4 4 8] by auto
    ultimately show ?thesis unfolding eq by (simp add: set_p_defs store32_outside store8_outside)
  qed
qed

lemma restore_start:
  assumes "frame_at m sp (start_words p proc)"
  shows "restore_regs m sp = start_regs (sp + 60) proc" "load32 m (sp + 60) = p"
proof -
  have w: "pop_word m sp i = start_words p proc ! i" if "i < 16" for i
    using assms that by (simp add: frame_at_def start_words_def)
  show "restore_regs m sp = start_regs (sp + 60) proc"
    by (simp add: restore_regs_def w start_regs_def) (simp add: start_words_def)
  show "load32 m (sp + 60) = p" using w [of 15] by (simp add: pop_word_def start_words_def)
qed

text \<open>C14: A process that gave up the CPU in \<^verbatim>\<open>switchTo\<close> gets it back as it left it: if its frame and
  its saved stack pointer have been left alone, a later switch to it, from any other context, restores
  every saved register and returns to the caller of \<^verbatim>\<open>switchTo\<close> with the stack pointer it had there.\<close>

theorem switch_roundtrip:
  assumes "current s = a" "a \<noteq> 0" "span a 4 \<inter> span (esp (cpu s) - 64) 64 = {}"
    and "\<forall>b \<in> span (esp (cpu s) - 64) 64 \<union> span a 4. mem s2 b = mem (call_switchTo n s) b"
    and "span (esp (cpu s2) - 64) 64 \<inter> (span (esp (cpu s) - 64) 64 \<union> span a 4) = {}"
    and "current s2 \<noteq> 0" "span (current s2) 4 \<inter>
      (span (esp (cpu s2) - 64) 64 \<union> span (esp (cpu s) - 64) 64 \<union> span a 4) = {}"
  shows "current (call_switchTo a s2) = a
    \<and> cpu (call_switchTo a s2) = (cpu s)\<lparr>eax := schedule_ret s, esp := esp (cpu s) - 4, eip := schedule_ret s\<rparr>"
proof -
  let ?E = "esp (cpu s)"
  obtain m where s1: "mem (call_switchTo n s) = m" and fr: "frame_at m (?E - 64) (saved_words (cpu s) (schedule_ret s) n)"
    and sp: "p_esp m a = ?E - 64"
    using call_switchTo_effect [of s n] assms(1-3) by auto
  have "frame_at (mem s2) (?E - 64) (saved_words (cpu s) (schedule_ret s) n)"
    by (rule frame_cong [OF fr]) (use assms(4) in \<open>simp_all add: s1 saved_words_def\<close>)
  moreover have "p_esp (mem s2) a = ?E - 64"
    using sp assms(4) load32_cong [of a "mem s2" m] by (simp add: p_esp_def s1)
  moreover obtain m2 where s3: "call_switchTo a s2 = s2\<lparr>mem := m2, current := a, cpu := restore_regs m2 (p_esp m2 a)\<rparr>"
    and same: "\<And>b. b \<notin> span (esp (cpu s2) - 64) 64 \<Longrightarrow> b \<notin> span (current s2) 4 \<Longrightarrow> m2 b = mem s2 b"
    using call_switchTo_effect [of s2 a] assms(6,7) by auto
  moreover have keep: "m2 b = mem s2 b" if "b \<in> span (?E - 64) 64 \<union> span a 4" for b
    using that assms(5,7) by (intro same) blast+
  ultimately have "frame_at m2 (?E - 64) (saved_words (cpu s) (schedule_ret s) n)" "p_esp m2 a = ?E - 64"
    using frame_cong [of "mem s2" "?E - 64" "saved_words (cpu s) (schedule_ret s) n" m2]
      load32_cong [of a m2 "mem s2"] by (simp_all add: saved_words_def p_esp_def)
  then show ?thesis using restore_saved s3 by (simp add: resumed_def)
qed

text \<open>C22: The first switch to a process set up by \<^verbatim>\<open>setup_kernel_process\<close> enters its function
  \<open>proc\<close> with the stack pointer the process was given, interrupts on, the code segment 0x10, the data
  segments 8, the registers eax, ebx, ecx, edx and ebp zero and esi and edi 8, as the frame has them,
  and on top of its stack the address of its \<^verbatim>\<open>process_t\<close>, where a function expects the address to
  return to.\<close>

theorem fresh_process_starts:
  assumes "span p 84 \<inter> span (sp - 60) 64 = {}" "p_esp m p = sp"
    and "\<forall>b \<in> span (sp - 60) 64 \<union> span p 4. mem s b = setup_kernel_process p proc m b"
    and "span (esp (cpu s) - 64) 64 \<inter> (span (sp - 60) 64 \<union> span p 4) = {}"
    and "current s \<noteq> 0" "span (current s) 4 \<inter> (span (esp (cpu s) - 64) 64 \<union> span (sp - 60) 64 \<union> span p 4) = {}"
  shows "current (call_switchTo p s) = p \<and> cpu (call_switchTo p s) = \<lparr>eax = 0, ebx = 0, ecx = 0, edx = 0,
      esi = 8, edi = 8, ebp = 0, esp = sp, eip = proc, cs = 0x10, eflags = 0x202, es = 8, ds = 8, fs = 8, gs = 8\<rparr>
    \<and> load32 (mem (call_switchTo p s)) sp = p"
proof -
  let ?m = "setup_kernel_process p proc m"
  note se = setup_effect [OF assms(1,2), of proc]
  obtain m2 where s2: "call_switchTo p s = s\<lparr>mem := m2, current := p, cpu := restore_regs m2 (p_esp m2 p)\<rparr>"
    and same: "\<And>b. b \<notin> span (esp (cpu s) - 64) 64 \<Longrightarrow> b \<notin> span (current s) 4 \<Longrightarrow> m2 b = mem s b"
    using call_switchTo_effect [of s p] assms(5,6) by auto
  have keep: "m2 b = ?m b" if "b \<in> span (sp - 60) 64 \<union> span p 4" for b
  proof -
    have "m2 b = mem s b" using that assms(4,6) by (intro same) blast+
    then show ?thesis using assms(3) that by simp
  qed
  have "frame_at m2 (sp - 60) (start_words p proc)"
    by (rule frame_cong [OF se(1)]) (use keep in \<open>simp_all add: start_words_def\<close>)
  moreover have "p_esp m2 p = sp - 60"
    using se(2) keep load32_cong [of p m2 ?m] by (simp add: p_esp_def)
  ultimately show ?thesis using restore_start [of m2 "sp - 60" p proc] s2 by (simp add: start_regs_def)
qed

end
