(* ===== verification/Sched.thy ===== *)
theory Sched
  imports Context
begin

text \<open>
  Correctness of the scheduler of \<^verbatim>\<open>process/process.c\<close>. What scheduling depends on is the
  \<open>view\<close> of each process in the list; \<open>procs_wf\<close> says that the list is a ring through processes that
  share no memory. The loops over the list are then functions on views, and \<^verbatim>\<open>schedule\<close> refines
  the abstract scheduler \<open>spec_schedule\<close>, on which fairness and the invariants are proved.
\<close>

section \<open>Processes in memory\<close>

definition local_to :: "u32 \<Rightarrow> bytes \<Rightarrow> bytes \<Rightarrow> bool" where
  "local_to p m m' \<longleftrightarrow> (\<forall>b. b \<notin> span p 84 \<or> b \<in> span (p + 24) 8 \<longrightarrow> m' b = m b)"

definition procs_apart :: "u32 \<Rightarrow> u32 list \<Rightarrow> bool" where
  "procs_apart h pl \<longleftrightarrow> distinct pl \<and> 0 \<notin> set pl
     \<and> (\<forall>p \<in> set pl. span p 84 \<inter> span h 8 = {})
     \<and> (\<forall>p \<in> set pl. \<forall>q \<in> set pl. p \<noteq> q \<longrightarrow> span p 84 \<inter> span q 84 = {})"

definition procs_mem :: "bytes \<Rightarrow> u32 \<Rightarrow> u32 list \<Rightarrow> bool" where
  "procs_mem m h pl \<longleftrightarrow> dlist m h (map p_list pl) \<and> procs_apart h pl"

definition procs_wf :: "'a kernel_scheme \<Rightarrow> u32 list \<Rightarrow> bool" where
  "procs_wf s pl \<longleftrightarrow> procs_mem (mem s) (proc_hd s) pl"

lemma process_of_list [simp]: "process_of (p_list p) = p"
  by (simp add: process_of_def p_list_def)

lemma procs_apart_disjoint:
  "procs_apart h pl \<Longrightarrow> q \<in> set pl \<Longrightarrow> p \<in> set pl \<Longrightarrow> q \<noteq> p \<Longrightarrow> b \<in> span q 84 \<Longrightarrow> b \<notin> span p 84"
  unfolding procs_apart_def by blast

lemma local_refl [simp]: "local_to p m m"
  by (simp add: local_to_def)

lemma local_trans: "local_to p m m1 \<Longrightarrow> local_to p m1 m2 \<Longrightarrow> local_to p m m2"
  by (simp add: local_to_def)

lemma local_field:
  assumes "unat i + n \<le> 84" "unat i + n \<le> 24 \<or> 32 \<le> unat i"
    and out: "\<And>b. b \<notin> span (p + i) n \<Longrightarrow> m' b = m b"
  shows "local_to p m m'"
  unfolding local_to_def
proof (intro allI impI, rule out)
  fix b assume b: "b \<notin> span p 84 \<or> b \<in> span (p + 24) 8"
  show "b \<notin> span (p + i) n"
  proof
    assume bi: "b \<in> span (p + i) n"
    then have "b \<in> span p 84" using span_offset [of b p i n 84] assms(1) by simp
    with b have b8: "unat (b - (p + 24)) < 8" by (simp add: span_iff)
    have "unat (b - (p + i)) < n" using bi by (simp add: span_iff)
    moreover have "unat (b - p) = unat (b - (p + i)) + unat i"
      using unat_plus_small [of "b - (p + i)" i] calculation assms(1) by simp
    moreover have "unat (b - p) = unat (b - (p + 24)) + 24"
      using unat_plus_small [of "b - (p + 24)" 24] b8 by simp
    ultimately show False using assms(2) b8 by linarith
  qed
qed

lemma local_sets:
  "local_to p m (set_p_esp p v m)" "local_to p m (set_p_ss p v m)" "local_to p m (set_p_kstack p v m)"
  "local_to p m (set_p_pid p v m)" "local_to p m (set_p_state p v8 m)" "local_to p m (set_p_ticks p v16 m)"
  "local_to p m (set_p_timeout p v m)" "local_to p m (set_p_parent p v m)" "local_to p m (set_p_tt p v m)"
proof -
  have s8: "b \<notin> span a 1 \<Longrightarrow> store8 m a v8 b = m b" for a b by (auto simp: store8_def span_iff)
  show "local_to p m (set_p_esp p v m)"
    by (rule local_field [of 0 4]) (simp_all add: set_p_defs store32_outside)
  show "local_to p m (set_p_ss p v m)"
    by (rule local_field [of 4 4]) (simp_all add: set_p_defs store32_outside)
  show "local_to p m (set_p_kstack p v m)"
    by (rule local_field [of 8 4]) (simp_all add: set_p_defs store32_outside)
  show "local_to p m (set_p_pid p v m)"
    by (rule local_field [of 20 4]) (simp_all add: set_p_defs store32_outside)
  show "local_to p m (set_p_state p v8 m)"
    by (rule local_field [of 64 1]) (simp_all add: set_p_defs s8)
  show "local_to p m (set_p_ticks p v16 m)"
    by (rule local_field [of 66 2]) (simp_all add: set_p_defs store16_outside)
  show "local_to p m (set_p_timeout p v m)"
    by (rule local_field [of 68 4]) (simp_all add: set_p_defs store32_outside)
  show "local_to p m (set_p_parent p v m)"
    by (rule local_field [of 76 4]) (simp_all add: set_p_defs store32_outside)
  show "local_to p m (set_p_tt p v m)"
    by (rule local_field [of 80 4]) (simp_all add: set_p_defs store32_outside)
qed

lemma procs_mem_local:
  assumes w: "procs_mem m h pl" and p: "p \<in> set pl" and l: "local_to p m m'"
  shows "procs_mem m' h pl"
proof -
  have d: "dlist m h (map p_list pl)" and ap: "procs_apart h pl" using w by (simp_all add: procs_mem_def)
  have "m' b = m b" if "x \<in> set (h # map p_list pl)" "b \<in> span x 8" for x b
  proof (cases "x = h \<or> x = p_list p")
    case True
    then show ?thesis
    proof
      assume "x = h"
      then have "b \<notin> span p 84" using that(2) ap p unfolding procs_apart_def by blast
      then show ?thesis using l by (simp add: local_to_def)
    next
      assume "x = p_list p"
      then show ?thesis using l that(2) by (simp add: local_to_def p_list_def)
    qed
  next
    case False
    have "x \<in> set (map p_list pl)" using that(1) False by simp
    then obtain q where q: "q \<in> set pl" "q \<noteq> p" "x = p_list q" using False by auto
    then have "b \<in> span q 84" using that(2) span_offset [of b q 24 8 84] by (simp add: p_list_def)
    then have "b \<notin> span p 84" by (rule procs_apart_disjoint [OF ap q(1) p q(2)])
    then show ?thesis using l by (simp add: local_to_def)
  qed
  then have "dlist m' h (map p_list pl)" by (rule dlist_frame [OF d])
  then show ?thesis using ap by (simp add: procs_mem_def)
qed

section \<open>Views\<close>

record pview =
  v_state :: u8
  v_ticks :: u16
  v_timeout :: u32
  v_tt :: u32

definition view :: "bytes \<Rightarrow> u32 \<Rightarrow> pview" where
  "view m p = \<lparr>v_state = p_state m p, v_ticks = p_ticks m p, v_timeout = p_timeout m p, v_tt = p_tt m p\<rparr>"

lemma view_cong_tail:
  assumes "\<And>b. b \<in> span (p + 64) 20 \<Longrightarrow> m' b = m b"
  shows "view m' p = view m p"
proof -
  have s: "m' b = m b" if "b \<in> span (p + i) n" "unat (i - 64) + n \<le> 20" for b i n
    using span_offset [of b "p + 64" "i - 64" n 20] that assms by simp
  have "p_state m' p = p_state m p" using s [of "p + 64" 64 1] by (simp add: p_state_def span_iff)
  moreover have "p_ticks m' p = p_ticks m p"
    unfolding p_ticks_def by (rule load16_cong) (use s in simp)
  moreover have "p_timeout m' p = p_timeout m p"
    unfolding p_timeout_def by (rule load32_cong) (use s in simp)
  moreover have "p_tt m' p = p_tt m p"
    unfolding p_tt_def by (rule load32_cong) (use s in simp)
  ultimately show ?thesis by (simp add: view_def)
qed

lemma view_cong:
  assumes "\<And>b. b \<in> span p 84 \<Longrightarrow> m' b = m b"
  shows "view m' p = view m p"
  by (rule view_cong_tail) (use assms span_offset [of _ p 64 20 84] in simp)

lemma view_other:
  assumes "procs_apart h pl" "p \<in> set pl" "q \<in> set pl" "q \<noteq> p" "local_to p m m'"
  shows "view m' q = view m q"
proof (rule view_cong)
  fix b assume "b \<in> span q 84"
  then show "m' b = m b"
    using procs_apart_disjoint [OF assms(1,3,2,4)] assms(5) by (simp add: local_to_def)
qed

lemma view_sets [simp]:
  "view (set_p_state p v8 m) p = (view m p)\<lparr>v_state := v8\<rparr>"
  "view (set_p_ticks p v16 m) p = (view m p)\<lparr>v_ticks := v16\<rparr>"
  "view (set_p_timeout p v m) p = (view m p)\<lparr>v_timeout := v\<rparr>"
  "view (set_p_tt p v m) p = (view m p)\<lparr>v_tt := v\<rparr>"
  by (simp_all add: view_def p_field_defs set_p_defs mem_frame apart_def)

lemma view_sels:
  "v_state (view m p) = p_state m p" "v_ticks (view m p) = p_ticks m p"
  "v_timeout (view m p) = p_timeout m p" "v_tt (view m p) = p_tt m p"
  by (simp_all add: view_def)

section \<open>Loops over the process list\<close>

text \<open>A change to one process, and what it does to the view of that process.\<close>

definition acts :: "(u32 \<Rightarrow> bytes \<Rightarrow> bytes) \<Rightarrow> (pview \<Rightarrow> pview) \<Rightarrow> bool" where
  "acts f F \<longleftrightarrow> (\<forall>p m. local_to p m (f p m) \<and> view (f p m) p = F (view m p))"

lemma actsD: "acts f F \<Longrightarrow> local_to p m (f p m)" "acts f F \<Longrightarrow> view (f p m) p = F (view m p)"
  by (simp_all add: acts_def)

lemma acts_compose: "acts f F \<Longrightarrow> acts g G \<Longrightarrow> acts (\<lambda>p m. g p (f p m)) (\<lambda>v. G (F v))"
  unfolding acts_def by (metis local_trans)

lemma acts_if:
  assumes "\<And>p m. P m p = Q (view m p)" "acts f F"
  shows "acts (\<lambda>p m. if P m p then f p m else m) (\<lambda>v. if Q v then F v else v)"
  using assms by (simp add: acts_def)

lemma fold_acts_all:
  assumes "acts f F" "set qs \<subseteq> set pl" "distinct qs" "procs_mem m h pl"
  shows "procs_mem (fold f qs m) h pl
    \<and> (\<forall>q \<in> set pl. view (fold f qs m) q = (if q \<in> set qs then F (view m q) else view m q))
    \<and> (\<forall>b. (\<forall>p \<in> set qs. b \<notin> span p 84) \<longrightarrow> fold f qs m b = m b)"
  using assms(2-4)
proof (induction qs arbitrary: m)
  case (Cons p qs)
  have p: "p \<in> set pl" "p \<notin> set qs" "set qs \<subseteq> set pl" "distinct qs" using Cons.prems by auto
  note a = actsD [OF assms(1), of p m]
  have pm: "procs_mem (f p m) h pl" using procs_mem_local [OF Cons.prems(3) p(1) a(1)] .
  have ap: "procs_apart h pl" using pm by (simp add: procs_mem_def)
  note IH = Cons.IH [OF p(3,4) pm]
  have "view (fold f (p # qs) m) q = (if q \<in> set (p # qs) then F (view m q) else view m q)"
    if "q \<in> set pl" for q
  proof (cases "q = p")
    case True
    then show ?thesis using IH p a(2) by simp
  next
    case False
    then show ?thesis using IH that view_other [OF ap p(1) that False a(1)] by simp
  qed
  moreover have "fold f (p # qs) m b = m b" if "\<forall>x \<in> set (p # qs). b \<notin> span x 84" for b
  proof -
    have "f p m b = m b" using that a(1) by (simp add: local_to_def)
    then show ?thesis using IH that by simp
  qed
  ultimately show ?case using IH by simp
qed simp

lemma fold_acts:
  assumes "acts f F" "procs_mem m h pl"
  shows "procs_mem (fold f pl m) h pl"
    and "q \<in> set pl \<Longrightarrow> view (fold f pl m) q = F (view m q)"
    and "(\<And>p. p \<in> set pl \<Longrightarrow> b \<notin> span p 84) \<Longrightarrow> fold f pl m b = m b"
proof -
  have "distinct pl" using assms(2) by (simp add: procs_mem_def procs_apart_def)
  note fa = fold_acts_all [OF assms(1) subset_refl this assms(2)]
  show "procs_mem (fold f pl m) h pl" "q \<in> set pl \<Longrightarrow> view (fold f pl m) q = F (view m q)"
    "(\<And>p. p \<in> set pl \<Longrightarrow> b \<notin> span p 84) \<Longrightarrow> fold f pl m b = m b"
    using fa by simp_all
qed

lemma for_each_acts:
  assumes "acts f F" "procs_wf s pl"
  shows "list_for_each mem (proc_hd s)
      (\<lambda>this s. Some (s\<lparr>mem := f (process_of this) (mem s)\<rparr>, False)) (list_next (mem s) (proc_hd s)) s
    = Some (s\<lparr>mem := fold f pl (mem s)\<rparr>)"
proof -
  let ?body = "\<lambda>this (s :: 'a kernel_scheme). Some (s\<lparr>mem := f (process_of this) (mem s)\<rparr>, False)"
  have "list_for_each mem (proc_hd s) ?body (list_next (mem s) (proc_hd s)) s
      = run_body ?body (map p_list pl) s"
  proof (rule for_each_run [where P = "\<lambda>t. procs_mem (mem t) (proc_hd s) pl"])
    fix x :: u32 and t t' :: "'a kernel_scheme"
    assume "x \<in> set (map p_list pl)" and t: "procs_mem (mem t) (proc_hd s) pl"
      and b: "Some (t\<lparr>mem := f (process_of x) (mem t)\<rparr>, False) = Some (t', False)"
    then obtain p where "p \<in> set pl" "x = p_list p" by auto
    with b show "procs_mem (mem t') (proc_hd s) pl"
      using procs_mem_local [OF t _ actsD(1) [OF assms(1)]] by auto
  qed (use assms(2) in \<open>simp_all add: procs_wf_def procs_mem_def\<close>)
  also have "\<dots> = Some (s\<lparr>mem := fold f pl (mem s)\<rparr>)"
    by (induction pl arbitrary: s) simp_all
  finally show ?thesis .
qed

section \<open>What the loops do to a view\<close>

definition tick :: "pview \<Rightarrow> pview" where
  "tick v = (if v_state v = PROC_SLEEPING
     then let v = v\<lparr>v_timeout := v_timeout v - 1\<rparr>
          in if v_timeout v = 0 then v\<lparr>v_state := PROC_READY\<rparr> else v
     else v)"

definition refill :: "pview \<Rightarrow> pview" where
  "refill v = v\<lparr>v_ticks := 100\<rparr>"

definition account :: "pview \<Rightarrow> pview" where
  "account v = (if v_ticks v > 0 then v\<lparr>v_ticks := v_ticks v - 1, v_tt := v_tt v + 1\<rparr> else v)"

definition eligible :: "pview \<Rightarrow> bool" where
  "eligible v \<longleftrightarrow> v_state v = PROC_READY \<and> v_ticks v > 0"

lemma acts_update_timeout: "acts update_timeout tick"
proof -
  have "local_to p m (update_timeout p m)" for p m
    using local_sets(7) local_trans [OF local_sets(7) local_sets(5)]
    by (simp add: update_timeout_def Let_def)
  moreover have "view (update_timeout p m) p = tick (view m p)" for p m
    by (simp add: update_timeout_def tick_def Let_def flip: view_sels)
  ultimately show ?thesis by (simp add: acts_def)
qed

lemma acts_refill: "acts (\<lambda>p. set_p_ticks p 100) refill"
  by (simp add: acts_def local_sets refill_def)

lemma acts_account: "acts account_ticks account"
proof -
  have "local_to p m (account_ticks p m)" for p m
    using local_trans [OF local_sets(6) local_sets(9)] by (simp add: account_ticks_def Let_def)
  moreover have "view (account_ticks p m) p = account (view m p)" for p m
    by (simp add: account_ticks_def account_def Let_def flip: view_sels)
  ultimately show ?thesis by (simp add: acts_def)
qed

lemma acts_state: "acts (\<lambda>p. set_p_state p st) (\<lambda>v. v\<lparr>v_state := st\<rparr>)"
  by (simp add: acts_def local_sets)

lemma update_timeouts_eq:
  "procs_wf s pl \<Longrightarrow> update_timeouts s = Some (s\<lparr>mem := fold update_timeout pl (mem s)\<rparr>)"
  unfolding update_timeouts_def by (rule for_each_acts [OF acts_update_timeout])

lemma give_ticks_eq:
  "procs_wf s pl \<Longrightarrow> give_ticks s = Some (s\<lparr>mem := fold (\<lambda>p. set_p_ticks p 100) pl (mem s)\<rparr>)"
  unfolding give_ticks_def by (rule for_each_acts [OF acts_refill])

section \<open>Selection\<close>

lemma find_ready_eq:
  assumes "procs_wf s pl"
  shows "find_ready s = Some (case find (\<lambda>p. eligible (view (mem s) p)) pl of Some p \<Rightarrow> p | None \<Rightarrow> 0, s)"
proof -
  let ?body = "\<lambda>this (selected :: u32, s :: 'a kernel_scheme).
      let ptr = process_of this
      in if p_state (mem s) ptr = PROC_READY \<and> p_ticks (mem s) ptr > 0
         then Some ((ptr, s), True) else Some ((0, s), False)"
  let ?memory = "\<lambda>(_ :: u32, s :: 'a kernel_scheme). mem s"
  have "list_for_each ?memory (proc_hd s) ?body (list_next (?memory (0, s)) (proc_hd s)) (0, s)
      = run_body ?body (map p_list pl) (0, s)"
    by (rule for_each_run [where P = "\<lambda>(_, t). t = s"])
      (use assms in \<open>auto simp: procs_wf_def procs_mem_def Let_def split: if_splits\<close>)
  moreover have "run_body ?body (map p_list pl) (0, s) =
      Some (case find (\<lambda>p. eligible (view (mem s) p)) pl of Some p \<Rightarrow> p | None \<Rightarrow> 0, s)"
    by (induction pl) (simp_all add: eligible_def view_sels Let_def)
  ultimately show ?thesis by (simp add: find_ready_def)
qed

lemma eligible_refill [simp]: "eligible (refill v) \<longleftrightarrow> v_state v = PROC_READY"
  by (simp add: eligible_def refill_def)

text \<open>The abstract selection: the first eligible process, after a refill when there is none.\<close>

definition spec_select :: "u32 list \<Rightarrow> (u32 \<Rightarrow> pview) \<Rightarrow> (u32 \<times> (u32 \<Rightarrow> pview)) option" where
  "spec_select order V =
     (case find (\<lambda>p. eligible (V p)) order of
        Some p \<Rightarrow> Some (p, V)
      | None \<Rightarrow> map_option (\<lambda>p. (p, refill \<circ> V)) (find (\<lambda>p. v_state (V p) = PROC_READY) order))"

lemma select_none:
  assumes "select_next_process s = Some r" "procs_wf s pl" "\<And>p. p \<in> set pl \<Longrightarrow> v_state (view (mem s) p) \<noteq> PROC_READY"
  shows False
proof -
  let ?P = "\<lambda>s (_ :: u32 \<times> 'a kernel_scheme).
      \<not> (procs_wf s pl \<and> (\<forall>p \<in> set pl. v_state (view (mem s) p) \<noteq> PROC_READY))"
  have "?P s r"
  proof (rule select_next_process.raw_induct [of ?P, OF _ assms(1)])
    fix select :: "'a kernel_scheme \<Rightarrow> (u32 \<times> 'a kernel_scheme) option" and s r
    assume IH: "\<And>s r. select s = Some r \<Longrightarrow> ?P s r"
      and st: "find_ready s \<bind> (\<lambda>(selected, s).
          if selected = 0 then give_ticks s \<bind> (\<lambda>s. select s) else Some (selected, s)) = Some r"
    show "?P s r"
    proof
      assume h: "procs_wf s pl \<and> (\<forall>p \<in> set pl. v_state (view (mem s) p) \<noteq> PROC_READY)"
      let ?m = "fold (\<lambda>p. set_p_ticks p 100) pl (mem s)"
      have wf: "procs_wf s pl" and pm: "procs_mem (mem s) (proc_hd s) pl" using h by (simp_all add: procs_wf_def)
      have "find (\<lambda>p. eligible (view (mem s) p)) pl = None"
        using h by (auto simp: find_None_iff eligible_def)
      then have "select (s\<lparr>mem := ?m\<rparr>) = Some r"
        using st by (simp add: find_ready_eq [OF wf] give_ticks_eq [OF wf])
      from IH [OF this] show False
        using fold_acts(1,2) [OF acts_refill pm] h by (auto simp: procs_wf_def refill_def)
    qed
  qed
  with assms(2,3) show False by blast
qed

lemma select_next_process_eq:
  assumes wf: "procs_wf s pl"
  shows "case spec_select pl (view (mem s)) of
      None \<Rightarrow> select_next_process s = None
    | Some (p, V) \<Rightarrow> p \<in> set pl \<and> p \<noteq> 0 \<and> v_state (V p) = PROC_READY \<and> (\<exists>m.
        select_next_process s = Some (p, s\<lparr>mem := m\<rparr>)
        \<and> procs_mem m (proc_hd s) pl \<and> (\<forall>q \<in> set pl. view m q = V q)
        \<and> (\<forall>b. (\<forall>q \<in> set pl. b \<notin> span q 84) \<longrightarrow> m b = mem s b))"
proof (cases "find (\<lambda>p. eligible (view (mem s) p)) pl")
  case (Some p)
  then have p: "p \<in> set pl" "eligible (view (mem s) p)" by (auto simp: find_Some_iff)
  then have "p \<noteq> 0" using wf by (auto simp: procs_wf_def procs_mem_def procs_apart_def)
  then have "select_next_process s = Some (p, s\<lparr>mem := mem s\<rparr>)"
    using Some by (simp add: select_next_process.simps find_ready_eq [OF wf])
  then show ?thesis
    using p \<open>p \<noteq> 0\<close> Some wf by (auto simp: spec_select_def eligible_def procs_wf_def intro!: exI [of _ "mem s"])
next
  case None
  let ?m = "fold (\<lambda>p. set_p_ticks p 100) pl (mem s)"
  have pm: "procs_mem (mem s) (proc_hd s) pl" using wf by (simp add: procs_wf_def)
  note fa = fold_acts [OF acts_refill pm]
  have wf': "procs_wf (s\<lparr>mem := ?m\<rparr>) pl" using fa(1) by (simp add: procs_wf_def)
  have step: "select_next_process s = select_next_process (s\<lparr>mem := ?m\<rparr>)"
    using None by (subst select_next_process.simps) (simp add: find_ready_eq [OF wf] give_ticks_eq [OF wf])
  have el: "find (\<lambda>p. eligible (view ?m p)) pl = find (\<lambda>p. v_state (view (mem s) p) = PROC_READY) pl"
    using fa(2) by (intro find_cong [OF refl]) simp
  show ?thesis
  proof (cases "find (\<lambda>p. v_state (view (mem s) p) = PROC_READY) pl")
    case None': None
    then have "\<And>p. p \<in> set pl \<Longrightarrow> v_state (view (mem s) p) \<noteq> PROC_READY" by (simp add: find_None_iff)
    from select_none [OF _ wf this] have "select_next_process s = None"
      by (cases "select_next_process s") auto
    then show ?thesis using None None' by (simp add: spec_select_def)
  next
    case (Some p)
    then have p: "p \<in> set pl" "v_state (view (mem s) p) = PROC_READY" by (auto simp: find_Some_iff)
    then have "p \<noteq> 0" using wf by (auto simp: procs_wf_def procs_mem_def procs_apart_def)
    then have "select_next_process s = Some (p, s\<lparr>mem := ?m\<rparr>)"
      using Some el unfolding step by (simp add: select_next_process.simps find_ready_eq [OF wf'])
    then show ?thesis
      using p \<open>p \<noteq> 0\<close> None Some fa
      by (auto simp: spec_select_def refill_def comp_def intro!: exI [of _ ?m])
  qed
qed

section \<open>The abstract scheduler\<close>

text \<open>
  One call of \<^verbatim>\<open>schedule\<close> with preemption on: sleepers advance; a current process with ticks left
  spends one and stays; else it is made ready and the selected process runs and spends a tick. The
  result says whether the CPU was switched, to which process, and the views after it.
\<close>

definition demote :: "(u32 \<Rightarrow> pview) \<Rightarrow> u32 \<Rightarrow> u32 \<Rightarrow> pview" where
  "demote V cur = (if v_state (V cur) = PROC_RUNNING then V(cur := (V cur)\<lparr>v_state := PROC_READY\<rparr>) else V)"

definition spec_schedule ::
  "u32 list \<Rightarrow> (u32 \<Rightarrow> pview) \<Rightarrow> u32 \<Rightarrow> (bool \<times> u32 \<times> (u32 \<Rightarrow> pview)) option" where
  "spec_schedule order V cur =
     (let V = tick \<circ> V
      in if v_ticks (V cur) \<noteq> 0 then Some (False, cur, V(cur := account (V cur)))
         else map_option (\<lambda>(n, V). (True, n, V(n := account ((V n)\<lparr>v_state := PROC_RUNNING\<rparr>))))
                (spec_select order (demote V cur)))"

lemma spec_schedule_stay:
  "v_ticks (tick (V cur)) \<noteq> 0 \<Longrightarrow>
    spec_schedule order V cur = Some (False, cur, (tick \<circ> V)(cur := account (tick (V cur))))"
  by (simp add: spec_schedule_def Let_def)

lemma spec_schedule_switch:
  "v_ticks (tick (V cur)) = 0 \<Longrightarrow> spec_schedule order V cur =
    map_option (\<lambda>(n, V). (True, n, V(n := account ((V n)\<lparr>v_state := PROC_RUNNING\<rparr>))))
      (spec_select order (demote (tick \<circ> V) cur))"
  by (simp add: spec_schedule_def Let_def)

lemma spec_select_cong:
  assumes "\<And>p. p \<in> set order \<Longrightarrow> V p = V' p"
  shows "case spec_select order V of
      None \<Rightarrow> spec_select order V' = None
    | Some (n, W) \<Rightarrow> \<exists>W'. spec_select order V' = Some (n, W') \<and> (\<forall>p \<in> set order. W p = W' p)"
proof -
  have "find (\<lambda>p. eligible (V p)) order = find (\<lambda>p. eligible (V' p)) order"
    "find (\<lambda>p. v_state (V p) = PROC_READY) order = find (\<lambda>p. v_state (V' p) = PROC_READY) order"
    using assms by (auto intro!: find_cong)
  then show ?thesis using assms by (auto simp: spec_select_def split: option.splits)
qed

text \<open>The stack in use lies outside the process structures and the head of the list.\<close>

definition stack_clear :: "'a kernel_scheme \<Rightarrow> u32 list \<Rightarrow> bool" where
  "stack_clear s pl \<longleftrightarrow>
     (\<forall>p \<in> set pl. span p 84 \<inter> span (esp (cpu s) - 64) 64 = {})
     \<and> span (proc_hd s) 8 \<inter> span (esp (cpu s) - 64) 64 = {}"

lemma procs_mem_cong:
  assumes "procs_mem m h pl" "\<And>b. b \<in> span h 8 \<Longrightarrow> m' b = m b"
    and "\<And>p b. p \<in> set pl \<Longrightarrow> b \<in> span (p + 24) 8 \<Longrightarrow> m' b = m b"
  shows "procs_mem m' h pl"
proof -
  have d: "dlist m h (map p_list pl)" using assms(1) by (simp add: procs_mem_def)
  have "dlist m' h (map p_list pl)"
    by (rule dlist_frame [OF d]) (use assms(2,3) in \<open>auto simp: p_list_def\<close>)
  then show ?thesis using assms(1) by (simp add: procs_mem_def)
qed

text \<open>What a call of the scheduler leaves alone: memory outside the process structures and the part of
  the stack it saves the context on, and the scheduler's own variables but the current process.\<close>

definition sched_frame :: "u32 list \<Rightarrow> 'a kernel_scheme \<Rightarrow> 'a kernel_scheme \<Rightarrow> bool" where
  "sched_frame pl s s' \<longleftrightarrow>
     (\<forall>b. (\<forall>p \<in> set pl. b \<notin> span p 84) \<longrightarrow> b \<notin> span (esp (cpu s) - 64) 64 \<longrightarrow> mem s' b = mem s b)
     \<and> kernel_preempt s' = kernel_preempt s \<and> proc_hd s' = proc_hd s \<and> pcount s' = pcount s"

lemma local_off:
  "local_to p m m' \<Longrightarrow> p \<in> set pl \<Longrightarrow> \<forall>q \<in> set pl. b \<notin> span q 84 \<Longrightarrow> m' b = m b"
  by (simp add: local_to_def)

lemma call_switchTo_procs:
  assumes wf: "procs_wf s pl" and cur: "current s \<in> set pl" and st: "stack_clear s pl"
  shows "procs_wf (call_switchTo n s) pl \<and> current (call_switchTo n s) = n
    \<and> ports (call_switchTo n s) = ports s \<and> sched_frame pl s (call_switchTo n s)
    \<and> (\<forall>p \<in> set pl. view (mem (call_switchTo n s)) p = view (mem s) p)"
proof -
  let ?c = "current s" and ?S = "span (esp (cpu s) - 64) 64"
  have ap: "procs_apart (proc_hd s) pl" and pm: "procs_mem (mem s) (proc_hd s) pl"
    using wf by (simp_all add: procs_wf_def procs_mem_def)
  have c4: "b \<in> span ?c 84" if "b \<in> span ?c 4" for b using span_mono that by simp
  have "span ?c 4 \<inter> ?S = {}" using st cur c4 unfolding stack_clear_def by blast
  then obtain m where s1: "call_switchTo n s = s\<lparr>mem := m, current := n, cpu := restore_regs m (p_esp m n)\<rparr>"
    and same: "\<And>b. b \<notin> ?S \<Longrightarrow> b \<notin> span ?c 4 \<Longrightarrow> m b = mem s b"
    using call_switchTo_effect [of s n] by auto
  have sub: "m b = mem s b" if p: "p \<in> set pl" and b: "b \<in> span (p + i) k" "unat i + k \<le> 84" "4 \<le> unat i" for p b i k
  proof (rule same)
    have b84: "b \<in> span p 84" using span_offset [OF b(1,2)] by simp
    then show "b \<notin> ?S" using st p unfolding stack_clear_def by blast
    show "b \<notin> span ?c 4"
    proof (cases "p = ?c")
      case True
      then show ?thesis using span_after [OF b(1)] b(2,3) span_mono [of b p 4 "unat i"] by auto
    next
      case False
      then show ?thesis using procs_apart_disjoint [OF ap p cur False b84] c4 by blast
    qed
  qed
  have "m b = mem s b" if "b \<in> span (proc_hd s) 8" for b
  proof (rule same)
    show "b \<notin> ?S" using st that unfolding stack_clear_def by blast
    show "b \<notin> span ?c 4" using ap cur that c4 unfolding procs_apart_def by blast
  qed
  then have "procs_mem m (proc_hd s) pl"
    by (rule procs_mem_cong [OF pm]) (use sub [of _ _ 24 8] in simp_all)
  moreover have "view m p = view (mem s) p" if "p \<in> set pl" for p
    by (rule view_cong_tail) (use sub [OF that, of _ 64 20] in simp)
  moreover have "m b = mem s b" if "\<forall>p \<in> set pl. b \<notin> span p 84" "b \<notin> ?S" for b
    using that cur c4 by (intro same) blast+
  ultimately show ?thesis using s1 by (simp add: procs_wf_def sched_frame_def)
qed

lemma acts_upd:
  assumes "acts f F" "procs_mem m h pl" "p \<in> set pl" "\<And>q. q \<in> set pl \<Longrightarrow> view m q = V q"
  shows "procs_mem (f p m) h pl" "q \<in> set pl \<Longrightarrow> view (f p m) q = (V(p := F (V p))) q"
proof -
  note a = actsD [OF assms(1), of p m]
  show "procs_mem (f p m) h pl" using procs_mem_local [OF assms(2,3) a(1)] .
  have ap: "procs_apart h pl" using assms(2) by (simp add: procs_mem_def)
  show "view (f p m) q = (V(p := F (V p))) q" if "q \<in> set pl"
    using view_other [OF ap assms(3) that _ a(1)] a(2) assms(3,4) that by (cases "q = p") simp_all
qed

lemma schedule_effect:
  assumes wf: "procs_wf s pl" and cur: "current s \<in> set pl" and st: "stack_clear s pl"
    and on: "is_kernel_preempt s \<noteq> 0" "pcount s \<noteq> 0"
  shows "case spec_schedule pl (view (mem s)) (current s) of
      None \<Rightarrow> schedule s = None
    | Some (sw, n, V) \<Rightarrow> \<exists>s'. schedule s = Some (sw, s') \<and> procs_wf s' pl \<and> current s' = n
        \<and> n \<in> set pl \<and> (\<forall>p \<in> set pl. view (mem s') p = V p)
        \<and> ports s' = ports s @ (if sw then [(0x20, 0x20)] else [])
        \<and> sched_frame pl s s'"
proof -
  let ?c = "current s" and ?h = "proc_hd s"
  have c0: "?c \<noteq> 0" using wf cur by (auto simp: procs_wf_def procs_mem_def procs_apart_def)
  define ma where "ma = fold update_timeout pl (mem s)"
  define Va where "Va = tick \<circ> view (mem s)"
  have pm: "procs_mem (mem s) ?h pl" using wf by (simp add: procs_wf_def)
  have pa: "procs_mem ma ?h pl" and va: "\<And>p. p \<in> set pl \<Longrightarrow> view ma p = Va p"
    using fold_acts [OF acts_update_timeout pm] by (simp_all add: ma_def Va_def)
  have fa: "ma b = mem s b" if "\<forall>p \<in> set pl. b \<notin> span p 84" for b
    unfolding ma_def by (rule fold_acts(3) [OF acts_update_timeout pm]) (use that in blast)
  have ta: "p_ticks ma ?c = v_ticks (Va ?c)" "p_state ma ?c = v_state (Va ?c)"
    using va [OF cur] by (simp_all flip: view_sels)
  show ?thesis
  proof (cases "v_ticks (Va ?c) = 0")
    case False
    have "schedule s = Some (False, s\<lparr>mem := account_ticks ?c ma\<rparr>)"
      using on False c0 ta by (simp add: schedule_def update_timeouts_eq [OF wf] flip: ma_def)
    moreover have "spec_schedule pl (view (mem s)) ?c = Some (False, ?c, Va(?c := account (Va ?c)))"
      using False by (simp add: spec_schedule_def Let_def flip: Va_def)
    moreover have "sched_frame pl s (s\<lparr>mem := account_ticks ?c ma\<rparr>)"
      using local_off [OF actsD(1) [OF acts_account] cur] fa by (simp add: sched_frame_def)
    ultimately show ?thesis
      using acts_upd [OF acts_account pa cur va] cur by (simp add: procs_wf_def)
  next
    case True
    define mb where "mb = (if v_state (Va ?c) = PROC_RUNNING then set_p_state ?c PROC_READY ma else ma)"
    define Vb where "Vb = demote Va ?c"
    have pb: "procs_mem mb ?h pl" and vb: "\<And>p. p \<in> set pl \<Longrightarrow> view mb p = Vb p"
      using pa va acts_upd [OF acts_state [of PROC_READY] pa cur va] by (simp_all add: mb_def Vb_def demote_def)
    have fb: "mb b = mem s b" if "\<forall>p \<in> set pl. b \<notin> span p 84" for b
      using local_off [OF local_sets(5) cur that] fa [OF that] by (simp add: mb_def)
    have wb: "procs_wf (s\<lparr>mem := mb\<rparr>) pl" using pb by (simp add: procs_wf_def)
    have sch: "schedule s = do {
        (n, s) \<leftarrow> select_next_process (s\<lparr>mem := mb\<rparr>);
        let s = s\<lparr>mem := set_p_state n PROC_RUNNING (mem s)\<rparr>;
        let s = outportb 0x20 0x20 s;
        let s = s\<lparr>mem := account_ticks n (mem s)\<rparr>;
        Some (True, call_switchTo n s) }"
      using on True c0 ta
      by (simp add: schedule_def update_timeouts_eq [OF wf] mb_def flip: ma_def)
    have spec: "spec_schedule pl (view (mem s)) ?c = map_option (\<lambda>(n, V).
        (True, n, V(n := account ((V n)\<lparr>v_state := PROC_RUNNING\<rparr>)))) (spec_select pl Vb)"
      using True by (simp add: spec_schedule_def Let_def Vb_def flip: Va_def)
    note sel = select_next_process_eq [OF wb] and cong = spec_select_cong [of pl "view mb" Vb, OF vb]
    show ?thesis
    proof (cases "spec_select pl (view mb)")
      case None
      then show ?thesis using sel cong by (simp add: sch spec)
    next
      case (Some r)
      obtain n W where r: "r = (n, W)" by fastforce
      obtain W' where W': "spec_select pl Vb = Some (n, W')" "\<And>p. p \<in> set pl \<Longrightarrow> W p = W' p"
        using cong Some r by auto
      from sel Some r obtain mc where n: "n \<in> set pl" and
        mc: "select_next_process (s\<lparr>mem := mb\<rparr>) = Some (n, s\<lparr>mem := mc\<rparr>)"
        and pc: "procs_mem mc ?h pl" and vc: "\<And>p. p \<in> set pl \<Longrightarrow> view mc p = W' p"
        and fc: "\<And>b. \<forall>p \<in> set pl. b \<notin> span p 84 \<Longrightarrow> mc b = mb b"
        using W'(2) by auto
      note ac = acts_upd [OF acts_state [of PROC_RUNNING] pc n vc]
      note ad = acts_upd [OF acts_account ac(1) n ac(2)]
      let ?md = "account_ticks n (set_p_state n PROC_RUNNING mc)"
      let ?s = "(outportb 0x20 0x20 (s\<lparr>mem := set_p_state n PROC_RUNNING mc\<rparr>))\<lparr>mem := ?md\<rparr>"
      have "procs_wf ?s pl" "current ?s \<in> set pl" "stack_clear ?s pl"
        using ad(1) cur st by (simp_all add: procs_wf_def stack_clear_def outportb_def)
      note cs = call_switchTo_procs [OF this, of n]
      have fd: "?md b = mem s b" if "\<forall>p \<in> set pl. b \<notin> span p 84" for b
        using local_off [OF actsD(1) [OF acts_account] n that] local_off [OF local_sets(5) n that] fc [OF that] fb [OF that]
        by simp
      have "sched_frame pl s (call_switchTo n ?s)"
        using cs fd by (simp add: sched_frame_def outportb_def)
      moreover from cs
      have "procs_wf (call_switchTo n ?s) pl" "current (call_switchTo n ?s) = n"
        "ports (call_switchTo n ?s) = ports s @ [(0x20, 0x20)]"
        "\<forall>p \<in> set pl. view (mem (call_switchTo n ?s)) p = (W'(n := account ((W' n)\<lparr>v_state := PROC_RUNNING\<rparr>))) p"
        using ad(2) by (auto simp: outportb_def)
      moreover have "schedule s = Some (True, call_switchTo n ?s)" using mc by (simp add: sch outportb_def)
      ultimately show ?thesis using n W'(1) by (simp add: spec)
    qed
  qed
qed

text \<open>C13: \<^verbatim>\<open>schedule\<close>, with preemption on, implements the abstract scheduler: it returns if and
  only if the abstract scheduler selects a process, switches exactly when that does and to the same
  process, leaves every process of the list with the state, ticks, timeout and total ticks it
  prescribes, keeps the process list well formed, and acknowledges the interrupt when it switches.\<close>

theorem schedule_refines:
  assumes wf: "procs_wf s pl" and cur: "current s \<in> set pl" and st: "stack_clear s pl"
    and on: "is_kernel_preempt s \<noteq> 0" "pcount s \<noteq> 0"
  shows "case spec_schedule pl (view (mem s)) (current s) of
      None \<Rightarrow> schedule s = None
    | Some (sw, n, V) \<Rightarrow> \<exists>s'. schedule s = Some (sw, s') \<and> procs_wf s' pl \<and> current s' = n
        \<and> n \<in> set pl \<and> (\<forall>p \<in> set pl. view (mem s') p = V p)
        \<and> ports s' = ports s @ (if sw then [(0x20, 0x20)] else [])"
  using schedule_effect [OF assms] by (auto split: option.splits)

lemma proc_states_differ [simp]:
  "PROC_READY \<noteq> PROC_RUNNING" "PROC_RUNNING \<noteq> PROC_READY" "PROC_SLEEPING \<noteq> PROC_RUNNING"
  "PROC_RUNNING \<noteq> PROC_SLEEPING" "PROC_READY \<noteq> PROC_SLEEPING" "PROC_SLEEPING \<noteq> PROC_READY"
  by (simp_all add: proc_state_defs)

lemma tick_simps [simp]:
  "v_state (tick v) = PROC_RUNNING \<longleftrightarrow> v_state v = PROC_RUNNING"
  "v_ticks (tick v) = v_ticks v" "v_tt (tick v) = v_tt v"
  "eligible v \<Longrightarrow> eligible (tick v)"
  by (auto simp: tick_def Let_def eligible_def)

lemma account_simps [simp]:
  "v_state (account v) = v_state v" "v_timeout (account v) = v_timeout v"
  by (simp_all add: account_def)

lemma account_ticks_dec: "v_ticks v \<noteq> 0 \<Longrightarrow> unat (v_ticks v) = Suc (unat (v_ticks (account v)))"
proof -
  assume nz: "v_ticks v \<noteq> 0"
  then have "0 < unat (v_ticks v)" by (simp add: unat_gt_0)
  then have "unat (v_ticks v - 1) = unat (v_ticks v) - 1"
    by (simp add: unat_minus_one nz)
  with nz \<open>0 < unat (v_ticks v)\<close> show ?thesis by (simp add: account_def word_gt_0)
qed

lemma spec_select_result:
  assumes "spec_select order V = Some (n, W)"
  shows "n \<in> set order" "v_state (V n) = PROC_READY" "v_ticks (W n) \<noteq> 0"
    "\<And>p. v_state (W p) = v_state (V p)" "(\<exists>p \<in> set order. eligible (V p)) \<Longrightarrow> W = V"
proof -
  show "n \<in> set order" "v_state (V n) = PROC_READY" "v_ticks (W n) \<noteq> 0" "\<And>p. v_state (W p) = v_state (V p)"
    using assms by (auto simp: spec_select_def find_Some_iff eligible_def refill_def split: option.splits)
  show "W = V" if "\<exists>p \<in> set order. eligible (V p)"
    using assms that by (auto simp: spec_select_def find_None_iff split: option.splits)
qed

section \<open>Going to sleep\<close>

lemma tick_sleeping:
  "v_state v = PROC_SLEEPING \<Longrightarrow> v_timeout v - 1 \<noteq> 0 \<Longrightarrow> tick v = v\<lparr>v_timeout := v_timeout v - 1\<rparr>"
  "v_state v = PROC_SLEEPING \<Longrightarrow> v_timeout v = 1 \<Longrightarrow> tick v = v\<lparr>v_state := PROC_READY, v_timeout := 0\<rparr>"
  by (simp_all add: tick_def Let_def)

lemma spec_schedule_cong:
  assumes "\<And>p. p \<in> set order \<Longrightarrow> V p = V' p" "cur \<in> set order"
  shows "case spec_schedule order V cur of
      None \<Rightarrow> spec_schedule order V' cur = None
    | Some (sw, n, W) \<Rightarrow> \<exists>W'. spec_schedule order V' cur = Some (sw, n, W') \<and> (\<forall>p \<in> set order. W p = W' p)"
proof (cases "v_ticks (tick (V cur)) = 0")
  case False
  then have "v_ticks (tick (V' cur)) \<noteq> 0" using assms by simp
  then show ?thesis using spec_schedule_stay [of V cur order, OF False] spec_schedule_stay [of V' cur order] assms by auto
next
  case True
  then have True': "v_ticks (tick (V' cur)) = 0" using assms by simp
  have "demote (tick \<circ> V) cur p = demote (tick \<circ> V') cur p" if "p \<in> set order" for p
    using assms(1) [OF that] assms(1) [OF assms(2)] by (simp add: demote_def)
  note c = spec_select_cong [of order "demote (tick \<circ> V) cur" "demote (tick \<circ> V') cur", OF this]
  then show ?thesis
    unfolding spec_schedule_switch [of V cur order, OF True] spec_schedule_switch [of V' cur order, OF True']
    by (cases "spec_select order (demote (tick \<circ> V) cur)") auto
qed

lemma process_sleep_effect:
  assumes wf: "procs_wf s pl" and cur: "current s \<in> set pl" and st: "stack_clear s pl"
    and on: "is_kernel_preempt s \<noteq> 0" "pcount s \<noteq> 0"
  shows "case spec_schedule pl ((view (mem s))(current s := (view (mem s) (current s))\<lparr>
        v_state := PROC_SLEEPING, v_ticks := 0, v_timeout := n\<rparr>)) (current s) of
      None \<Rightarrow> process_sleep n s = None
    | Some (sw, k, V) \<Rightarrow> sw \<and> (\<exists>s'. process_sleep n s = Some (True, s') \<and> procs_wf s' pl
        \<and> current s' = k \<and> k \<in> set pl \<and> (\<forall>p \<in> set pl. view (mem s') p = V p)
        \<and> sched_frame pl s s')"
proof -
  let ?c = "current s" and ?h = "proc_hd s"
  let ?m = "set_p_ticks ?c 0 (set_p_timeout ?c n (set_p_state ?c PROC_SLEEPING (mem s)))"
  let ?V = "(view (mem s))(?c := (view (mem s) ?c)\<lparr>v_state := PROC_SLEEPING, v_ticks := 0, v_timeout := n\<rparr>)"
  let ?s = "disable_ints (s\<lparr>mem := ?m\<rparr>)"
  have pm: "procs_mem (mem s) ?h pl" using wf by (simp add: procs_wf_def)
  have ap: "procs_apart ?h pl" using pm by (simp add: procs_mem_def)
  have l: "local_to ?c (mem s) ?m"
    by (rule local_trans [OF local_trans [OF local_sets(5) local_sets(7)] local_sets(6)])
  have v: "view ?m p = ?V p" if "p \<in> set pl" for p
    using view_other [OF ap cur that _ l] by (cases "p = ?c") simp_all
  have w: "procs_wf ?s pl" "current ?s \<in> set pl" "stack_clear ?s pl" "is_kernel_preempt ?s \<noteq> 0" "pcount ?s \<noteq> 0"
    using procs_mem_local [OF pm cur l] cur st on
    by (simp_all add: procs_wf_def stack_clear_def disable_ints_def is_kernel_preempt_def)
  note ref = schedule_effect [OF w]
  have ps: "process_sleep n s = do { (switched, s) \<leftarrow> schedule ?s;
      Some (switched, if switched then s else enable_ints s) }"
    by (simp add: process_sleep_def process_expire_def get_current_process_def Let_def)
  have c: "current ?s = ?c" "mem ?s = ?m" by (simp_all add: disable_ints_def)
  have fr: "sched_frame pl s s'" if "sched_frame pl ?s s'" for s'
    using that local_off [OF l cur] by (simp add: sched_frame_def disable_ints_def)
  note cong = spec_schedule_cong [of pl "view ?m" ?V, OF v cur]
  have sw: "spec_schedule pl ?V ?c = map_option (\<lambda>(n, V). (True, n, V(n := account ((V n)\<lparr>v_state := PROC_RUNNING\<rparr>))))
      (spec_select pl (demote (tick \<circ> ?V) ?c))"
    by (rule spec_schedule_switch) simp
  show ?thesis
  proof (cases "spec_schedule pl (view ?m) ?c")
    case None
    then show ?thesis using ref cong by (simp add: ps c)
  next
    case (Some r)
    obtain b k W where r: "r = (b, k, W)" by (cases r) auto
    from cong Some r obtain W' where W': "spec_schedule pl ?V ?c = Some (b, k, W')" "\<forall>p \<in> set pl. W p = W' p"
      by auto
    then have "b" using sw by auto
    then show ?thesis using ref Some W' fr by (auto simp: ps c r)
  qed
qed

text \<open>C21: \<^verbatim>\<open>process_sleep\<close> puts the current process to sleep for the given ticks, takes its
  remaining ticks away, and leaves the CPU: the outcome is that of the abstract scheduler on the list
  with the current process asleep, and the call comes back only by a switch.\<close>

theorem process_sleep_refines:
  assumes wf: "procs_wf s pl" and cur: "current s \<in> set pl" and st: "stack_clear s pl"
    and on: "is_kernel_preempt s \<noteq> 0" "pcount s \<noteq> 0"
  shows "case spec_schedule pl ((view (mem s))(current s := (view (mem s) (current s))\<lparr>
        v_state := PROC_SLEEPING, v_ticks := 0, v_timeout := n\<rparr>)) (current s) of
      None \<Rightarrow> process_sleep n s = None
    | Some (sw, k, V) \<Rightarrow> sw \<and> (\<exists>s'. process_sleep n s = Some (True, s') \<and> procs_wf s' pl
        \<and> current s' = k \<and> k \<in> set pl \<and> (\<forall>p \<in> set pl. view (mem s') p = V p))"
  using process_sleep_effect [OF assms, of n] by (auto split: option.splits)

text \<open>C23: When the only process of the list goes to sleep, \<^verbatim>\<open>process_sleep\<close> comes back only when
  the sleep is for exactly one tick: the scheduler it calls counts that tick and wakes the process,
  which gets new ticks and is selected. For any other time, 0 (which wraps) included, the call does not
  return: the selection loops, with interrupts off, for a process that is ready.\<close>

theorem last_sleeper_hangs:
  assumes "procs_wf s [p]" "current s = p" "stack_clear s [p]"
    and "is_kernel_preempt s \<noteq> 0" "pcount s \<noteq> 0"
  shows "if n = 1 then \<exists>s'. process_sleep n s = Some (True, s') \<and> current s' = p
      \<and> v_state (view (mem s') p) = PROC_RUNNING \<and> v_ticks (view (mem s') p) = 99
    else process_sleep n s = None"
proof -
  let ?v = "(view (mem s) p)\<lparr>v_state := PROC_SLEEPING, v_ticks := 0, v_timeout := n\<rparr>"
  let ?V = "(view (mem s))(p := ?v)"
  have d: "demote (tick \<circ> ?V) p = tick \<circ> ?V" by (simp add: demote_def tick_def Let_def)
  have e: "spec_schedule [p] ?V p = map_option (\<lambda>(q, V). (True, q, V(q := account ((V q)\<lparr>v_state := PROC_RUNNING\<rparr>))))
      (spec_select [p] (tick \<circ> ?V))"
    using spec_schedule_switch [of ?V p "[p]"] unfolding d by (simp add: tick_def Let_def)
  note ps = process_sleep_effect [OF assms(1) _ assms(3-5), of n]
  show ?thesis
  proof (cases "n = 1")
    case True
    then have "tick ?v = ?v\<lparr>v_state := PROC_READY, v_timeout := 0\<rparr>" using tick_sleeping(2) [of ?v] by simp
    then have "spec_select [p] (tick \<circ> ?V) = Some (p, refill \<circ> (tick \<circ> ?V))"
      "v_ticks (account ((refill (tick ?v))\<lparr>v_state := PROC_RUNNING\<rparr>)) = 99"
      "v_state (account ((refill (tick ?v))\<lparr>v_state := PROC_RUNNING\<rparr>)) = PROC_RUNNING"
      by (simp_all add: spec_select_def eligible_def refill_def account_def)
    then show ?thesis using ps e assms(2) True by auto
  next
    case False
    then have "tick ?v = ?v\<lparr>v_timeout := n - 1\<rparr>" using tick_sleeping(1) [of ?v] by simp
    then have "spec_select [p] (tick \<circ> ?V) = None" by (simp add: spec_select_def eligible_def)
    then show ?thesis using ps e assms(2) False by simp
  qed
qed

end
