(* ===== verification/Cpu.thy ===== *)
theory Cpu
  imports Sched
begin

text \<open>
  Interrupts and processor set-up: \<^verbatim>\<open>cpu/interrupt.c\<close>, \<^verbatim>\<open>cpu/pic.c\<close>, \<^verbatim>\<open>cpu/handler.c\<close>,
  \<^verbatim>\<open>cpu/timer.c\<close>, \<^verbatim>\<open>cpu/cpu.c\<close> and \<^verbatim>\<open>cpu/cpuid.c\<close>. The addresses the linker fixes (the
  tables in \<^verbatim>\<open>start.asm\<close>, the interrupt stubs), the result of the \<^verbatim>\<open>cpuid\<close> instruction and the
  flags the processor lets software change are constants of the state. The handlers that the kernel
  registers are a datatype, in place of their addresses.
\<close>

section \<open>State\<close>

datatype irq_routine = No_Routine | Timer_Handler | Press

record regs =
  int_no :: u32
  err_code :: u32
  r_eax :: u32
  r_ebx :: u32
  r_ecx :: u32
  r_edx :: u32
  r_eip :: u32
  r_cs :: u32

record system = kernel +
  K_IDT :: u32
  K_IDT_PTR :: u32
  K_TSS :: u32
  isr_stub :: "u32 \<Rightarrow> u32"
  irq_stub :: "u32 \<Rightarrow> u32"
  k_idt :: u32
  k_idt_ptr :: u32
  idtr :: "(u16 \<times> u32) option"
  tr :: u16
  k_irq_routines :: "irq_routine list"
  cr2 :: u32
  eflags_mask :: u32
  cpuid_leaf :: "u32 \<Rightarrow> u32 \<times> u32"
  k_cpu_caps :: u32

definition K_ADDR_ADJUST :: u32 where "K_ADDR_ADJUST = 0xBFF00000"
definition TIMER_HZ :: u32 where "TIMER_HZ = 1000"

section \<open>The interrupt descriptor table\<close>

text \<open>A gate is 8 bytes: the low half of the base, the selector, a zero byte, the flags, the high half.\<close>

definition map_interrupt_gate :: "u32 \<Rightarrow> u16 \<Rightarrow> u32 \<Rightarrow> u16 \<Rightarrow> u8 \<Rightarrow> bytes \<Rightarrow> bytes" where
  "map_interrupt_gate idt num virt_base sel flags m =
     (let phys_base = virt_base;
          e = idt + 8 * ucast num;
          m = store16 m e (ucast (phys_base AND 0xFFFF));
          m = store16 m (e + 6) (ucast (drop_bit 16 phys_base AND 0xFFFF));
          m = store16 m (e + 2) sel;
          m = store8 m (e + 4) 0
      in store8 m (e + 5) flags)"

text \<open>The processor's reading of a gate.\<close>

definition gate_base :: "bytes \<Rightarrow> u32 \<Rightarrow> u32 \<Rightarrow> u32" where
  "gate_base m idt num =
     ucast (load16 m (idt + 8 * num)) OR push_bit 16 (ucast (load16 m (idt + 8 * num + 6)))"

definition gate_sel :: "bytes \<Rightarrow> u32 \<Rightarrow> u32 \<Rightarrow> u16" where
  "gate_sel m idt num = load16 m (idt + 8 * num + 2)"

definition gate_flags :: "bytes \<Rightarrow> u32 \<Rightarrow> u32 \<Rightarrow> u8" where
  "gate_flags m idt num = m (idt + 8 * num + 5)"

fun map_gates :: "u32 \<Rightarrow> (u32 \<Rightarrow> u32) \<Rightarrow> u32 list \<Rightarrow> bytes \<Rightarrow> bytes" where
  "map_gates idt stub [] m = m"
| "map_gates idt stub (n # ns) m =
     map_gates idt stub ns (map_interrupt_gate idt (ucast n) (stub n) 0x10 0x8E m)"

definition idt_load :: "'a system_scheme \<Rightarrow> 'a system_scheme" where
  "idt_load s = s\<lparr>idtr := Some (load16 (mem s) (K_IDT_PTR s), load32 (mem s) (K_IDT_PTR s + 2))\<rparr>"

definition init_interrupts :: "'a system_scheme \<Rightarrow> 'a system_scheme" where
  "init_interrupts s =
     (let s = s\<lparr>k_idt := K_IDT s, k_idt_ptr := K_IDT_PTR s\<rparr>;
          idt_phys_base = k_idt s - K_ADDR_ADJUST;
          m = store16 (mem s) (k_idt_ptr s) (8 * 256 - 1);
          m = store32 m (k_idt_ptr s + 2) idt_phys_base;
          m = map_gates (k_idt s) (isr_stub s)
            [0, 1, 2, 3, 4, 5, 6, 7, 8, 9, 10, 11, 12, 13, 14, 15, 16, 17, 18, 19, 20, 21, 22, 23, 24,
             25, 26, 27, 28, 29, 30, 31] m
      in idt_load (s\<lparr>mem := m\<rparr>))"

section \<open>The interrupt controller and the timer\<close>

text \<open>The handler table has 16 entries; an index past it would be a store outside the array.\<close>

definition set_irq_handler :: "u16 \<Rightarrow> irq_routine \<Rightarrow> 'a system_scheme \<Rightarrow> 'a system_scheme option" where
  "set_irq_handler irq handler s =
     (if unat irq < length (k_irq_routines s)
      then Some (s\<lparr>k_irq_routines := (k_irq_routines s)[unat irq := handler]\<rparr>) else None)"

fun outportbs :: "(u32 \<times> u8) list \<Rightarrow> 'a machine_scheme \<Rightarrow> 'a machine_scheme" where
  "outportbs [] s = s"
| "outportbs ((p, d) # ws) s = outportbs ws (outportb p d s)"

definition init_pic :: "'a system_scheme \<Rightarrow> 'a system_scheme option" where
  "init_pic s =
     (let s = outportbs [(0x20, 0x11), (0xA0, 0x11), (0x21, 0x20), (0xA1, 0x28), (0x21, 0x04),
            (0xA1, 0x02), (0x21, 0x01), (0xA1, 0x01), (0x21, 0x0), (0xA1, 0x0)] s;
          m = map_gates (k_idt s) (irq_stub s)
            [32, 33, 34, 35, 36, 37, 38, 39, 40, 41, 42, 43, 44, 45, 46, 47] (mem s)
      in set_irq_handler 1 Press (s\<lparr>mem := m\<rparr>))"

definition init_timer :: "'a system_scheme \<Rightarrow> 'a system_scheme option" where
  "init_timer s =
     (let divisor = 1193180 div TIMER_HZ;
          s = outportb 0x43 0x36 s;
          s = outportb 0x40 (ucast (divisor AND 0xFF)) s;
          s = outportb 0x40 (ucast (drop_bit 8 divisor)) s
      in set_irq_handler 0 Timer_Handler s)"

definition timer_handler :: "regs \<Rightarrow> 'a system_scheme \<Rightarrow> (bool \<times> 'a system_scheme) option" where
  "timer_handler r s = schedule s"

definition press :: "regs \<Rightarrow> 'a system_scheme \<Rightarrow> (bool \<times> 'a system_scheme) option" where
  "press r s =
     (let scancode = ucast (inportb 0x60 s) :: u32
      in do {
        s \<leftarrow> (if scancode = 0x47 then ps s else Some s);
        (switched, s) \<leftarrow> (if scancode = 0x48 then schedule s else Some (False, s));
        s \<leftarrow> (if scancode = 0x49 then dump_heap_stats s else Some s);
        s \<leftarrow> (if scancode = 0x50 then do {
               s \<leftarrow> kprintf (rodata s (''Corrupting Heap!'' @ [CHR 0x0A])) [] s;
               Some (s\<lparr>mem := memcpy (mem s) (heap_base s) 0 1024\<rparr>)
             } else Some s);
        Some (switched, s)
      })"

section \<open>Handlers\<close>

definition page_fault :: "regs \<Rightarrow> 'a system_scheme \<Rightarrow> 'a system_scheme option" where
  "page_fault r s =
     (let fault_address = cr2 s
      in do {
        (phys, s) \<leftarrow> alloc_pages 1 ZONE_NORMAL s;
        let vbase = (fault_address div 4096) * 4096;
        (_, s) \<leftarrow> map_page (k_addrspc s) phys vbase s;
        Some s
      })"

text \<open>An exception other than a page fault is reported, and the handler then loops for ever.\<close>

definition fault_handler :: "regs \<Rightarrow> 'a system_scheme \<Rightarrow> 'a system_scheme option" where
  "fault_handler r s = do {
     s \<leftarrow> (if int_no r = 14 then page_fault r s else Some s);
     (if int_no r < 32 \<and> int_no r \<noteq> 14 then do {
        s \<leftarrow> kprintf (rodata s (CHR 0x0A # CHR 0x0A # ''************** EXCEPTION ***************'' @ [CHR 0x0A])) [] s;
        s \<leftarrow> kprintf (rodata s (''Number: %d, Error Code=%d'' @ [CHR 0x0A])) [int_no r, err_code r] s;
        s \<leftarrow> kprintf (rodata s (''Registers: CS:EIP = %x:%x, EAX=%x, EBX=%x, ECX=%x, EDX=%x'' @ [CHR 0x0A]))
          [r_cs r, r_eip r, r_eax r, r_ebx r, r_ecx r, r_edx r] s;
        s \<leftarrow> kprintf (rodata s (''****************************************'' @ [CHR 0x0A, CHR 0x0A])) [] s;
        None
      } else Some s)
   }"

definition call_routine ::
  "irq_routine \<Rightarrow> regs \<Rightarrow> 'a system_scheme \<Rightarrow> (bool \<times> 'a system_scheme) option" where
  "call_routine h r s =
     (case h of No_Routine \<Rightarrow> Some (False, s) | Timer_Handler \<Rightarrow> timer_handler r s | Press \<Rightarrow> press r s)"

text \<open>The end of the handler, reached at once, or when a context that was switched away comes back.\<close>

definition end_of_interrupt :: "regs \<Rightarrow> 'a system_scheme \<Rightarrow> 'a system_scheme" where
  "end_of_interrupt r s =
     (let s = (if int_no r \<ge> 40 then outportb 0xA0 0x20 s else s) in outportb 0x20 0x20 s)"

definition irq_handler :: "regs \<Rightarrow> 'a system_scheme \<Rightarrow> (bool \<times> 'a system_scheme) option" where
  "irq_handler r s =
     (let i = unat (int_no r - 32)
      in if i < length (k_irq_routines s) then do {
           (switched, s) \<leftarrow> call_routine (k_irq_routines s ! i) r s;
           Some (switched, if switched then s else end_of_interrupt r s)
         } else None)"

section \<open>\<^verbatim>\<open>cpu/cpu.c\<close>\<close>

definition ltr :: "u16 \<Rightarrow> 'a system_scheme \<Rightarrow> 'a system_scheme" where
  "ltr selector s = s\<lparr>tr := selector\<rparr>"

text \<open>A descriptor is 8 bytes: limit and base low words, base middle byte, access, flags, base high byte.\<close>

definition set_tss :: "u32 \<Rightarrow> u32 \<Rightarrow> 'a system_scheme \<Rightarrow> 'a system_scheme" where
  "set_tss tss sz s =
     (let base = tss; d = K_TSS s;
          m = store16 (mem s) (d + 2) (ucast (base AND 0xFFFF));
          m = store8 m (d + 4) (ucast (drop_bit 16 base AND 0xFF));
          m = store8 m (d + 7) (ucast (drop_bit 24 base AND 0xFF));
          m = store16 m d (ucast (sz AND 0xFFFF));
          m = store8 m (d + 6) (m (d + 6) OR ucast (drop_bit 16 sz AND 0xF))
      in s\<lparr>mem := m\<rparr>)"

definition descriptor_base :: "bytes \<Rightarrow> u32 \<Rightarrow> u32" where
  "descriptor_base m d = ucast (load16 m (d + 2)) OR push_bit 16 (ucast (m (d + 4)))
     OR push_bit 24 (ucast (m (d + 7)))"

definition descriptor_limit :: "bytes \<Rightarrow> u32 \<Rightarrow> u32" where
  "descriptor_limit m d = ucast (load16 m d) OR push_bit 16 (ucast (m (d + 6) AND 0xF))"

section \<open>\<^verbatim>\<open>cpu/cpuid.c\<close>\<close>

definition EFLAGS_ID :: u32 where "EFLAGS_ID = 0x200000"

definition get_eflags :: "'a system_scheme \<Rightarrow> u32" where
  "get_eflags s = eflags (cpu s)"

text \<open>\<^verbatim>\<open>popf\<close> changes the flags that the processor has; the others keep their value.\<close>

definition set_eflags :: "u32 \<Rightarrow> 'a system_scheme \<Rightarrow> 'a system_scheme" where
  "set_eflags v s = s\<lparr>cpu := (cpu s)\<lparr>eflags :=
     (eflags (cpu s) AND NOT (eflags_mask s)) OR (v AND eflags_mask s)\<rparr>\<rparr>"

definition has_cpuid :: "'a system_scheme \<Rightarrow> u8 \<times> 'a system_scheme" where
  "has_cpuid s =
     (let current_eflags = get_eflags s;
          s = set_eflags (current_eflags XOR EFLAGS_ID) s;
          retval = (if (get_eflags s XOR current_eflags) AND EFLAGS_ID \<noteq> 0 then 1 else 0);
          s = set_eflags current_eflags s
      in (retval, s))"

text \<open>The strings of the two switch statements, with the lengths the code counts.\<close>

definition type_string :: "u32 \<Rightarrow> (string \<times> u32)" where
  "type_string t =
     (if t = 0 then (''Original OEM '', 13) else if t = 1 then (''Overdrive '', 10)
      else if t = 2 then (''Dual-capable '', 13) else if t = 3 then (''Reserved '', 9) else ('''', 0))"

definition family_string :: "u32 \<Rightarrow> (string \<times> u32) option" where
  "family_string f =
     (if f = 3 then Some (''i386 '', 5) else if f = 4 then Some (''i486 '', 5)
      else if f = 5 then Some (''Pentium '', 8) else if f = 6 then Some (''Pentium Pro '', 12)
      else if f = 15 then Some (''Pentium 4 '', 10) else None)"

text \<open>The structure: seven words (model, family, type, brand, stepping, signature, reserved), then the string.\<close>

definition populate_caps_intel :: "u32 \<Rightarrow> 'a system_scheme \<Rightarrow> 'a system_scheme" where
  "populate_caps_intel caps s =
     (let (eax, ebx) = cpuid_leaf s 1;
          m = store32 (mem s) caps (drop_bit 4 eax AND 0xF);
          m = store32 m (caps + 4) (drop_bit 8 eax AND 0xF);
          m = store32 m (caps + 8) (drop_bit 12 eax AND 0x3);
          m = store32 m (caps + 12) (ebx AND 0xFF);
          m = store32 m (caps + 16) (eax AND 0xF);
          m = store32 m (caps + 24) (drop_bit 14 eax);
          m = store32 m (caps + 20) eax;
          (str, strpos) = type_string (load32 m (caps + 8));
          m = (if strpos = 0 then m else fst (strncpy m (caps + 28) (rodata s str) strpos));
          m = (case family_string (load32 m (caps + 4)) of
                 None \<Rightarrow> m
               | Some (str, n) \<Rightarrow> fst (strncpy m (caps + 28 + strpos) (rodata s str) n))
      in s\<lparr>mem := m\<rparr>)"

definition set_cpu_caps :: "'a system_scheme \<Rightarrow> 'a system_scheme option" where
  "set_cpu_caps s =
     (let (has, s) = has_cpuid s
      in do {
        s \<leftarrow> (if has = 0
              then panic (''CPUID instruction not supported, not sure what to do!'' @ [CHR 0x0A]) s else Some s);
        let (_, ebx) = cpuid_leaf s 0;
        (if ebx = 0x756e6547 then Some (populate_caps_intel (k_cpu_caps s) s)
         else panic ''UNSUPPORTED CPU!'' s)
      })"

end
