(* ===== verification/Frames.thy ===== *)
theory Frames
  imports Page_Alloc
begin

text \<open>
  Allocation frame by frame: the frames a request can get, what one call of \<^verbatim>\<open>alloc_pages(1, flags)\<close>
  takes from them, and the state after any set of frames has been handed out. The page tables, the
  page fault handler and the allocator's test all allocate this way.
\<close>

text \<open>The state after the frames \<open>N\<close> have been handed out.\<close>

definition taken :: "'a paging_scheme \<Rightarrow> u32 set \<Rightarrow> 'a paging_scheme \<Rightarrow> bool" where
  "taken s N s' \<longleftrightarrow> (\<exists>s1. marked s N s1 \<and> s' = s1\<lparr>free_pages := free_pages s - of_nat (card N)\<rparr>)"

lemma taken_empty: "zones_wf s \<Longrightarrow> taken s {} s"
  unfolding taken_def using marked_empty [of s] by (auto simp: zones_wf_def)

lemma marked_free_pages:
  assumes "marked (s\<lparr>free_pages := f\<rparr>) M s'"
  shows "marked s M (s'\<lparr>free_pages := free_pages s\<rparr>)"
proof -
  have "zones (s\<lparr>free_pages := f\<rparr>) = zones s" "page_used (s\<lparr>free_pages := f\<rparr>) = page_used s"
    by (simp_all add: unmarked_fields)
  with assms show ?thesis unfolding marked_def by auto
qed

lemma taken_trans:
  assumes "taken s N s1" "taken s1 M s2" "N \<inter> M = {}" "zones_wf s"
  shows "taken s (N \<union> M) s2"
proof -
  obtain t1 where t1: "marked s N t1" "s1 = t1\<lparr>free_pages := free_pages s - of_nat (card N)\<rparr>"
    using assms(1) by (auto simp: taken_def)
  obtain t2 where t2: "marked s1 M t2" "s2 = t2\<lparr>free_pages := free_pages s1 - of_nat (card M)\<rparr>"
    using assms(2) by (auto simp: taken_def)
  have "marked t1 M (t2\<lparr>free_pages := free_pages t1\<rparr>)" using marked_free_pages t2(1) t1(2) by blast
  then have "marked s (N \<union> M) (t2\<lparr>free_pages := free_pages t1\<rparr>)"
    using marked_trans [OF t1(1) _ assms(3)] assms(4) by (simp add: zones_wf_def)
  moreover have "card (N \<union> M) = card N + card M" using assms(3) by (intro card_Un_disjoint) auto
  ultimately show ?thesis unfolding taken_def
    by (intro exI [of _ "t2\<lparr>free_pages := free_pages t1\<rparr>"]) (simp add: t1(2) t2(2))
qed

lemma taken_facts:
  assumes "taken s N s'" "zones_wf s"
  shows "zones s' = map (bump (zones s) N) (zones s)" "total_pages s' = total_pages s"
    "page_used s' k \<longleftrightarrow> k \<in> N \<or> page_used s k" "k_page_bitmap s' = k_page_bitmap s" "screen s' = screen s"
    "length (page_zones s') = length (page_zones s)" "rodata s' = rodata s" "num_zones s' = num_zones s"
    "b \<notin> bitmap_bytes (k_page_bitmap s) \<Longrightarrow> mem s' b = mem s b"
    "tty_wf s \<Longrightarrow> tty_wf s'"
proof -
  obtain s1 where s1: "marked s N s1" "s' = s1\<lparr>free_pages := free_pages s - of_nat (card N)\<rparr>"
    using assms(1) by (auto simp: taken_def)
  have len: "unat (num_zones s) \<le> length (page_zones s)" using assms(2) by (simp add: zones_wf_def)
  note f = marked_fields [OF s1(1)]
  show "zones s' = map (bump (zones s) N) (zones s)"
    using zones_marked [OF s1(1) len] by (simp add: s1(2) unmarked_fields)
  show "total_pages s' = total_pages s" "page_used s' k \<longleftrightarrow> k \<in> N \<or> page_used s k"
    "k_page_bitmap s' = k_page_bitmap s" "length (page_zones s') = length (page_zones s)" "num_zones s' = num_zones s"
    "b \<notin> bitmap_bytes (k_page_bitmap s) \<Longrightarrow> mem s' b = mem s b"
    using f by (simp_all add: s1(2) unmarked_fields)
  obtain m zs where e: "s1 = s\<lparr>mem := m, page_zones := zs\<rparr>" using s1(1) unfolding marked_def by blast
  show "screen s' = screen s" "rodata s' = rodata s" "tty_wf s \<Longrightarrow> tty_wf s'"
    by (simp_all add: s1(2) e screen_def tty_wf_def)
qed

lemma taken_alloc:
  assumes "taken s N s'"
  shows "page_size s' = page_size s" "k_addrspc s' = k_addrspc s"
  using assms by (auto simp: taken_def marked_def)

lemma taken_range:
  assumes "taken s N s'" "zones_wf s"
  shows "search_range flags s' = search_range flags s" "zones_wf s'"
proof -
  obtain s1 where s1: "marked s N s1" "s' = s1\<lparr>free_pages := free_pages s - of_nat (card N)\<rparr>"
    using assms(1) by (auto simp: taken_def)
  show "search_range flags s' = search_range flags s"
    using taken_facts(1,2) [OF assms] by (simp add: search_range_def)
  show "zones_wf s'" using zones_wf_marked [OF s1(1) assms(2)]
    by (simp add: s1(2) zones_wf_def unmarked_fields)
qed

lemma alloc_wf_taken:
  assumes "taken s N s'" "alloc_wf s" "N \<subseteq> {n. n < total_pages s}" "N \<inter> used_pages s = {}"
  shows "alloc_wf s'"
  using assms alloc_wf_marked by (auto simp: taken_def)

text \<open>The free frames that a request with \<open>flags\<close> can get: those below the end page of its zone.\<close>

definition free_frames :: "u32 \<Rightarrow> 'a paging_scheme \<Rightarrow> u32 set" where
  "free_frames flags s = {n. fst (search_range flags s) \<le> unat n \<and> unat n < snd (search_range flags s) \<and> \<not> page_used s n}"

lemma free_frames_unused:
  "free_frames flags s \<subseteq> {n. n < total_pages s}" "free_frames flags s \<inter> used_pages s = {}"
  by (auto simp: free_frames_def used_pages_def search_range_def word_less_nat_alt split: prod.splits)

lemma free_run_one: "free_run s (unat c) (Suc 0) \<longleftrightarrow> \<not> page_used s c"
proof -
  have "unat c \<le> unat k \<and> unat k < unat c + Suc 0 \<longleftrightarrow> k = c" for k
    by (auto simp: word_unat_eq_iff)
  then show ?thesis by (simp add: free_run_def)
qed

lemma no_fit_one: "no_fit s (search_range flags s) 1 \<longleftrightarrow> free_frames flags s = {}"
proof -
  have one: "unat (1 :: u32) = Suc 0" by simp
  have hi: "snd (search_range flags s) \<le> unat (total_pages s)"
    by (simp add: search_range_def split: prod.splits)
  have "unat (of_nat c :: u32) = c" if "c + Suc 0 \<le> snd (search_range flags s)" for c
    using that hi unat_less_2p32 [of "total_pages s"] by (simp add: unat_of_nat)
  then show ?thesis
    using free_run_one [of s] unfolding no_fit_def free_frames_def one
    by (auto simp: Suc_le_eq) (metis Suc_leI)
qed

text \<open>One frame at a time: the first of the free frames, as long as there is one.\<close>

lemma alloc_one:
  assumes "alloc_wf s"
  shows "if free_frames flags s = {} then alloc_pages 1 flags s = Some (0, s)
    else \<exists>c s'. c \<in> free_frames flags s \<and> alloc_pages 1 flags s = Some (c * 4096, s') \<and> c * 4096 \<noteq> 0
      \<and> taken s {c} s' \<and> alloc_wf s' \<and> free_frames flags s' = free_frames flags s - {c}"
proof -
  have zwf: "zones_wf s" using assms by (simp add: alloc_wf_def counts_wf_def)
  have one: "unat (1 :: u32) = Suc 0" by simp
  obtain lo hi where sr: "search_range flags s = (lo, hi)" by fastforce
  have "(1 :: u32) \<noteq> 0" by simp
  from alloc_pages_cases [OF zwf this, of flags] show ?thesis
  proof (elim disjE exE conjE)
    assume a: "alloc_pages 1 flags s = Some (0, s)" and n: "no_fit s (search_range flags s) 1"
    have "page_used s c" if "lo \<le> unat c" "unat c < hi" for c
      using n that free_run_one [of s c] by (auto simp: no_fit_def sr one)
    then have "free_frames flags s = {}" by (auto simp: free_frames_def sr)
    with a show ?thesis by simp
  next
    fix c s1
    assume a: "alloc_pages 1 flags s = Some (c * 4096, s1\<lparr>free_pages := free_pages s - 1\<rparr>)"
      and m: "marked s (page_range c (c + 1)) s1" and ff: "is_first_fit s (search_range flags s) c 1"
    let ?s = "s1\<lparr>free_pages := free_pages s - 1\<rparr>"
    note fp = first_fit_pages [OF assms _ ff]
    have c: "c \<in> free_frames flags s"
      using ff free_run_one [of s c] by (auto simp: is_first_fit_def free_frames_def sr one)
    have "page_range c (c + 1) = {c}"
    proof -
      have "card (page_range c (c + 1)) = 1" using fp(8) by simp
      moreover have "c \<in> page_range c (c + 1)"
        using c free_frames_unused(1) [of flags s] unat_up [of c "total_pages s"]
        by (auto simp: page_range_def word_less_nat_alt)
      ultimately show ?thesis by (metis card_1_singletonE singletonD)
    qed
    then have t: "taken s {c} ?s" using m unfolding taken_def by (intro exI [of _ s1]) simp
    have "free_frames flags ?s = free_frames flags s - {c}"
      using taken_facts(3) [OF t zwf] taken_range(1) [OF t zwf] by (auto simp: free_frames_def)
    moreover have "c * 4096 \<noteq> 0" using fp(4) by simp
    ultimately show ?thesis using a t c alloc_wf_alloc_pages [OF assms a] by auto
  qed
qed

end
