(* ===== verification/Cpu_Props.thy ===== *)
theory Cpu_Props
  imports Cpu Frames
begin

text \<open>
  Properties of the interrupt set-up and of the handlers: the gates the processor reads, the
  acknowledgement of interrupts, demand paging through \<^verbatim>\<open>page_fault\<close>, the TSS descriptor and the
  detection of \<^verbatim>\<open>cpuid\<close>.
\<close>

section \<open>Demand paging\<close>

text \<open>The page of a faulting address.\<close>

lemma fault_page:
  fixes v :: u32
  assumes "v < 0xFFC00000"
  defines "p \<equiv> v div 4096 * 4096"
  shows "p mod 4096 = 0" "p < 0xFFC00000" "unat p div 4096 = unat v div 4096" "v AND 0xFFF < 4096" "p + (v AND 0xFFF) = v"
    "pte_addr p = pte_addr v" "pde_addr p = pde_addr v"
proof -
  have vu: "unat p = unat v div 4096 * 4096"
    using unat_less_2p32 [of v] by (simp add: p_def unat_word_ariths unat_div)
  show "p mod 4096 = 0" by (simp add: word_unat_eq_iff unat_mod vu)
  show "p < 0xFFC00000" using assms(1) vu by (simp add: word_less_nat_alt)
  show pg: "unat p div 4096 = unat v div 4096" by (simp add: vu)
  then show "pte_addr p = pte_addr v" by (rule entry_cong(1))
  have "unat p div 4194304 = unat v div 4194304" using div_mult2_eq [of _ 4096 1024] by (simp add: vu)
  then show "pde_addr p = pde_addr v" by (rule entry_cong(2))
  have f: "(0xFFF :: u32) = mask 12" by (simp add: mask_eq_exp_minus_1)
  then have "v AND 0xFFF = take_bit 12 v" by (simp add: take_bit_eq_mask)
  then have o: "unat (v AND 0xFFF) = unat v mod 4096"
    by (simp add: unsigned_take_bit_eq take_bit_eq_mod [where ?'a = nat])
  then show "v AND 0xFFF < 4096" by (simp add: word_less_nat_alt)
  have "unat (p + (v AND 0xFFF)) = unat p + unat (v AND 0xFFF)"
    using o vu unat_less_2p32 [of v] by (intro unat_plus_small) simp
  then show "p + (v AND 0xFFF) = v" using o vu by (simp add: word_unat_eq_iff)
qed

text \<open>C11: A page fault on an unmapped address below the window, with two frames left to hand out (one may
  become a page table), is repaired: the handler returns, the address then translates to a frame that was free
  before and is marked used now, all other pages translate as before, and the allocator's invariant holds.\<close>

theorem page_fault_maps:
  assumes wf: "alloc_wf s" "window_wf (k_addrspc s) s" and low: "cr2 s < 0xFFC00000"
    and two: "2 \<le> card (free_frames ZONE_NORMAL s)"
    and table: "load32 (mem s) (pde_addr (cr2 s)) = 0
      \<or> load32 (mem s) (pde_addr (cr2 s)) AND P_PRESENT \<noteq> 0 \<and> load32 (mem s) (pte_addr (cr2 s)) = 0"
  shows "\<exists>c s'. page_fault r s = Some s' \<and> c \<in> free_frames ZONE_NORMAL s \<and> page_used s' c \<and> alloc_wf s'
    \<and> translate (mem s') (cr2 s) = Some (c * 4096 + (cr2 s AND 0xFFF))
    \<and> (\<forall>w < 0xFFC00000. unat w div 4096 \<noteq> unat (cr2 s) div 4096 \<longrightarrow>
         translate (mem s') w = translate (mem s) w)"
proof -
  let ?v = "cr2 s div 4096 * 4096" and ?off = "cr2 s AND 0xFFF"
  note fp = fault_page [OF low]
  have two': "\<exists>d \<in> free_frames ZONE_NORMAL s. d \<noteq> c" for c
  proof (rule ccontr)
    assume "\<not> (\<exists>d \<in> free_frames ZONE_NORMAL s. d \<noteq> c)"
    then have "free_frames ZONE_NORMAL s \<subseteq> {c}" by auto
    from card_mono [OF _ this] two show False by simp
  qed
  then have "free_frames ZONE_NORMAL s \<noteq> {}" by blast
  with alloc_one [OF wf(1), of ZONE_NORMAL] obtain c s1 where
    al: "alloc_pages 1 ZONE_NORMAL s = Some (c * 4096, s1)" and c0: "c \<in> free_frames ZONE_NORMAL s"
    and wf1: "alloc_wf s1" and rest: "free_frames ZONE_NORMAL s1 = free_frames ZONE_NORMAL s - {c}"
    and t: "taken s {c} s1" by auto
  have zwf: "zones_wf s" using wf(1) by (simp add: alloc_wf_def counts_wf_def)
  note tf = taken_facts [OF t zwf]
  have c: "c \<in> free_frames ZONE_NORMAL s" "page_used s1 c" using c0 tf(3) by simp_all
  note out = tf(9) and same = tf(4) taken_alloc [OF t] tf(2)
  have ww: "window_wf (k_addrspc s1) s1" using wf(2) same by (simp add: window_wf_def)
  note en = entries_frame [OF wf(2) out]
  have cm: "(c * 4096) mod 4096 = 0"
  proof -
    have "unat c < unat (total_pages s)" "unat (total_pages s) \<le> 0x100000"
      using c wf(1) by (auto simp: free_frames_def search_range_def alloc_wf_def counts_wf_def zones_wf_def word_le_nat_alt
          split: prod.splits)
    then have "unat (c * 4096) = unat c * 4096" by (simp add: unat_word_ariths)
    then show ?thesis by (simp add: word_unat_eq_iff unat_mod)
  qed
  have ta: "table_available s1 ?v"
    using table two' [of c] rest by (auto simp: table_available_def fp(6,7) en no_fit_one)
  have nt: "\<not> (load32 (mem s1) (pde_addr ?v) \<noteq> 0 \<and> load32 (mem s1) (pte_addr ?v) \<noteq> 0)"
    using table by (auto simp: fp(6,7) en)
  from map_page_effect [OF wf1 ww cm fp(1,2) ta, unfolded if_not_P [OF nt]]
  obtain s' where s': "map_page (k_addrspc s1) (c * 4096) ?v s1 = Some (?v, s')" "alloc_wf s'"
    "used_pages s1 \<subseteq> used_pages s'" "\<forall>off < 4096. translate (mem s') (?v + off) = Some (c * 4096 + off)"
    "\<forall>w < 0xFFC00000. unat w div 4096 \<noteq> unat ?v div 4096 \<longrightarrow> translate (mem s') w = translate (mem s1) w"
    by blast
  have "c \<in> used_pages s1"
    using c same(4) by (auto simp: used_pages_def free_frames_def search_range_def word_less_nat_alt split: prod.splits)
  then have "page_used s' c" using s'(3) by (auto simp: used_pages_def)
  moreover have "translate (mem s') (cr2 s) = Some (c * 4096 + ?off)" using s'(4) fp(4,5) by metis
  moreover have "page_fault r s = Some s'" using al s'(1) by (simp add: page_fault_def)
  ultimately show ?thesis using c(1) s'(2,5) fp(3) en(3) by auto
qed

text \<open>C37: The handler does not look at the allocator's answer: when no frame is free below the zone's end
  page, a fault on an unmapped address whose page table exists returns as if repaired, and the address
  translates to frame 0, which is in use. Other pages translate as before.\<close>

theorem page_fault_exhausted:
  assumes wf: "alloc_wf s" "window_wf (k_addrspc s) s" and low: "cr2 s < 0xFFC00000"
    and none: "free_frames ZONE_NORMAL s = {}"
    and table: "load32 (mem s) (pde_addr (cr2 s)) AND P_PRESENT \<noteq> 0" "load32 (mem s) (pte_addr (cr2 s)) = 0"
  shows "\<exists>s'. page_fault r s = Some s' \<and> alloc_wf s' \<and> page_used s 0
    \<and> translate (mem s') (cr2 s) = Some (cr2 s AND 0xFFF)
    \<and> (\<forall>w < 0xFFC00000. unat w div 4096 \<noteq> unat (cr2 s) div 4096 \<longrightarrow>
         translate (mem s') w = translate (mem s) w)"
proof -
  let ?v = "cr2 s div 4096 * 4096"
  note fp = fault_page [OF low]
  have al: "alloc_pages 1 ZONE_NORMAL s = Some (0, s)" using alloc_one [OF wf(1), of ZONE_NORMAL] none by simp
  have ta: "table_available s ?v" using table by (simp add: table_available_def fp(6,7))
  have nt: "\<not> (load32 (mem s) (pde_addr ?v) \<noteq> 0 \<and> load32 (mem s) (pte_addr ?v) \<noteq> 0)"
    using table(2) by (simp add: fp(6,7))
  have z: "(0 :: u32) mod 4096 = 0" by simp
  from map_page_effect [OF wf z fp(1,2) ta, unfolded if_not_P [OF nt]]
  obtain s' where s': "map_page (k_addrspc s) 0 ?v s = Some (?v, s')" "alloc_wf s'"
    "\<forall>off < 4096. translate (mem s') (?v + off) = Some (0 + off)"
    "\<forall>w < 0xFFC00000. unat w div 4096 \<noteq> unat ?v div 4096 \<longrightarrow> translate (mem s') w = translate (mem s) w"
    by blast
  have "translate (mem s') (cr2 s) = Some (cr2 s AND 0xFFF)" using s'(3) fp(4,5) by (metis add_0)
  moreover have "page_fault r s = Some s'" using al s'(1) by (simp add: page_fault_def)
  moreover have "page_used s 0" using wf(1) by (simp add: alloc_wf_def)
  ultimately show ?thesis using s'(2,4) fp(3) by auto
qed

section \<open>Gates\<close>

definition gate_ok :: "bytes \<Rightarrow> u32 \<Rightarrow> u32 \<Rightarrow> u32 \<Rightarrow> bool" where
  "gate_ok m idt num target \<longleftrightarrow>
     gate_base m idt num = target \<and> gate_sel m idt num = 0x10 \<and> gate_flags m idt num = 0x8E"

lemma map_gate_outside:
  assumes "b \<notin> span (idt + 8 * ucast num) 8"
  shows "map_interrupt_gate idt num v sel fl m b = m b"
proof -
  let ?e = "idt + 8 * ucast num"
  have "b \<notin> span (?e + i) k" if "unat i + k \<le> 8" for i k
    using assms span_offset [of b ?e i k 8] that by auto
  from this [of 0 2] this [of 6 2] this [of 2 2] this [of 4 1] this [of 5 1]
  have "b \<notin> span ?e 2" "b \<notin> span (?e + 6) 2" "b \<notin> span (?e + 2) 2" "b \<noteq> ?e + 4" "b \<noteq> ?e + 5"
    by (auto simp: span_iff)
  then show ?thesis
    by (simp add: map_interrupt_gate_def Let_def store16_outside store8_outside)
qed

lemma split_halves: "ucast (ucast (v AND 0xFFFF :: u32) :: u16) OR
    push_bit 16 (ucast (ucast (drop_bit 16 v AND 0xFFFF) :: u16)) = (v :: u32)"
proof -
  have f: "(0xFFFF :: u32) = mask 16" by (simp add: mask_eq_exp_minus_1)
  show ?thesis unfolding f by (rule bit_word_eqI) (auto simp: bit_simps)
qed

lemma map_gate_same: "gate_ok (map_interrupt_gate idt num v 0x10 0x8E m) idt (ucast num) v"
  using split_halves [of v]
  by (simp add: gate_ok_def gate_base_def gate_sel_def gate_flags_def map_interrupt_gate_def Let_def
      mem_frame apart_def unsigned_minus_1_eq_mask mask_eq_exp_minus_1)

lemma gate_cong:
  assumes "\<And>b. b \<in> span (idt + 8 * num) 8 \<Longrightarrow> m' b = m b"
  shows "gate_ok m' idt num t = gate_ok m idt num t"
proof -
  let ?e = "idt + 8 * num"
  have s: "m' b = m b" if "b \<in> span (?e + i) k" "unat i + k \<le> 8" for b i k
    using span_offset [OF that] assms by simp
  have "load16 m' ?e = load16 m ?e" by (rule load16_cong) (use s [of _ 0 2] in simp)
  moreover have "load16 m' (?e + 6) = load16 m (?e + 6)" by (rule load16_cong) (use s [of _ 6 2] in simp)
  moreover have "load16 m' (?e + 2) = load16 m (?e + 2)" by (rule load16_cong) (use s [of _ 2 2] in simp)
  moreover have "m' (?e + 5) = m (?e + 5)" using s [of "?e + 5" 5 1] by (simp add: span_iff)
  ultimately show ?thesis by (simp add: gate_ok_def gate_base_def gate_sel_def gate_flags_def)
qed

lemma gates_disjoint:
  assumes "i < 256" "j < 256" "i \<noteq> j" "b \<in> span (idt + 8 * i) 8"
  shows "b \<notin> span (idt + 8 * j) 8"
proof
  assume b': "b \<in> span (idt + 8 * j) 8"
  have u: "unat (8 * k) = 8 * unat k" "unat k < 256" if "k < 256" for k :: u32
    using that by (simp_all add: unat_word_ariths word_less_nat_alt)
  have s: "unat (b - idt) div 8 = unat k" if "k < 256" "b \<in> span (idt + 8 * k) 8" for k
  proof -
    have lt: "unat (b - (idt + 8 * k)) < 8" using that(2) by (simp add: span_iff)
    have "unat (b - (idt + 8 * k) + 8 * k) = unat (b - (idt + 8 * k)) + 8 * unat k"
      using lt u [OF that(1)] unat_plus_small [of "b - (idt + 8 * k)" "8 * k"] by simp
    then have "unat (b - idt) = unat (b - (idt + 8 * k)) + 8 * unat k" by simp
    then show ?thesis using lt by simp
  qed
  from s [OF assms(1,4)] s [OF assms(2) b'] show False using assms(3) by (simp add: word_unat_eq_iff [of i j])
qed

lemma map_gates_ok:
  assumes "distinct ns" "\<forall>n \<in> set ns. n < 256"
  shows "n \<in> set ns \<Longrightarrow> gate_ok (map_gates idt stub ns m) idt n (stub n)"
    and "n < 256 \<Longrightarrow> n \<notin> set ns \<Longrightarrow> b \<in> span (idt + 8 * n) 8 \<Longrightarrow> map_gates idt stub ns m b = m b"
proof -
  have "(\<forall>n \<in> set ns. gate_ok (map_gates idt stub ns m) idt n (stub n))
    \<and> (\<forall>n < 256. n \<notin> set ns \<longrightarrow> (\<forall>b \<in> span (idt + 8 * n) 8. map_gates idt stub ns m b = m b))"
    using assms
  proof (induction ns arbitrary: m)
    case (Cons k ns)
    let ?m = "map_interrupt_gate idt (ucast k) (stub k) 0x10 0x8E m"
    have k: "k < 256" "k \<notin> set ns" and IH: "(\<forall>n \<in> set ns. gate_ok (map_gates idt stub ns ?m) idt n (stub n))
        \<and> (\<forall>n < 256. n \<notin> set ns \<longrightarrow> (\<forall>b \<in> span (idt + 8 * n) 8. map_gates idt stub ns ?m b = ?m b))"
      using Cons.prems Cons.IH [of ?m] by auto
    have uc: "ucast (ucast k :: u16) = k"
    proof -
      have "unat k < 256" using k by (simp add: word_less_nat_alt)
      then show ?thesis by (simp add: word_unat_eq_iff unsigned_ucast_eq unsigned_take_bit_eq take_bit_nat_eq_self)
    qed
    have "gate_ok (map_gates idt stub ns ?m) idt k (stub k)"
      using gate_cong [of idt k "map_gates idt stub ns ?m" ?m] IH k map_gate_same [of idt "ucast k" "stub k" m]
      by (simp add: uc)
    moreover have "map_gates idt stub ns ?m b = m b"
      if "n < 256" "n \<notin> set (k # ns)" "b \<in> span (idt + 8 * n) 8" for n b
    proof -
      have "b \<notin> span (idt + 8 * k) 8" using gates_disjoint [OF that(1) k(1) _ that(3)] that(2) by auto
      then have "?m b = m b" using map_gate_outside [of b idt "ucast k"] by (simp add: uc)
      then show ?thesis using IH that by simp
    qed
    ultimately show ?case using IH by auto
  qed simp
  then show "n \<in> set ns \<Longrightarrow> gate_ok (map_gates idt stub ns m) idt n (stub n)"
    "n < 256 \<Longrightarrow> n \<notin> set ns \<Longrightarrow> b \<in> span (idt + 8 * n) 8 \<Longrightarrow> map_gates idt stub ns m b = m b"
    by blast+
qed

lemma word_upto:
  "[0, 1, 2, 3, 4, 5, 6, 7, 8, 9, 10, 11, 12, 13, 14, 15, 16, 17, 18, 19, 20, 21, 22, 23, 24, 25, 26,
    27, 28, 29, 30, 31 :: u32] = map of_nat [0 ..< 32]"
  "[32, 33, 34, 35, 36, 37, 38, 39, 40, 41, 42, 43, 44, 45, 46, 47 :: u32] = map of_nat [32 ..< 48]"
  by (simp_all add: upt_rec)

lemma in_upto: "n \<in> set (map of_nat [a ..< b] :: u32 list) \<longleftrightarrow> a \<le> unat n \<and> unat n < b" if "b \<le> 256"
proof
  assume "n \<in> set (map of_nat [a ..< b])"
  then obtain k where "a \<le> k" "k < b" "n = of_nat k" by auto
  moreover from this have "unat n = k" using that by (simp add: unat_of_nat)
  ultimately show "a \<le> unat n \<and> unat n < b" by simp
next
  assume "a \<le> unat n \<and> unat n < b"
  then show "n \<in> set (map of_nat [a ..< b])" by (auto intro!: image_eqI [of _ _ "unat n"])
qed

lemma distinct_upto: "b \<le> 256 \<Longrightarrow> distinct (map of_nat [a ..< b] :: u32 list)"
proof -
  assume b: "b \<le> 256"
  have "x = y" if "x < b" "y < b" "of_nat x = (of_nat y :: u32)" for x y
    using arg_cong [OF that(3), of unat] that(1,2) b by (simp add: unat_of_nat)
  then show ?thesis by (auto simp: distinct_map intro!: inj_onI)
qed

lemma map_gates_outside:
  assumes "b \<notin> span idt 2048" "\<forall>n \<in> set ns. n < 256"
  shows "map_gates idt stub ns m b = m b"
  using assms(2)
proof (induction ns arbitrary: m)
  case (Cons n ns)
  have un: "unat n < 256" using Cons.prems by (simp add: word_less_nat_alt)
  have uc: "ucast (ucast n :: u16) = n"
    using un by (simp add: word_unat_eq_iff unsigned_ucast_eq unsigned_take_bit_eq take_bit_nat_eq_self)
  have "unat (8 * n) + 8 \<le> 2048" using un by (simp add: unat_word_ariths)
  then have "b \<notin> span (idt + 8 * n) 8"
    using span_offset [of b idt "8 * n" 8 2048] assms(1) by auto
  then show ?case using Cons map_gate_outside [of b idt "ucast n"] by (simp add: uc)
qed simp

lemma small_gates: "b \<le> 256 \<Longrightarrow> \<forall>n \<in> set (map of_nat [a ..< b] :: u32 list). n < 256"
  by (auto simp: word_less_nat_alt unat_of_nat)

text \<open>The set-up of the exception gates, as one update of the state.\<close>

lemma init_interrupts_effect:
  assumes "span (K_IDT_PTR s) 6 \<inter> span (K_IDT s) 2048 = {}"
  obtains m where "init_interrupts s = s\<lparr>k_idt := K_IDT s, k_idt_ptr := K_IDT_PTR s, mem := m,
      idtr := Some (2047, K_IDT s - K_ADDR_ADJUST)\<rparr>"
    "\<And>n. n < 32 \<Longrightarrow> gate_ok m (K_IDT s) n (isr_stub s n)"
    "\<And>b. b \<notin> span (K_IDT_PTR s) 6 \<Longrightarrow> b \<notin> span (K_IDT s) 2048 \<Longrightarrow> m b = mem s b"
proof -
  define ma where "ma = store32 (store16 (mem s) (K_IDT_PTR s) (8 * 256 - 1)) (K_IDT_PTR s + 2)
    (K_IDT s - K_ADDR_ADJUST)"
  define ns where "ns = (map of_nat [0 ..< 32] :: u32 list)"
  let ?m = "map_gates (K_IDT s) (isr_stub s) ns ma"
  have e: "[0, 1, 2, 3, 4, 5, 6, 7, 8, 9, 10, 11, 12, 13, 14, 15, 16, 17, 18, 19, 20, 21, 22, 23, 24,
      25, 26, 27, 28, 29, 30, 31] = ns"
    unfolding ns_def by (rule word_upto(1))
  have lt: "\<forall>n \<in> set ns. n < (256 :: u32)" and dn: "distinct ns"
    unfolding ns_def by (rule small_gates, simp) (rule distinct_upto, simp)
  have inn: "n \<in> set ns" if "n < 32" for n
  proof -
    have "unat n < 32" using that by (simp add: word_less_nat_alt)
    then show ?thesis unfolding ns_def by (subst in_upto) simp_all
  qed
  have out: "?m b = ma b" if "b \<notin> span (K_IDT s) 2048" for b
    by (rule map_gates_outside [OF that lt])
  have ptr: "b \<in> span (K_IDT_PTR s) 6" if "b \<in> span (K_IDT_PTR s) 2 \<or> b \<in> span (K_IDT_PTR s + 2) 4" for b
    using that span_mono [of b "K_IDT_PTR s" 2 6] span_offset [of b "K_IDT_PTR s" 2 4 6] by auto
  then have "load16 ?m (K_IDT_PTR s) = load16 ma (K_IDT_PTR s)"
    "load32 ?m (K_IDT_PTR s + 2) = load32 ma (K_IDT_PTR s + 2)"
    using out assms by (auto intro!: load16_cong load32_cong)
  moreover have "load16 ma (K_IDT_PTR s) = 2047" "load32 ma (K_IDT_PTR s + 2) = K_IDT s - K_ADDR_ADJUST"
    by (simp_all add: ma_def mem_frame apart_def)
  moreover have "init_interrupts s = idt_load (s\<lparr>k_idt := K_IDT s, k_idt_ptr := K_IDT_PTR s, mem := ?m\<rparr>)"
    by (simp add: init_interrupts_def Let_def e ma_def)
  ultimately have i: "init_interrupts s = s\<lparr>k_idt := K_IDT s, k_idt_ptr := K_IDT_PTR s, mem := ?m,
      idtr := Some (2047, K_IDT s - K_ADDR_ADJUST)\<rparr>" by (simp add: idt_load_def)
  show ?thesis
  proof (rule that [OF i])
    show "gate_ok ?m (K_IDT s) n (isr_stub s n)" if "n < 32" for n
      using map_gates_ok(1) [OF dn lt] inn [OF that] by simp
    show "?m b = mem s b" if b: "b \<notin> span (K_IDT_PTR s) 6" "b \<notin> span (K_IDT s) 2048" for b
    proof -
      have "b \<notin> span (K_IDT_PTR s) 2" "b \<notin> span (K_IDT_PTR s + 2) 4" using ptr b(1) by blast+
      then show ?thesis using out [OF b(2)] by (simp add: ma_def store16_outside store32_outside)
    qed
  qed
qed

text \<open>After \<^verbatim>\<open>init_interrupts\<close> the processor's table register is loaded with a limit of 256
  gates and the table's physical address, and each of the 32 exception gates sends the processor to the
  stub of its number, through the code selector 0x10, as a present ring-0 interrupt gate.\<close>

theorem init_interrupts_gates:
  assumes "span (K_IDT_PTR s) 6 \<inter> span (K_IDT s) 2048 = {}"
  shows "idtr (init_interrupts s) = Some (2047, K_IDT s - K_ADDR_ADJUST)
    \<and> (\<forall>n < 32. gate_ok (mem (init_interrupts s)) (K_IDT s) n (isr_stub s n))"
  by (rule init_interrupts_effect [OF assms]) simp

lemma init_pic_effect:
  assumes "length (k_irq_routines s) = 16"
  obtains m where "init_pic s = Some (s\<lparr>ports := ports s @ [(0x20, 0x11), (0xA0, 0x11), (0x21, 0x20), (0xA1, 0x28),
      (0x21, 0x04), (0xA1, 0x02), (0x21, 0x01), (0xA1, 0x01), (0x21, 0x0), (0xA1, 0x0)], mem := m,
      k_irq_routines := (k_irq_routines s)[1 := Press]\<rparr>)"
    "\<And>n. 32 \<le> n \<Longrightarrow> n < 48 \<Longrightarrow> gate_ok m (k_idt s) n (irq_stub s n)"
    "\<And>n t. n < 32 \<or> 48 \<le> n \<and> n < 256 \<Longrightarrow> gate_ok m (k_idt s) n t = gate_ok (mem s) (k_idt s) n t"
    "\<And>b. b \<notin> span (k_idt s) 2048 \<Longrightarrow> m b = mem s b"
proof -
  define ns where "ns = (map of_nat [32 ..< 48] :: u32 list)"
  let ?m = "map_gates (k_idt s) (irq_stub s) ns (mem s)"
  have e: "[32, 33, 34, 35, 36, 37, 38, 39, 40, 41, 42, 43, 44, 45, 46, 47] = ns"
    unfolding ns_def by (rule word_upto(2))
  have lt: "\<forall>n \<in> set ns. n < (256 :: u32)" and dn: "distinct ns"
    unfolding ns_def by (rule small_gates, simp) (rule distinct_upto, simp)
  have inn: "n \<in> set ns \<longleftrightarrow> 32 \<le> unat n \<and> unat n < 48" for n
    unfolding ns_def by (rule in_upto) simp
  note mg = map_gates_ok [OF dn lt, where idt = "k_idt s" and stub = "irq_stub s" and m = "mem s"]
  have pic: "init_pic s = Some (s\<lparr>ports := ports s @ [(0x20, 0x11), (0xA0, 0x11), (0x21, 0x20), (0xA1, 0x28),
      (0x21, 0x04), (0xA1, 0x02), (0x21, 0x01), (0xA1, 0x01), (0x21, 0x0), (0xA1, 0x0)], mem := ?m,
      k_irq_routines := (k_irq_routines s)[1 := Press]\<rparr>)"
    using assms
    by (simp add: init_pic_def Let_def e set_irq_handler_def outportb_def)
  show ?thesis
  proof (rule that [OF pic])
    show "gate_ok ?m (k_idt s) n (irq_stub s n)" if "32 \<le> n" "n < 48" for n
      using mg(1) [of n] inn [of n] that by (simp add: word_less_nat_alt word_le_nat_alt)
    show "gate_ok ?m (k_idt s) n t = gate_ok (mem s) (k_idt s) n t"
      if "n < 32 \<or> 48 \<le> n \<and> n < 256" for n t
    proof (rule gate_cong, rule mg(2))
      show "n < 256" using that by (auto simp: word_less_nat_alt)
      show "n \<notin> set ns" using that inn [of n] by (auto simp: word_less_nat_alt word_le_nat_alt)
    qed
    show "?m b = mem s b" if "b \<notin> span (k_idt s) 2048" for b by (rule map_gates_outside [OF that lt])
  qed
qed

text \<open>\<^verbatim>\<open>init_pic\<close> programs the two controllers to deliver their 16 lines at vectors 32 to 47,
  maps those vectors to the interrupt stubs, leaves all other gates alone, and registers the keyboard
  handler.\<close>

theorem init_pic_gates:
  assumes "length (k_irq_routines s) = 16"
  shows "\<exists>s'. init_pic s = Some s'
    \<and> ports s' = ports s @ [(0x20, 0x11), (0xA0, 0x11), (0x21, 0x20), (0xA1, 0x28), (0x21, 0x04),
         (0xA1, 0x02), (0x21, 0x01), (0xA1, 0x01), (0x21, 0x0), (0xA1, 0x0)]
    \<and> (\<forall>n. 32 \<le> n \<and> n < 48 \<longrightarrow> gate_ok (mem s') (k_idt s) n (irq_stub s n))
    \<and> (\<forall>n t. n < 32 \<or> 48 \<le> n \<and> n < 256 \<longrightarrow> gate_ok (mem s') (k_idt s) n t = gate_ok (mem s) (k_idt s) n t)
    \<and> k_irq_routines s' = (k_irq_routines s)[1 := Press]"
  by (rule init_pic_effect [OF assms]) simp

section \<open>Acknowledging interrupts\<close>

text \<open>An interrupt line without a handler is acknowledged and changes nothing else: the slave
  controller is told first for lines 8 to 15, then the master.\<close>

theorem irq_handler_acknowledges:
  assumes "32 \<le> int_no r" "unat (int_no r - 32) < length (k_irq_routines s)"
    and "k_irq_routines s ! unat (int_no r - 32) = No_Routine"
  shows "irq_handler r s = Some (False, s\<lparr>ports := ports s @
    (if 40 \<le> int_no r then [(0xA0, 0x20), (0x20, 0x20)] else [(0x20, 0x20)])\<rparr>)"
  using assms
  by (simp add: irq_handler_def call_routine_def end_of_interrupt_def Let_def outportb_def)

section \<open>The TSS descriptor\<close>

lemma bit_at_sum: "\<not> bit w (24 + (n - 24)) \<Longrightarrow> bit w n \<Longrightarrow> 16 \<le> n \<Longrightarrow> n - 16 < 8" for w :: u32
  by (cases "24 \<le> n") auto

text \<open>The processor reads from the descriptor that \<^verbatim>\<open>set_tss\<close> writes the base it was given,
  and the low 16 bits of the size as the low bits of the limit; the access byte is left alone.\<close>

theorem set_tss_descriptor:
  shows "descriptor_base (mem (set_tss tss sz s)) (K_TSS s) = tss
    \<and> descriptor_limit (mem (set_tss tss sz s)) (K_TSS s) AND 0xFFFF = sz AND 0xFFFF
    \<and> mem (set_tss tss sz s) (K_TSS s + 5) = mem s (K_TSS s + 5)"
proof -
  have f: "(0xFFFF :: u32) = mask 16" "(0xFF :: u32) = mask 8" "(0xF :: u8) = mask 4" "(0xF :: u32) = mask 4"
    by (simp_all add: mask_eq_exp_minus_1)
  define d where "d = K_TSS s"
  have b: "ucast (ucast (tss AND 0xFFFF) :: u16) OR push_bit 16 (ucast (ucast (drop_bit 16 tss AND 0xFF) :: u8))
      OR push_bit 24 (ucast (ucast (drop_bit 24 tss AND 0xFF) :: u8)) = tss"
    unfolding f by (rule bit_word_eqI) (auto simp: bit_simps not_less intro: bit_at_sum)
  have l: "(ucast (ucast (sz AND 0xFFFF) :: u16) OR push_bit 16 x) AND 0xFFFF = sz AND 0xFFFF" for x
    unfolding f by (rule bit_word_eqI) (auto simp: bit_simps)
  show ?thesis
    using b l
    by (simp add: set_tss_def Let_def descriptor_base_def descriptor_limit_def mem_frame apart_def
        unsigned_minus_1_eq_mask mask_eq_exp_minus_1 flip: d_def)
qed

section \<open>\<^verbatim>\<open>has_cpuid\<close>\<close>

lemma has_cpuid_eq: "has_cpuid s = (if bit (eflags_mask s) 21 then 1 else 0, s)"
proof -
  let ?f = "eflags (cpu s)" and ?k = "eflags_mask s"
  have id: "EFLAGS_ID = push_bit 21 1" by (simp add: EFLAGS_ID_def)
  have restored: "(((?f AND NOT ?k) OR (x AND ?k)) AND NOT ?k) OR (?f AND ?k) = ?f" for x
    by (rule bit_word_eqI) (auto simp: bit_simps)
  have at: "bit (push_bit 21 1 :: u32) n \<longleftrightarrow> n = 21" for n
    unfolding bit_push_bit_iff by (auto simp: bit_1_iff)
  have x: "(((?f AND NOT ?k) OR ((?f XOR e) AND ?k)) XOR ?f) AND e = (if bit ?k 21 then e else 0)"
    if "\<And>n. bit e n \<longleftrightarrow> n = 21" for e
    by (rule bit_word_eqI) (auto simp: bit_simps that)
  note x = x [of EFLAGS_ID, unfolded id, OF at, folded id]
  have "EFLAGS_ID \<noteq> 0" by (simp add: EFLAGS_ID_def)
  then show ?thesis using restored x by (simp add: has_cpuid_def get_eflags_def set_eflags_def Let_def)
qed

text \<open>\<^verbatim>\<open>has_cpuid\<close> answers 1 exactly when the processor lets software change the ID flag,
  and leaves the flags as they were.\<close>

theorem has_cpuid_detects:
  shows "has_cpuid s = (if bit (eflags_mask s) 21 then 1 else 0, s)"
  by (rule has_cpuid_eq)

end
