(* ===== verification/Devmgr.thy ===== *)
theory Devmgr
  imports Cpu
begin

text \<open>
  The device manager \<^verbatim>\<open>drv/devmgr.c\<close>, the floppy driver \<^verbatim>\<open>drv/block/floppy/floppy.c\<close>
  and the keyboard driver's start \<^verbatim>\<open>drv/keyboard/keyboard.c\<close>. A \<^verbatim>\<open>dev_t\<close> is 24 bytes: the
  links at 0, \<^verbatim>\<open>name\<close> at 8, \<^verbatim>\<open>major\<close> at 12, \<^verbatim>\<open>minor\<close> at 14, \<^verbatim>\<open>devinfo\<close> at 16,
  \<^verbatim>\<open>devinfo_size\<close> at 20. Two functions end without the \<^verbatim>\<open>return\<close> their type asks for; their result is
  unspecified and nobody uses it, so the model has none.
\<close>

record devices = system +
  k_devs :: u32
  floppydev_types :: "u32 list"

definition d_name :: "bytes \<Rightarrow> u32 \<Rightarrow> u32" where "d_name m d = load32 m (d + 8)"
definition d_major :: "bytes \<Rightarrow> u32 \<Rightarrow> u16" where "d_major m d = load16 m (d + 12)"
definition d_minor :: "bytes \<Rightarrow> u32 \<Rightarrow> u16" where "d_minor m d = load16 m (d + 14)"
definition d_devinfo :: "bytes \<Rightarrow> u32 \<Rightarrow> u32" where "d_devinfo m d = load32 m (d + 16)"
definition d_devinfo_size :: "bytes \<Rightarrow> u32 \<Rightarrow> u32" where "d_devinfo_size m d = load32 m (d + 20)"

lemmas d_field_defs = d_name_def d_major_def d_minor_def d_devinfo_def d_devinfo_size_def

definition DEV_FLOPPY_MAJOR :: u16 where "DEV_FLOPPY_MAJOR = 0"
definition SIZEOF_DEV :: u32 where "SIZEOF_DEV = 24"
definition SIZEOF_FLOPPYDEV :: u32 where "SIZEOF_FLOPPYDEV = 8"

definition init_devices :: "'a devices_scheme \<Rightarrow> 'a devices_scheme" where
  "init_devices s = s\<lparr>mem := INIT_LIST_HEAD (k_devs s) (mem s)\<rparr>"

definition register_device ::
  "u32 \<Rightarrow> u16 \<Rightarrow> u16 \<Rightarrow> u32 \<Rightarrow> u32 \<Rightarrow> 'a devices_scheme \<Rightarrow> 'a devices_scheme option" where
  "register_device name major minor devinfo devinfo_size s = do {
     (dev, s) \<leftarrow> kmalloc SIZEOF_DEV 0 s;
     s \<leftarrow> (if dev = 0 then panic ''Couldn't allocate memory while registering device'' s else Some s);
     let m = store32 (mem s) (dev + 8) name;
     let m = store16 m (dev + 12) major;
     let m = store16 m (dev + 14) minor;
     let m = store32 m (dev + 16) devinfo;
     let m = store32 m (dev + 20) devinfo_size;
     let m = list_add dev (k_devs s) m;
     Some (s\<lparr>mem := m\<rparr>)
   }"

definition dump_devices :: "'a devices_scheme \<Rightarrow> 'a devices_scheme option" where
  "dump_devices s =
     list_for_each mem (k_devs s)
       (\<lambda>ptr s. do {
          s \<leftarrow> kprintf (rodata s (''Device Registered %d,%d %s'' @ [CHR 0x0A]))
            [ucast (d_major (mem s) ptr), ucast (d_minor (mem s) ptr), d_name (mem s) ptr] s;
          Some (s, False)
        }) (list_next (mem s) (k_devs s)) s"

definition foreachdevice ::
  "u16 \<Rightarrow> (u32 \<Rightarrow> 'a devices_scheme \<Rightarrow> 'a devices_scheme option) \<Rightarrow> 'a devices_scheme \<Rightarrow> 'a devices_scheme option" where
  "foreachdevice major do_func s =
     list_for_each mem (k_devs s)
       (\<lambda>ptr s. do {
          s \<leftarrow> (if d_major (mem s) ptr = major then do_func ptr s else Some s);
          Some (s, False)
        }) (list_next (mem s) (k_devs s)) s"

section \<open>The floppy driver\<close>

text \<open>A \<^verbatim>\<open>di_floppydev\<close> is 8 bytes: \<^verbatim>\<open>type\<close> at 0, \<^verbatim>\<open>typestr\<close> at 4.\<close>

definition dump_floppies :: "u32 \<Rightarrow> 'a devices_scheme \<Rightarrow> 'a devices_scheme option" where
  "dump_floppies dev s =
     (let info = d_devinfo (mem s) dev
      in kprintf (rodata s (''DEV0: %s %d %s'' @ [CHR 0x0A]))
           [d_name (mem s) dev, ucast (mem s info), load32 (mem s) (info + 4)] s)"

text \<open>
  The common part of the two \<^verbatim>\<open>if\<close> blocks of \<^verbatim>\<open>init_floppy\<close>. The table of names has as many
  entries as the compiler kept; a type past its end is a read outside the array.
\<close>

definition add_floppy :: "u16 \<Rightarrow> string \<Rightarrow> u16 \<Rightarrow> 'a devices_scheme \<Rightarrow> 'a devices_scheme option" where
  "add_floppy f name minor s =
     (if f \<noteq> 0 then do {
        (di, s) \<leftarrow> kmalloc SIZEOF_FLOPPYDEV 0 s;
        s \<leftarrow> (if di = 0 then panic ''Unable to kmalloc di_floppydev structure!'' s else Some s);
        let m = store8 (mem s) di (ucast f);
        (if unat f < length (floppydev_types s)
         then let m = store32 m (di + 4) (floppydev_types s ! unat f)
              in register_device (rodata s name) DEV_FLOPPY_MAJOR minor di SIZEOF_FLOPPYDEV (s\<lparr>mem := m\<rparr>)
         else None)
      } else Some s)"

definition floppy_io :: "'a devices_scheme \<Rightarrow> 'a devices_scheme option" where
  "floppy_io s = do {
     (paddr, s) \<leftarrow> alloc_pages 1 ZONE_DMA s;
     map_temp paddr 1 s
   }"

definition init_floppy :: "'a devices_scheme \<Rightarrow> 'a devices_scheme option" where
  "init_floppy s =
     (let s = outportb 0x70 0x10 s;
          i = ucast (inportb 0x71 s) :: u16;
          f0 = drop_bit 4 i; f1 = i AND 0xF
      in do {
        s \<leftarrow> add_floppy f0 ''floppy0'' 0 s;
        s \<leftarrow> add_floppy f1 ''floppy1'' 1 s;
        s \<leftarrow> foreachdevice DEV_FLOPPY_MAJOR dump_floppies s;
        floppy_io s
      })"

definition drv_keyboard_init :: "'a devices_scheme \<Rightarrow> 'a devices_scheme option" where
  "drv_keyboard_init s = kprintf (rodata s (''Starting Keyboard Driver'' @ [CHR 0x0A])) [] s"

end
