(* ===== verification/Sample.thy ===== *)
theory Sample
  imports Page_Init Heap_Props Lib_Props Cpu_Props Devmgr
begin

text \<open>
  A small machine with the layout of the real one: 32 MB in two zones, the kernel mapped high with its
  data below \<open>0xC0201000\<close>, the bitmap in the page before that, the heap after it, page tables in the
  window. The properties of the components are instantiated at states reached from it.
\<close>

definition no_regs :: cpu_regs where
  "no_regs = \<lparr>eax = 0, ebx = 0, ecx = 0, edx = 0, esi = 0, edi = 0, ebp = 0, esp = 0xC0310000, eip = 0,
     cs = 0x10, eflags = 0x202, es = 8, ds = 8, fs = 8, gs = 8\<rparr>"

definition sample :: devices where
  "sample = \<lparr>mem = (\<lambda>b. if b = 0xC0200000 then 1 else 0), ports = [], port_in = \<lambda>_. 0, panics = [],
     rodata = \<lambda>_. 0xC0100000,
     tty_w = 80, tty_h = 25, tty_color = 7, tty_x = 0, tty_y = 0, tty_scr = 0xB8000,
     kb_installed = 32768,
     page_zones = [\<lparr>allocation_flag = 1, base_page = 0, end_page = 0xFFF, usedpages = 1\<rparr>,
       \<lparr>allocation_flag = 2, base_page = 0x1000, end_page = 0x2000, usedpages = 0\<rparr>],
     num_zones = 2, total_pages = 8192, free_pages = 8191, kernel_start = 0xC0100000,
     kernel_end = 0xC0201000, page_size = 4096, brk_max = 0xFFBFC000,
     k_page_bitmap = \<lparr>bm_base = 0xC0200000, bm_limit = 8192\<rparr>, k_addrspc = \<lparr>pd = 0xFFC00000\<rparr>,
     KERNEL_START = 0xC0100000, KERNEL_END = 0xC0200000,
     heap_base = 0, heap_brk = 0, chain_hd = 0xC01F0000, total_blocks = 0, used_blocks = 0,
     temp_map_hd = 0xC01F0010,
     cpu = no_regs, current = 0, pidcnt = 0, pcount = 0, kernel_preempt = 0, proc_hd = 0xC01F0020,
     schedule_ret = 0xC0101234,
     K_IDT = 0xC01F1000, K_IDT_PTR = 0xC01F1800, K_TSS = 0xC01F1810, isr_stub = \<lambda>n. 0xC0102000 + n,
     irq_stub = \<lambda>n. 0xC0103000 + n, k_idt = 0xC01F1000, k_idt_ptr = 0xC01F1800, idtr = None, tr = 0,
     k_irq_routines = replicate 16 No_Routine, cr2 = 0xC0400123, eflags_mask = 0x200000,
     cpuid_leaf = \<lambda>_. (0, 0), k_cpu_caps = 0xC01F2000,
     k_devs = 0xC01F0030, floppydev_types = [0, 0, 0, 0, 0]\<rparr>"

lemma sample_fields [simp]:
  "mem sample b = (if b = 0xC0200000 then 1 else 0)" "num_zones sample = 2" "total_pages sample = 8192"
  "page_zones sample = [\<lparr>allocation_flag = 1, base_page = 0, end_page = 0xFFF, usedpages = 1\<rparr>,
     \<lparr>allocation_flag = 2, base_page = 0x1000, end_page = 0x2000, usedpages = 0\<rparr>]"
  "free_pages sample = 8191" "kernel_start sample = 0xC0100000" "kernel_end sample = 0xC0201000"
  "page_size sample = 4096" "brk_max sample = 0xFFBFC000"
  "k_page_bitmap sample = \<lparr>bm_base = 0xC0200000, bm_limit = 8192\<rparr>" "k_addrspc sample = \<lparr>pd = 0xFFC00000\<rparr>"
  "KERNEL_START sample = 0xC0100000" "KERNEL_END sample = 0xC0200000"
  "chain_hd sample = 0xC01F0000" "temp_map_hd sample = 0xC01F0010" "proc_hd sample = 0xC01F0020"
  "cpu sample = no_regs" "k_idt sample = 0xC01F1000" "k_irq_routines sample = replicate 16 No_Routine"
  "cr2 sample = 0xC0400123" "K_IDT sample = 0xC01F1000" "K_IDT_PTR sample = 0xC01F1800"
  by (simp_all add: sample_def)

section \<open>Paging\<close>

lemma sample_page_used: "n < 8192 \<Longrightarrow> page_used sample n \<longleftrightarrow> n = 0"
proof -
  assume "n < 8192"
  then have n: "unat n < 8192" by (simp add: word_less_nat_alt)
  have at: "0xC0200000 + n div 8 = (0xC0200000 :: u32) \<longleftrightarrow> unat n < 8"
  proof -
    have "0xC0200000 + n div 8 = (0xC0200000 :: u32) \<longleftrightarrow> unat (n div 8) = 0" by (simp add: unat_eq_0)
    also have "\<dots> \<longleftrightarrow> unat n < 8" by (simp add: unat_div div_eq_0_iff)
    finally show ?thesis .
  qed
  have "bit (if unat n < 8 then 1 else 0 :: u8) (unat (n mod 8)) \<longleftrightarrow> n = 0"
  proof (cases "unat n < 8")
    case True
    then have "unat (n mod 8) = unat n" by (simp add: unat_mod)
    then show ?thesis using True by (simp only: if_True bit_1_iff) (simp add: unat_eq_0)
  next
    case False
    then show ?thesis by auto
  qed
  then show ?thesis by (simp only: page_used_def bit_at_def sample_fields bitmap.simps at)
qed

lemma sample_zones:
  "zones sample = [\<lparr>allocation_flag = 1, base_page = 0, end_page = 0xFFF, usedpages = 1\<rparr>,
     \<lparr>allocation_flag = 2, base_page = 0x1000, end_page = 0x2000, usedpages = 0\<rparr>]"
  by (simp add: zones_def take_Cons')

lemma sample_used: "used_pages sample = {0}"
  using sample_page_used by (auto simp: used_pages_def)

lemma sample_alloc_wf: "alloc_wf sample"
proof -
  have z: "get_zone_loop n (zones sample) \<noteq> None" if "n < 8192" for n
    using that unfolding sample_zones by (auto simp: word_le_nat_alt word_less_nat_alt)
  have d: "distinct (map allocation_flag (zones sample))" by (simp add: sample_zones)
  have "zones_wf sample"
    using z d by (simp add: zones_wf_def)
  moreover have "page_used sample 0" using sample_page_used by simp
  moreover have "\<forall>z \<in> set (zones sample). usedpages z = of_nat (zone_count (zones sample) {0} z)"
    by (simp add: sample_zones)
  moreover have "free_pages sample = total_pages sample - 1" by simp
  ultimately show ?thesis by (simp add: alloc_wf_def counts_wf_def sample_used)
qed

lemma sample_window: "window_wf (k_addrspc sample) sample"
  by (simp add: window_wf_def)

lemma sample_range: "search_range ZONE_NORMAL sample = (0x1000, 0x2000)"
  by (simp add: search_range_def sample_zones zone_defs)

lemma sample_first: "is_first_fit sample (0x1000, 0x2000) 0x1000 1"
  using sample_page_used
  by (auto simp: is_first_fit_def free_run_def word_less_nat_alt)

theorem alloc_pages_first_fit_witness:
  "\<exists>p s'. alloc_pages 1 ZONE_NORMAL sample = Some (p, s') \<and> p \<noteq> 0 \<and> alloc_wf s'"
proof -
  have "\<not> no_fit sample (search_range ZONE_NORMAL sample) 1"
    using sample_first unfolding sample_range no_fit_def is_first_fit_def by auto
  then show ?thesis using alloc_pages_first_fit [OF sample_alloc_wf, of 1 ZONE_NORMAL] by (auto split: if_splits)
qed

lemma sample_tables: "load32 (mem sample) (pde_addr v) = 0" "load32 (mem sample) (pte_addr v) = 0"
proof -
  have "0xC0200000 \<notin> span (pte_addr v) 4" for v
    using page_bounds [of v] by (subst span_nat_iff) (simp_all add: unat_addrs)
  then have "mem sample b = 0" if "b \<in> span (pte_addr v) 4" for b v
    using that by auto
  then show "load32 (mem sample) (pte_addr v) = 0" for v by (rule load32_zeroed)
  then show "load32 (mem sample) (pde_addr v) = 0" by (simp add: self_map)
qed

theorem map_page_translates_witness:
  "\<exists>s'. map_page (k_addrspc sample) 0x1005000 0xC0400000 sample = Some (0xC0400000, s')
     \<and> translate (mem s') (0xC0400000 + 5) = Some (0x1005000 + 5)"
proof -
  have "table_available sample 0xC0400000"
    using sample_first unfolding table_available_def sample_range no_fit_def is_first_fit_def
    by (auto simp: sample_tables)
  from map_page_translates [OF sample_alloc_wf sample_window _ _ _ this, where p = "0x1005000"]
  obtain s' where "map_page (k_addrspc sample) 0x1005000 0xC0400000 sample = Some (0xC0400000, s')"
    "\<forall>off < 4096. translate (mem s') (0xC0400000 + off) = Some (0x1005000 + off)"
    by (auto simp: sample_tables)
  then show ?thesis by (intro exI [of _ s'] conjI) (drule spec [of _ 5], simp)+
qed

theorem unmap_page_translates_witness:
  "translate (unmap_page \<lparr>pd = 0xFFC00000\<rparr> 0xC0400000 (\<lambda>_. 1)) 0xC0400010 = None"
  using unmap_page_translates [of "\<lparr>pd = 0xFFC00000\<rparr>" "0xC0400000" "0xC0400010" "\<lambda>_. 1"] by simp

text \<open>The machine as the loader leaves it: the kernel's page table names the frames it was loaded to.\<close>

definition sample_boot :: devices where
  "sample_boot = sample\<lparr>mem := store32 (store32 (\<lambda>_. 0) 0xFFF00400 0x100003) 0xFFF00800 0x200003\<rparr>"

lemma sample_frames: "frame_of sample_boot 0xC0100000 = 256" "frame_of sample_boot 0xC0200000 = 512"
proof -
  have a: "pte_addr 0xC0100000 = 0xFFF00400" "pte_addr 0xC0200000 = 0xFFF00800" by (simp_all add: pte_addr_def)
  have "load32 (mem sample_boot) 0xFFF00800 = 0x200003" "load32 (mem sample_boot) 0xFFF00400 = 0x100003"
    by (simp_all add: sample_boot_def mem_frame apart_def)
  then show "frame_of sample_boot 0xC0100000 = 256" "frame_of sample_boot 0xC0200000 = 512"
    by (simp_all only: frame_of_def a) simp_all
qed

theorem init_paging_wf_witness:
  "\<exists>s'. init_paging sample_boot = Some s' \<and> alloc_wf s'
     \<and> used_pages s' = page_range 0 256 \<union> page_range 256 513"
proof -
  have k: "KERNEL_START sample_boot = 0xC0100000" "KERNEL_END sample_boot = 0xC0200000" by (simp_all add: sample_boot_def)
  show ?thesis using init_paging_wf [of sample_boot] unfolding k sample_frames by auto
qed

theorem init_page_allocator_wf_witness:
  "\<exists>s'. init_page_allocator (paging_start sample_boot) = Some s' \<and> alloc_wf s'"
proof -
  let ?s = "paging_start sample_boot"
  have f: "frame_of ?s v = frame_of sample_boot v" "kernel_start ?s = 0xC0100000" "kernel_end ?s = 0xC0200000"
    "total_pages ?s = 8192" for v
    by (simp_all add: frame_of_def paging_start_def sample_boot_def)
  have "fresh_paging ?s" by (rule paging_start_fresh) (simp add: sample_boot_def)
  from init_page_allocator_wf [OF this refl refl _ refl] show ?thesis
    by (simp add: f sample_frames bitmap_frames_def) blast
qed

section \<open>The heap\<close>

definition sample_heap :: devices where
  "sample_heap = init_heap sample"

lemma sample_head_clear:
  "head_clear 0xC01F0000 0xC0201000 0xFFBFC000" "apart 0xC01F0000 8 0xC01F0010 8"
  by (simp_all add: head_clear_def apart_def)

lemma sample_heap_wf: "heap_wf sample_heap []" "heap_brk sample_heap = 0xC0201000" "brk_max sample_heap = 0xFFBFC000"
  "chain_hd sample_heap = 0xC01F0000"
proof -
  show "heap_wf sample_heap []"
    unfolding sample_heap_def by (rule init_heap_wf) (simp_all add: sample_head_clear)
qed (simp_all add: sample_heap_def init_heap_def Let_def)

theorem init_heap_empty_witness: "heap_owned (init_heap sample) = {}"
  using init_heap_empty [of sample] by (simp add: sample_head_clear)

lemma sample_room: "heap_room n sample_heap \<longleftrightarrow> unat n < 0x3F9FAFEC"
  by (simp add: heap_room_def sample_heap_wf)

theorem kmalloc_first_fit_witness:
  "\<exists>s' xs. kmalloc 64 0 sample_heap = Some (0xC0201014, s') \<and> heap_wf s' xs \<and> heap_brk s' = 0xC0201054"
  using kmalloc_first_fit [OF sample_heap_wf(1), of 64 0] by (auto simp: sample_room sample_heap_wf)

definition sample_alloc :: devices where
  "sample_alloc = snd (the (kmalloc 64 0 sample_heap))"

lemma sample_alloc_facts:
  "kmalloc 64 0 sample_heap = Some (0xC0201014, sample_alloc)"
  "\<exists>xs. heap_wf sample_alloc xs \<and> 0xC0201000 \<in> set xs" "mh_used (mem sample_alloc) 0xC0201000"
  "heap_brk sample_alloc = 0xC0201054" "brk_max sample_alloc = 0xFFBFC000"
proof -
  from kmalloc_result [OF sample_heap_wf(1), of 64 0] obtain p s' xs' where
    k: "kmalloc 64 0 sample_heap = Some (p + 20, s')" and r: "alloc_result 64 sample_heap [] p s' xs'"
    by (auto simp: sample_heap_wf)
  have p: "p = 0xC0201000" "heap_brk s' = 0xC0201054" using r by (simp_all add: alloc_result_def sample_heap_wf)
  have s: "s' = sample_alloc" using k by (simp add: sample_alloc_def)
  have "s' = sample_heap\<lparr>heap_brk := heap_brk s', mem := mem s', total_blocks := total_blocks s', used_blocks := used_blocks s'\<rparr>"
    using r unfolding alloc_result_def by blast
  from arg_cong [OF this, of brk_max] have "brk_max s' = 0xFFBFC000" by (simp add: sample_heap_wf)
  show "kmalloc 64 0 sample_heap = Some (0xC0201014, sample_alloc)"
  "\<exists>xs. heap_wf sample_alloc xs \<and> 0xC0201000 \<in> set xs" "mh_used (mem sample_alloc) 0xC0201000"
  "heap_brk sample_alloc = 0xC0201054" "brk_max sample_alloc = 0xFFBFC000"
    using k r p s \<open>brk_max s' = 0xFFBFC000\<close> by (auto simp: alloc_result_def)
qed

lemma sample_owned: "\<exists>k. (0xC0201014, k) \<in> heap_owned sample_alloc"
proof -
  from sample_alloc_facts(2) obtain xs where "heap_wf sample_alloc xs" "0xC0201000 \<in> set xs" by blast
  with sample_alloc_facts(3) show ?thesis by (auto simp: heap_owned_eq image_iff)
qed

theorem kmalloc_separate_witness:
  "\<exists>p s'. kmalloc 100 0 sample_alloc = Some (p, s') \<and> 0xC0201014 \<in> fst ` heap_owned s'"
proof -
  from sample_alloc_facts(2) obtain xs where "heap_wf sample_alloc xs" by blast
  moreover from sample_owned obtain k where "(0xC0201014, k) \<in> heap_owned sample_alloc" by blast
  moreover have "heap_room 100 sample_alloc" by (simp add: heap_room_def sample_alloc_facts)
  ultimately show ?thesis using kmalloc_separate [of sample_alloc xs 100 "0xC0201014" k] by force
qed

theorem kfree_releases_witness: "\<exists>s'. kfree 0xC0201014 sample_alloc = Some s' \<and> \<not> mh_used (mem s') 0xC0201000"
proof -
  from sample_alloc_facts(2) obtain xs where "heap_wf sample_alloc xs" "0xC0201000 \<in> set xs" by blast
  from kfree_releases [OF this sample_alloc_facts(3)] show ?thesis by auto
qed

theorem kmalloc_kfree_witness:
  "\<exists>p s' s''. kmalloc 100 0 sample_alloc = Some (p, s') \<and> kfree p s' = Some s''
     \<and> heap_owned s'' = heap_owned sample_alloc"
proof -
  from sample_alloc_facts(2) obtain xs where "heap_wf sample_alloc xs" by blast
  from kmalloc_kfree [OF this, of 100] show ?thesis by (auto simp: heap_room_def sample_alloc_facts)
qed

theorem double_free_breaks_count_witness:
  "\<exists>s1 s2 xs. kfree 0xC0201014 sample_alloc = Some s1 \<and> heap_wf s1 xs \<and> kfree 0xC0201014 s1 = Some s2 \<and> \<not> heap_wf s2 xs"
proof -
  from sample_alloc_facts(2) obtain xs where x: "heap_wf sample_alloc xs" "0xC0201000 \<in> set xs" by blast
  note k = kfree_result [OF x sample_alloc_facts(3)]
  from double_free_breaks_count [OF k(2) x(2)] k(3) k(1,2) show ?thesis by auto
qed

theorem heapchecker_silent_witness: "heapchecker_walk sample_heap = Some sample_heap"
  by (rule heapchecker_silent [OF sample_heap_wf(1)])

theorem grow_stores_through_null_witness:
  "\<exists>s'. kmalloc_grow 64 sample_heap = Some (0xC0201000, s') \<and> mem s' 16 = 0"
  using grow_stores_through_null [OF sample_heap_wf(1), of 64] by (auto simp: sample_room sample_heap_wf)

text \<open>The machine with the panic message and its format in memory, and the heap at its end.\<close>

definition text_bytes :: "string \<Rightarrow> u8 list" where
  "text_bytes txt = map of_char txt @ [0]"

definition poke :: "u32 \<Rightarrow> u8 list \<Rightarrow> bytes \<Rightarrow> bytes" where
  "poke a bs m = (\<lambda>x. if x \<in> span a (length bs) then bs ! unat (x - a) else m x)"

lemma poke_text: "length bs < 4294967296 \<Longrightarrow> text_at (poke a bs m) a bs"
  by (simp add: poke_def text_at_nth span_iff unat_of_nat)

lemma poke_other:
  "text_at m b bs' \<Longrightarrow> apart b (length bs') a (length bs) \<Longrightarrow> length bs' < 4294967296 \<Longrightarrow> text_at (poke a bs m) b bs'"
  by (erule text_at_cong) (auto simp: poke_def dest: apart_disjoint)

definition kbrk_message :: string where
  "kbrk_message = ''Unable to kbrk - Reached max_brk!'' @ [CHR 0x0A]"

definition panic_text :: string where
  "panic_text = ''PANIC! - %s'' @ [CHR 0x0A]"

definition sample_short :: devices where
  "sample_short = init_heap (sample\<lparr>brk_max := 0xC0201060\<rparr>)"

definition sample_near :: devices where
  "sample_near = snd (the (kmalloc 64 0 sample_short))"

definition sample_full :: devices where
  "sample_full = sample_near\<lparr>rodata := (\<lambda>msg. if msg = kbrk_message then 0xC0100100 else 0xC0100000),
     mem := poke 0xC0100100 (text_bytes kbrk_message) (poke 0xC0100000 (text_bytes panic_text) (mem sample_near))\<rparr>"

lemma sample_near_facts:
  "\<exists>xs. heap_wf sample_near xs \<and> set xs = {0xC0201000}"
  "heap_base sample_near = 0xC0201000" "heap_brk sample_near = 0xC0201054" "brk_max sample_near = 0xC0201060"
  "chain_hd sample_near = 0xC01F0000" "tty_wf sample_near" "screen sample_near = span 0xB8000 4000"
proof -
  have wf: "heap_wf sample_short []"
    unfolding sample_short_def by (rule init_heap_wf) (simp_all add: head_clear_def apart_def)
  have f: "heap_brk sample_short = 0xC0201000" "heap_base sample_short = 0xC0201000" "brk_max sample_short = 0xC0201060"
    "chain_hd sample_short = 0xC01F0000" "tty_wf sample_short" "screen sample_short = span 0xB8000 4000"
    by (simp_all add: sample_short_def init_heap_def Let_def tty_wf_def screen_def sample_def)
  have room: "heap_room 64 sample_short" "find (fits (mem sample_short) 64) [] = None" by (simp_all add: f heap_room_def)
  obtain s' xs where k: "kmalloc 64 0 sample_short = Some (heap_brk sample_short + 20, s')" and w1: "heap_wf s' xs"
    "set xs = insert (heap_brk sample_short) (set [])" "unat (heap_brk s') = unat (heap_brk sample_short) + 20 + unat (64 :: u32)"
    and e: "s' = sample_short\<lparr>heap_brk := heap_brk s', mem := mem s', total_blocks := total_blocks s', used_blocks := used_blocks s'\<rparr>"
    by (rule alloc_at_break [OF wf _ room(2,1), of 0]) (simp, rule that, assumption+)
  then have w: "heap_wf s' xs" "set xs = {0xC0201000}" "unat (heap_brk s') = unat (heap_brk sample_short) + 20 + unat (64 :: u32)"
    by (simp_all add: f)
  have s: "s' = sample_near" using k by (simp add: sample_near_def)
  show "\<exists>xs. heap_wf sample_near xs \<and> set xs = {0xC0201000}" using w(1,2) s by blast
  show "heap_brk sample_near = 0xC0201054" using w(3) s by (simp add: f word_unat_eq_iff)
  obtain a b c d where e': "sample_near = sample_short\<lparr>heap_brk := a, mem := b, total_blocks := c, used_blocks := d\<rparr>"
    using e s by blast
  show "heap_base sample_near = 0xC0201000" "brk_max sample_near = 0xC0201060"
    "chain_hd sample_near = 0xC01F0000" "tty_wf sample_near" "screen sample_near = span 0xB8000 4000"
    using f by (simp_all add: e' tty_wf_def screen_def)
qed

lemma sample_full_wf: "\<exists>xs. heap_wf sample_full xs \<and> set xs = {0xC0201000}"
proof -
  obtain xs where x: "heap_wf sample_near xs" "set xs = {0xC0201000}" using sample_near_facts(1) by blast
  have "mem sample_full b = mem sample_near b" if "0xC01F0000 \<le> unat b" for b
    using that by (simp add: sample_full_def poke_def text_bytes_def kbrk_message_def panic_text_def span_nat_iff)
  moreover have "heap_base sample_full = heap_base sample_near" "heap_brk sample_full = heap_brk sample_near"
    "brk_max sample_full = brk_max sample_near" "chain_hd sample_full = chain_hd sample_near"
    "total_blocks sample_full = total_blocks sample_near" "used_blocks sample_full = used_blocks sample_near"
    by (simp_all add: sample_full_def)
  ultimately have "heap_wf sample_full xs"
    by (intro heap_wf_frame [OF x(1), of "mem sample_full"]) (auto simp: x(2) sample_near_facts span_nat_iff)
  then show ?thesis using x(2) by blast
qed

lemma sample_full_ready: "panic_ready kbrk_message sample_full"
proof -
  let ?f = "text_bytes panic_text" and ?m = "text_bytes kbrk_message"
  have l: "length ?f = 13" "length ?m = 35" by (simp_all add: text_bytes_def kbrk_message_def panic_text_def)
  have scr: "screen sample_full = span 0xB8000 4000" "tty_wf sample_full"
    using sample_near_facts(6,7) by (simp_all add: screen_def tty_wf_def sample_full_def)
  have "text_at (mem sample_full) 0xC0100100 ?m"
    by (simp add: sample_full_def poke_text l)
  then have cm: "cstring (mem sample_full) 0xC0100100 (map of_char kbrk_message)"
    by (simp only: cstring_text text_bytes_def) (simp add: kbrk_message_def)
  have "text_at (mem sample_full) 0xC0100000 ?f"
    unfolding sample_full_def by (simp, rule poke_other) (simp_all add: poke_text l apart_def)
  then have cf: "cstring (mem sample_full) 0xC0100000 (map of_char panic_text)"
    by (simp only: cstring_text text_bytes_def) (simp add: panic_text_def)
  have r: "concat (map render panic_format) = map of_char panic_text"
    by (simp add: panic_format_def panic_text_def)
  have d: "span 0xC0100000 n \<inter> span 0xB8000 4000 = {}" "span 0xC0100100 n \<inter> span 0xB8000 4000 = {}"
    if "n \<le> 64" for n using that by (auto simp: span_nat_iff)
  have "format_at sample_full 0xC0100000 panic_format [String 0xC0100100 (map of_char kbrk_message)]"
    unfolding format_at_def r scr using cf cm d by (simp add: arg_ok_def kbrk_message_def panic_text_def scr panic_format_def)
  moreover note scr(2)
  moreover have "rodata sample_full kbrk_message = 0xC0100100" "rodata sample_full panic_text = 0xC0100000"
    by (simp_all add: sample_full_def kbrk_message_def panic_text_def)
  ultimately show ?thesis unfolding panic_ready_def panic_text_def [symmetric] by metis
qed

theorem ksbrk_exhausted_witness:
  "(\<exists>s'. ksbrk 64 sample_full = Some (0xC0201014, s') \<and> heap_brk s' = 0xC0201054)
    \<and> span 0xC0201014 64 \<subseteq> span 0xC0201000 (20 + unat (mh_size (mem sample_full) 0xC0201000))"
proof -
  have f: "heap_base sample_full = 0xC0201000" "heap_brk sample_full = 0xC0201054" "brk_max sample_full = 0xC0201060"
    using sample_near_facts(2-4) by (simp_all add: sample_full_def)
  obtain xs where x: "heap_wf sample_full xs" "set xs = {0xC0201000}" using sample_full_wf by blast
  show ?thesis
    using ksbrk_exhausted [of 64 sample_full xs, folded kbrk_message_def, OF _ _ sample_full_ready] x by (auto simp: f)
qed

section \<open>Interrupts\<close>

definition sample_regs :: regs where
  "sample_regs = \<lparr>int_no = 46, err_code = 0, r_eax = 0, r_ebx = 0, r_ecx = 0, r_edx = 0, r_eip = 0, r_cs = 0x10\<rparr>"

theorem page_fault_maps_witness:
  "\<exists>c s'. page_fault sample_regs sample = Some s' \<and> page_used s' c \<and> translate (mem s') 0xC0400123 = Some (c * 4096 + 0x123)"
proof -
  have "{0x1000, 0x1001} \<subseteq> free_frames ZONE_NORMAL sample"
    using sample_page_used by (simp add: free_frames_def sample_range)
  then have "2 \<le> card (free_frames ZONE_NORMAL sample)"
    using card_mono [of "free_frames ZONE_NORMAL sample" "{0x1000, 0x1001}"] by simp
  from page_fault_maps [OF sample_alloc_wf sample_window _ this, of sample_regs] show ?thesis
    by (auto simp: sample_tables)
qed

text \<open>The machine with 16 MB, where the normal zone is empty, and with a page table for the fault.\<close>

definition sample_small :: devices where
  "sample_small = sample\<lparr>num_zones := 1, total_pages := 4096, free_pages := 4095,
     mem := store32 (mem sample) (pde_addr 0xC0400123) 0x300003\<rparr>"

lemma sample_small_wf: "alloc_wf sample_small" "window_wf (k_addrspc sample_small) sample_small"
  "free_frames ZONE_NORMAL sample_small = {}"
proof -
  have k: "k_page_bitmap sample_small = k_page_bitmap sample" "total_pages sample_small = 4096"
    by (simp_all add: sample_small_def)
  have z: "zones sample_small = [\<lparr>allocation_flag = 1, base_page = 0, end_page = 0xFFF, usedpages = 1\<rparr>]"
    by (simp add: zones_def sample_small_def)
  have out: "mem sample_small b = mem sample b" if "b \<in> bitmap_bytes (k_page_bitmap sample)" for b
  proof -
    have "store32 (mem sample) (pte_addr (table_addr 0xC0400123)) 0x300003 b = mem sample b"
      by (rule window_stores(1) [OF sample_window that, of 0]) simp
    moreover have "mem sample_small = store32 (mem sample) (pde_addr 0xC0400123) 0x300003" by (simp add: sample_small_def)
    ultimately show ?thesis by (simp only: self_map)
  qed
  have u: "page_used sample_small n \<longleftrightarrow> n = 0" if "n < 4096" for n
  proof -
    have n: "n < 8192" using that by (simp add: word_less_nat_alt)
    have "page_used (sample\<lparr>mem := mem sample_small\<rparr>) n = page_used sample n"
      using n out by (intro page_used_mem) simp_all
    then show ?thesis using sample_page_used [OF n] by (simp add: page_used_def k)
  qed
  have used: "used_pages sample_small = {0}" using u by (auto simp: used_pages_def k)
  have "get_zone_loop n (zones sample_small) \<noteq> None" if "n < 4096" for n
    using that by (auto simp: z word_le_nat_alt word_less_nat_alt)
  then have "zones_wf sample_small" by (simp add: zones_wf_def k z) (simp add: sample_small_def)
  moreover have "\<forall>z \<in> set (zones sample_small). usedpages z = of_nat (zone_count (zones sample_small) {0} z)"
    by (simp add: z)
  ultimately show "alloc_wf sample_small" using u [of 0] by (simp add: alloc_wf_def counts_wf_def used) (simp add: sample_small_def)
  show "window_wf (k_addrspc sample_small) sample_small" by (simp add: window_wf_def sample_small_def)
  show "free_frames ZONE_NORMAL sample_small = {}"
    by (simp add: free_frames_def search_range_def z zone_defs)
qed

theorem page_fault_exhausted_witness:
  "\<exists>s'. page_fault sample_regs sample_small = Some s' \<and> translate (mem s') 0xC0400123 = Some 0x123"
proof -
  have c: "cr2 sample_small = 0xC0400123" by (simp add: sample_small_def)
  have "load32 (mem sample_small) (pde_addr 0xC0400123) = 0x300003"
    by (simp add: sample_small_def mem_frame)
  moreover have "apart (pte_addr 0xC0400123) 4 (pde_addr 0xC0400123) 4" by (simp add: apart_def pte_addr_def pde_addr_def)
  then have "load32 (mem sample_small) (pte_addr 0xC0400123) = 0"
    using sample_tables(2) [of "0xC0400123"] by (simp add: sample_small_def mem_frame)
  ultimately show ?thesis
    using page_fault_exhausted [OF sample_small_wf(1,2) _ sample_small_wf(3), of sample_regs] by (auto simp: c flag_defs)
qed

theorem init_interrupts_gates_witness:
  "idtr (init_interrupts sample) = Some (2047, 0x2F1000)
    \<and> gate_ok (mem (init_interrupts sample)) 0xC01F1000 14 (isr_stub sample 14)"
proof -
  have "span (K_IDT_PTR sample) 6 \<inter> span (K_IDT sample) 2048 = {}"
    by (auto simp: span_nat_iff)
  from init_interrupts_gates [OF this] show ?thesis by (simp add: K_ADDR_ADJUST_def)
qed

theorem init_pic_gates_witness:
  "\<exists>s'. init_pic sample = Some s' \<and> gate_ok (mem s') 0xC01F1000 33 (irq_stub sample 33)
    \<and> k_irq_routines s' ! 1 = Press"
  using init_pic_gates [of sample] by auto

theorem irq_handler_acknowledges_witness:
  "irq_handler sample_regs sample = Some (False, sample\<lparr>ports := ports sample @ [(0xA0, 0x20), (0x20, 0x20)]\<rparr>)"
  using irq_handler_acknowledges [of sample_regs sample] by (simp add: sample_regs_def)

end
