(* ===== verification/Sched_Run.thy ===== *)
theory Sched_Run
  imports Sched
begin

text \<open>
  Runs of the kernel: timer interrupts that call \<^verbatim>\<open>schedule\<close>, calls of \<^verbatim>\<open>process_sleep\<close>, and
  what processes do in between, as a labelled step relation on the machine. Every step follows the
  abstract scheduler on the views of the processes; mutual exclusion on the CPU, bounded waiting and
  the length of a sleep are proved for all runs.
\<close>

section \<open>One call of the abstract scheduler\<close>

definition run_inv :: "u32 list \<Rightarrow> (u32 \<Rightarrow> pview) \<Rightarrow> u32 \<Rightarrow> bool" where
  "run_inv order V cur \<longleftrightarrow> (\<forall>p \<in> set order. v_state (V p) = PROC_RUNNING \<longrightarrow> p = cur)"

lemma spec_schedule_run_inv:
  assumes "run_inv order V cur" "spec_schedule order V cur = Some (sw, n, V')"
  shows "run_inv order V' n \<and> (sw \<longrightarrow> n \<in> set order \<and> v_state (V' n) = PROC_RUNNING)"
proof (cases "v_ticks (tick (V cur)) = 0")
  case False
  then show ?thesis using assms by (auto simp: spec_schedule_stay run_inv_def split: if_splits)
next
  case True
  let ?Vb = "demote (tick \<circ> V) cur"
  have none: "v_state (?Vb p) \<noteq> PROC_RUNNING" if "p \<in> set order" for p
  proof -
    have "v_state (V p) = PROC_RUNNING \<Longrightarrow> p = cur" using that assms(1) by (simp add: run_inv_def)
    then show ?thesis by (cases "p = cur") (auto simp: demote_def)
  qed
  obtain W where W: "spec_select order ?Vb = Some (n, W)" "sw"
    "V' = W(n := account ((W n)\<lparr>v_state := PROC_RUNNING\<rparr>))"
    using assms(2) unfolding spec_schedule_switch [of V cur order, OF True] by auto
  note r = spec_select_result [OF W(1)]
  show ?thesis using r(1,4) none W(2) unfolding W(3) run_inv_def by simp
qed

definition total_ticks :: "u32 list \<Rightarrow> (u32 \<Rightarrow> pview) \<Rightarrow> nat" where
  "total_ticks order V = sum_list (map (\<lambda>p. unat (v_ticks (V p))) order)"

lemma total_ticks_account:
  assumes "distinct order" "p \<in> set order" "v_ticks (V p) \<noteq> 0" "v_ticks w = v_ticks (V p)"
  shows "Suc (total_ticks order (V(p := account w))) = total_ticks order V"
proof -
  obtain us vs where o: "order = us @ p # vs" using split_list [OF assms(2)] by blast
  with assms(1) have np: "p \<notin> set us" "p \<notin> set vs" by auto
  have m: "map (\<lambda>q. unat (v_ticks ((V(p := account w)) q))) qs = map (\<lambda>q. unat (v_ticks (V q))) qs"
    if "p \<notin> set qs" for qs using that by (auto intro: map_cong)
  have d: "unat (v_ticks (V p)) = Suc (unat (v_ticks (account w)))"
    using account_ticks_dec [of w] assms(3,4) by simp
  show ?thesis
    unfolding total_ticks_def o map_append list.map m [OF np(1)] m [OF np(2)] by (simp add: d)
qed

lemma total_ticks_pos:
  assumes "p \<in> set order" "eligible (V p)"
  shows "0 < total_ticks order V"
proof -
  have "0 < unat (v_ticks (V p))" using assms(2) by (simp add: eligible_def unat_gt_0 word_gt_0)
  moreover have "unat (v_ticks (V p)) \<le> total_ticks order V"
    using assms(1) unfolding total_ticks_def by (intro member_le_sum_list) auto
  ultimately show ?thesis by simp
qed

lemma spec_schedule_progress:
  assumes "distinct order" "p \<in> set order" "cur \<in> set order" "eligible (V p)" "p \<noteq> cur"
  obtains sw n V' where "spec_schedule order V cur = Some (sw, n, V')" "n \<in> set order"
    "Suc (total_ticks order V') = total_ticks order V" "p = n \<or> eligible (V' p)"
proof (cases "v_ticks (tick (V cur)) = 0")
  case False
  let ?V1 = "(tick \<circ> V)(cur := account (tick (V cur)))"
  have "Suc (total_ticks order ?V1) = total_ticks order (tick \<circ> V)"
    using total_ticks_account [OF assms(1,3), of "tick \<circ> V"] False by simp
  then show ?thesis
    using False assms by (intro that [of False cur ?V1]) (simp_all add: spec_schedule_stay total_ticks_def)
next
  case True
  define Vb where "Vb = demote (tick \<circ> V) cur"
  have ep: "eligible (Vb p)" using assms(4,5) by (simp add: Vb_def demote_def)
  have tb: "total_ticks order Vb = total_ticks order V"
    by (auto simp: total_ticks_def Vb_def demote_def intro!: arg_cong [of _ _ sum_list] map_cong)
  obtain n where n: "find (\<lambda>q. eligible (Vb q)) order = Some n"
    using ep assms(2) by (cases "find (\<lambda>q. eligible (Vb q)) order") (auto simp: find_None_iff)
  then have n': "n \<in> set order" "eligible (Vb n)" by (auto simp: find_Some_iff)
  let ?V1 = "Vb(n := account ((Vb n)\<lparr>v_state := PROC_RUNNING\<rparr>))"
  have "spec_schedule order V cur = Some (True, n, ?V1)"
    using n by (simp add: spec_schedule_switch [of V cur order, OF True] spec_select_def flip: Vb_def)
  moreover have "Suc (total_ticks order ?V1) = total_ticks order V"
    using total_ticks_account [OF assms(1) n'(1), of Vb] n'(2) tb by (simp add: eligible_def word_gt_0)
  ultimately show ?thesis using n'(1) ep by (intro that [of True n ?V1]) auto
qed

text \<open>A sleeper other than a current process with ticks left is counted down and not selected before
  its time is over.\<close>

lemma spec_schedule_sleeper:
  assumes "spec_schedule order V cur = Some (sw, n, V')" "v_state (V p) = PROC_SLEEPING"
    and "p = cur \<Longrightarrow> v_ticks (V p) = 0"
  shows "if v_timeout (V p) = 1 then v_state (V' p) \<noteq> PROC_SLEEPING
    else n \<noteq> p \<and> v_state (V' p) = PROC_SLEEPING \<and> v_timeout (V' p) = v_timeout (V p) - 1"
proof (cases "v_ticks (tick (V cur)) = 0")
  case False
  then have "p \<noteq> cur" using assms(3) by auto
  then show ?thesis
    using assms(1,2) False tick_sleeping [of "V p"] by (auto simp: spec_schedule_stay)
next
  case True
  let ?Vb = "demote (tick \<circ> V) cur"
  have nr: "v_state (tick (V p)) \<noteq> PROC_RUNNING" using assms(2) by simp
  then have b: "?Vb p = tick (V p)" by (auto simp: demote_def)
  obtain W where W: "spec_select order ?Vb = Some (n, W)"
    "V' = W(n := account ((W n)\<lparr>v_state := PROC_RUNNING\<rparr>))"
    using assms(1) unfolding spec_schedule_switch [of V cur order, OF True] by auto
  note r = spec_select_result [OF W(1)]
  have t: "v_timeout (W p) = v_timeout (?Vb p)"
    using W(1) by (auto simp: spec_select_def refill_def split: option.splits)
  show ?thesis
    using r(2) r(4) [of p] t b W(2) assms(2) tick_sleeping [of "V p"]
    by (cases "v_timeout (V p) = 1"; cases "n = p") auto
qed

section \<open>Runs\<close>

datatype event = Timer | Sleep u32 | Run

text \<open>The kernel can be entered: the list is sound, preemption is on and the stack is elsewhere.\<close>

definition kready :: "'a kernel_scheme \<Rightarrow> u32 list \<Rightarrow> bool" where
  "kready s pl \<longleftrightarrow> procs_wf s pl \<and> current s \<in> set pl \<and> stack_clear s pl
     \<and> is_kernel_preempt s \<noteq> 0 \<and> pcount s \<noteq> 0"

text \<open>What the current process may do between two entries: anything that leaves the list and the
  scheduling fields of the processes alone.\<close>

definition same_procs :: "'a kernel_scheme \<Rightarrow> 'a kernel_scheme \<Rightarrow> u32 list \<Rightarrow> bool" where
  "same_procs s s' pl \<longleftrightarrow> procs_wf s' pl \<and> current s' = current s
     \<and> (\<forall>p \<in> set pl. view (mem s') p = view (mem s) p)"

inductive kstep :: "u32 list \<Rightarrow> 'a kernel_scheme \<Rightarrow> event \<Rightarrow> 'a kernel_scheme \<Rightarrow> bool" for pl where
  timer: "kready s pl \<Longrightarrow> schedule s = Some (sw, s') \<Longrightarrow> kstep pl s Timer s'"
| sleep: "kready s pl \<Longrightarrow> process_sleep n s = Some (sw, s') \<Longrightarrow> kstep pl s (Sleep n) s'"
| run: "same_procs s s' pl \<Longrightarrow> kstep pl s Run s'"

inductive kexec :: "u32 list \<Rightarrow> 'a kernel_scheme \<Rightarrow> event list \<Rightarrow> 'a kernel_scheme \<Rightarrow> bool" for pl where
  none: "kexec pl s [] s"
| step: "kstep pl s e s1 \<Longrightarrow> kexec pl s1 evs s' \<Longrightarrow> kexec pl s (e # evs) s'"

inductive_cases kstep_timer: "kstep pl s Timer s'"
inductive_cases kstep_sleep: "kstep pl s (Sleep n) s'"
inductive_simps kexec_simps: "kexec pl s [] s'" "kexec pl s (e # evs) s'"

text \<open>The number of scheduler calls in a run.\<close>

definition calls :: "event list \<Rightarrow> nat" where
  "calls evs = length (filter (\<lambda>e. e \<noteq> Run) evs)"

lemma calls_simps [simp]:
  "calls [] = 0" "calls (Run # evs) = calls evs" "e \<noteq> Run \<Longrightarrow> calls (e # evs) = Suc (calls evs)"
  by (simp_all add: calls_def)

definition asleep :: "(u32 \<Rightarrow> pview) \<Rightarrow> u32 \<Rightarrow> u32 \<Rightarrow> u32 \<Rightarrow> pview" where
  "asleep V c n = V(c := (V c)\<lparr>v_state := PROC_SLEEPING, v_ticks := 0, v_timeout := n\<rparr>)"

fun spec_event ::
  "u32 list \<Rightarrow> event \<Rightarrow> (u32 \<Rightarrow> pview) \<Rightarrow> u32 \<Rightarrow> (bool \<times> u32 \<times> (u32 \<Rightarrow> pview)) option" where
  "spec_event order Timer V cur = spec_schedule order V cur"
| "spec_event order (Sleep n) V cur = spec_schedule order (asleep V cur n) cur"
| "spec_event order Run V cur = Some (False, cur, V)"

definition psound :: "'a kernel_scheme \<Rightarrow> u32 list \<Rightarrow> bool" where
  "psound s pl \<longleftrightarrow> procs_wf s pl \<and> current s \<in> set pl"

abbreviation views :: "'a kernel_scheme \<Rightarrow> u32 \<Rightarrow> pview" where
  "views s \<equiv> view (mem s)"

lemma kstep_spec:
  assumes "kstep pl s e s'" "psound s pl"
  shows "psound s' pl \<and> (\<exists>sw V. spec_event pl e (views s) (current s) = Some (sw, current s', V)
    \<and> (\<forall>p \<in> set pl. views s' p = V p))"
  using assms(1)
proof cases
  case (timer sw)
  then show ?thesis using schedule_effect [of s pl]
    by (auto simp: kready_def psound_def split: option.splits)
next
  case (sleep n sw)
  then show ?thesis using process_sleep_effect [of s pl n]
    by (auto simp: kready_def psound_def asleep_def split: option.splits)
next
  case run
  then show ?thesis using assms(2) by (auto simp: same_procs_def psound_def)
qed

lemma kexec_invariant:
  assumes "kexec pl s evs s'" "psound s pl \<and> P s"
    and "\<And>s e s'. kstep pl s e s' \<Longrightarrow> psound s pl \<Longrightarrow> P s \<Longrightarrow> P s'"
  shows "psound s' pl \<and> P s'"
  using assms(1,2) by induction (use kstep_spec assms(3) in blast)+

section \<open>Properties of runs\<close>

lemma run_inv_cong:
  "(\<And>p. p \<in> set order \<Longrightarrow> V p = V' p) \<Longrightarrow> run_inv order V cur \<longleftrightarrow> run_inv order V' cur"
  by (auto simp: run_inv_def)

lemma kstep_run_inv:
  assumes "kstep pl s e s'" "psound s pl" "run_inv pl (views s) (current s)"
  shows "run_inv pl (views s') (current s')"
proof -
  from kstep_spec [OF assms(1,2)] obtain sw V where
    e: "spec_event pl e (views s) (current s) = Some (sw, current s', V)"
    and v: "\<And>p. p \<in> set pl \<Longrightarrow> views s' p = V p" by blast
  have "run_inv pl (asleep (views s) (current s) n) (current s)" for n
    using assms(3) by (simp add: run_inv_def asleep_def)
  then have "run_inv pl V (current s')"
    using e assms(3) by (cases e) (auto dest: spec_schedule_run_inv)
  then show ?thesis using run_inv_cong [of pl "views s'" V] v by simp
qed

text \<open>C16: At most one process of the list is ever marked as running, and it is the current one: every
  run of timer interrupts, sleeps and process steps keeps this, and keeps the list of processes well
  formed with the current process in it.\<close>

theorem one_running_process:
  assumes "kexec pl s evs s'" "procs_wf s pl" "current s \<in> set pl"
    and "\<forall>p \<in> set pl. p_state (mem s) p = PROC_RUNNING \<longrightarrow> p = current s"
  shows "procs_wf s' pl \<and> current s' \<in> set pl
    \<and> (\<forall>p \<in> set pl. p_state (mem s') p = PROC_RUNNING \<longrightarrow> p = current s')"
proof -
  have r: "run_inv pl (views s) (current s) \<longleftrightarrow> (\<forall>p \<in> set pl. p_state (mem s) p = PROC_RUNNING \<longrightarrow> p = current s)"
    for s :: "'a kernel_scheme" by (simp add: run_inv_def view_def)
  have "psound s' pl \<and> run_inv pl (views s') (current s')"
  proof (rule kexec_invariant [OF assms(1)])
    show "psound s pl \<and> run_inv pl (views s) (current s)" using assms(2-4) by (simp add: psound_def r)
  qed (rule kstep_run_inv)
  then show ?thesis by (simp add: psound_def r)
qed

lemma kstep_waiter:
  assumes "kstep pl s e s'" "psound s pl" "p \<in> set pl" "eligible (views s p)" "p \<noteq> current s"
  shows "if e = Run then eligible (views s' p) \<and> p \<noteq> current s'
      \<and> total_ticks pl (views s') = total_ticks pl (views s)
    else total_ticks pl (views s') < total_ticks pl (views s) \<and> (p = current s' \<or> eligible (views s' p))"
proof -
  from kstep_spec [OF assms(1,2)] obtain sw V where
    e: "spec_event pl e (views s) (current s) = Some (sw, current s', V)"
    and v: "\<And>p. p \<in> set pl \<Longrightarrow> views s' p = V p" by blast
  have d: "distinct pl" and c: "current s \<in> set pl"
    using assms(2) by (auto simp: psound_def procs_wf_def procs_mem_def procs_apart_def)
  have t: "total_ticks pl (views s') = total_ticks pl V"
    using v by (auto simp: total_ticks_def intro!: arg_cong [of _ _ sum_list] map_cong)
  have le: "total_ticks pl (asleep (views s) (current s) n) \<le> total_ticks pl (views s)" for n
    unfolding total_ticks_def by (rule sum_list_mono) (simp add: asleep_def)
  have el: "eligible (asleep (views s) (current s) n p)" for n using assms(4,5) by (simp add: asleep_def)
  show ?thesis
  proof (cases e)
    case Timer
    obtain sw1 n V1 where n: "spec_schedule pl (views s) (current s) = Some (sw1, n, V1)"
      "Suc (total_ticks pl V1) = total_ticks pl (views s)" "p = n \<or> eligible (V1 p)"
      by (rule spec_schedule_progress [where V = "views s", OF d assms(3) c assms(4,5)])
    then have "V1 = V" "n = current s'" using e Timer by simp_all
    then show ?thesis using n(2,3) t v [OF assms(3)] Timer by auto
  next
    case (Sleep k)
    obtain sw1 n V1 where n: "spec_schedule pl (asleep (views s) (current s) k) (current s) = Some (sw1, n, V1)"
      "Suc (total_ticks pl V1) = total_ticks pl (asleep (views s) (current s) k)" "p = n \<or> eligible (V1 p)"
      by (rule spec_schedule_progress [where V = "asleep (views s) (current s) k", OF d assms(3) c el assms(5)])
    then have "V1 = V" "n = current s'" using e Sleep by simp_all
    then show ?thesis using n(2,3) t v [OF assms(3)] Sleep le [of k] by auto
  next
    case Run
    then show ?thesis using e t v assms(3-5) by auto
  qed
qed

text \<open>C15: Nobody starves: in every run, a process of the list that is ready with ticks left becomes the
  current process at the latest at the scheduler call whose number is the sum of the ticks left in the
  list, whatever the others do.\<close>

theorem bounded_wait:
  assumes "kexec pl s evs s'" "procs_wf s pl" "current s \<in> set pl" "p \<in> set pl"
    and "p_state (mem s) p = PROC_READY" "p_ticks (mem s) p > 0"
    and "(\<Sum>q \<leftarrow> pl. unat (p_ticks (mem s) q)) \<le> calls evs"
  shows "\<exists>evs1 evs2 s1. evs = evs1 @ evs2 \<and> kexec pl s evs1 s1 \<and> kexec pl s1 evs2 s' \<and> current s1 = p"
proof -
  have "psound s pl" "eligible (views s p)" "total_ticks pl (views s) \<le> calls evs"
    using assms(2-7) by (simp_all add: psound_def eligible_def total_ticks_def view_def)
  with assms(1) show ?thesis
  proof (induction s evs s' rule: kexec.induct)
    case (none s)
    then show ?case using total_ticks_pos [OF assms(4), of "views s"] by simp
  next
    case (step s e s1 evs s')
    show ?case
    proof (cases "p = current s")
      case True
      then show ?thesis using step.hyps by (intro exI [of _ "[]"] exI [of _ "e # evs"] exI [of _ s]) (simp add: kexec.intros)
    next
      case False
      note w = kstep_waiter [OF step.hyps(1) step.prems(1) assms(4) step.prems(2) False]
      have "\<exists>evs1 evs2 s2. evs = evs1 @ evs2 \<and> kexec pl s1 evs1 s2 \<and> kexec pl s2 evs2 s' \<and> current s2 = p"
      proof (cases "p = current s1")
        case True
        then show ?thesis using step.hyps(2) by (intro exI [of _ "[]"] exI [of _ evs] exI [of _ s1]) (simp add: kexec.intros)
      next
        case False
        have "psound s1 pl" using kstep_spec [OF step.hyps(1) step.prems(1)] by blast
        moreover have "eligible (views s1 p)" "total_ticks pl (views s1) \<le> calls evs"
          using w False step.prems(3) by (cases "e = Run"; simp)+
        ultimately show ?thesis by (rule step.IH)
      qed
      then obtain evs1 evs2 s2 where "evs = evs1 @ evs2" "kexec pl s1 evs1 s2" "kexec pl s2 evs2 s'" "current s2 = p"
        by blast
      then show ?thesis using step.hyps(1)
        by (intro exI [of _ "e # evs1"] exI [of _ evs2] exI [of _ s2]) (auto simp: kexec_simps)
    qed
  qed
qed

section \<open>How long a sleep lasts\<close>

text \<open>The number of scheduler calls that a timeout lasts: 0 wraps.\<close>

definition sleep_span :: "u32 \<Rightarrow> nat" where
  "sleep_span n = (if n = 0 then 2 ^ 32 else unat n)"

lemma sleep_span_dec: "n \<noteq> 1 \<Longrightarrow> sleep_span n = Suc (sleep_span (n - 1))" and sleep_span_one: "sleep_span 1 = 1"
proof -
  show "n \<noteq> 1 \<Longrightarrow> sleep_span n = Suc (sleep_span (n - 1))"
  proof (cases "n = 0")
    case True
    then show ?thesis by (simp add: sleep_span_def unsigned_minus_1_eq_mask mask_eq_exp_minus_1)
  next
    case False
    assume "n \<noteq> 1"
    then have "unat (n - 1) = unat n - 1" "n - 1 \<noteq> 0" using False by (simp_all add: unat_minus_one)
    moreover have "unat n \<noteq> 0" using False by (simp add: unat_eq_0)
    ultimately show ?thesis using False by (simp add: sleep_span_def)
  qed
qed (simp add: sleep_span_def)

lemma kstep_sleeper:
  assumes "kstep pl s e s'" "psound s pl" "p \<in> set pl" "p_state (mem s) p = PROC_SLEEPING" "p \<noteq> current s"
  shows "if e = Run then views s' p = views s p \<and> p \<noteq> current s'
    else if p_timeout (mem s) p = 1 then p_state (mem s') p \<noteq> PROC_SLEEPING
    else p \<noteq> current s' \<and> p_state (mem s') p = PROC_SLEEPING \<and> p_timeout (mem s') p = p_timeout (mem s) p - 1"
proof -
  from kstep_spec [OF assms(1,2)] obtain sw V where
    e: "spec_event pl e (views s) (current s) = Some (sw, current s', V)"
    and v: "views s' p = V p" using assms(3) by blast
  have s: "v_state (views s p) = PROC_SLEEPING" "v_state (asleep (views s) (current s) n p) = PROC_SLEEPING"
    "asleep (views s) (current s) n p = views s p" for n
    using assms(4,5) by (simp_all add: view_def asleep_def)
  show ?thesis
    using e v assms(5) spec_schedule_sleeper [of pl _ "current s" sw "current s'" V p] s
    by (cases e) (fastforce simp flip: view_sels)+
qed

lemma sleep_span_is_one: "sleep_span n = 1 \<longleftrightarrow> n = 1"
proof -
  have "unat n = Suc 0 \<longleftrightarrow> n = 1" by (metis unat_1 unsigned_word_eqI One_nat_def)
  then show ?thesis by (simp add: sleep_span_def)
qed

lemma kexec_sleeper:
  assumes "kexec pl s evs s'" "psound s pl" "p \<in> set pl" "p_state (mem s) p = PROC_SLEEPING" "p \<noteq> current s"
    and "calls evs < sleep_span (p_timeout (mem s) p)"
  shows "psound s' pl \<and> p_state (mem s') p = PROC_SLEEPING \<and> p \<noteq> current s'
    \<and> p_timeout (mem s') p = p_timeout (mem s) p - of_nat (calls evs)
    \<and> sleep_span (p_timeout (mem s) p - of_nat (calls evs)) + calls evs = sleep_span (p_timeout (mem s) p)"
  using assms
proof (induction s evs s' rule: kexec.induct)
  case (step s e s1 evs s')
  have ps: "psound s1 pl" using kstep_spec [OF step.hyps(1) step.prems(1)] by blast
  note k = kstep_sleeper [OF step.hyps(1) step.prems(1-4)]
  show ?case
  proof (cases "e = Run")
    case True
    then have "views s1 p = views s p" "p \<noteq> current s1" using k by simp_all
    then show ?thesis using step.IH [OF ps] step.prems True by (simp flip: view_sels)
  next
    case False
    have n1: "p_timeout (mem s) p \<noteq> 1"
      using step.prems(5) False sleep_span_one by auto
    note d = sleep_span_dec [OF n1]
    then show ?thesis using step.IH [OF ps] step.prems k n1 False by (simp add: algebra_simps)
  qed
qed simp

text \<open>C20: A process that calls \<^verbatim>\<open>process_sleep n\<close>, \<open>n \<noteq> 1\<close>, is marked asleep, gets no CPU and has
  its timeout counted down through all but the last of the next \<open>n\<close> scheduler calls, of which the
  sleep itself makes the first; for \<open>n = 0\<close> these are \<open>2 ^ 32\<close> calls, as the timeout wraps. The last
  one ends the sleep.\<close>

theorem sleep_duration:
  assumes "kexec pl s (Sleep n # evs) s'" "procs_wf s pl" "current s \<in> set pl"
    and "p = current s" "n \<noteq> 1" "Suc (calls evs) < (if n = 0 then 2 ^ 32 else unat n)"
  shows "p_state (mem s') p = PROC_SLEEPING \<and> p_timeout (mem s') p = n - of_nat (Suc (calls evs))
    \<and> current s' \<noteq> p
    \<and> (\<forall>s''. kstep pl s' Timer s'' \<longrightarrow> Suc (Suc (calls evs)) = (if n = 0 then 2 ^ 32 else unat n) \<longrightarrow>
         p_state (mem s'') p \<noteq> PROC_SLEEPING)"
proof -
  have ps: "psound s pl" using assms(2,3) by (simp add: psound_def)
  obtain s1 where s1: "kstep pl s (Sleep n) s1" "kexec pl s1 evs s'" using assms(1) by (auto simp: kexec_simps)
  from kstep_spec [OF s1(1) ps] obtain sw V where ps1: "psound s1 pl"
    and e: "spec_schedule pl (asleep (views s) p n) p = Some (sw, current s1, V)" and v: "views s1 p = V p"
    using assms(3,4) by auto
  have a: "asleep (views s) p n p = (views s p)\<lparr>v_state := PROC_SLEEPING, v_ticks := 0, v_timeout := n\<rparr>"
    by (simp add: asleep_def)
  have first: "p \<noteq> current s1" "p_state (mem s1) p = PROC_SLEEPING" "p_timeout (mem s1) p = n - 1"
    using spec_schedule_sleeper [OF e, of p] v assms(5) by (auto simp: a simp flip: view_sels)
  have d: "sleep_span n = Suc (sleep_span (n - 1))" by (rule sleep_span_dec [OF assms(5)])
  have n: "sleep_span n = (if n = 0 then 2 ^ 32 else unat n)" by (simp add: sleep_span_def)
  have p: "p \<in> set pl" using assms(3,4) by simp
  have "psound s' pl \<and> p_state (mem s') p = PROC_SLEEPING \<and> p \<noteq> current s'
    \<and> p_timeout (mem s') p = n - 1 - of_nat (calls evs) \<and> sleep_span (n - 1 - of_nat (calls evs)) + calls evs = sleep_span (n - 1)"
    using kexec_sleeper [OF s1(2) ps1 p first(2,1)] assms(6) d n by (simp add: first(3))
  moreover from this have "p_state (mem s'') p \<noteq> PROC_SLEEPING"
    if "kstep pl s' Timer s''" "Suc (Suc (calls evs)) = sleep_span n" for s''
  proof -
    have "sleep_span (p_timeout (mem s') p) = 1" using calculation that(2) d by simp
    then have "p_timeout (mem s') p = 1" by (simp only: sleep_span_is_one)
    then show ?thesis using kstep_sleeper [OF that(1) _ p] calculation by auto
  qed
  ultimately show ?thesis unfolding n by (auto simp: algebra_simps)
qed

end
