(* ===== verification/Create.thy ===== *)
theory Create
  imports Sched Heap_Props
begin

text \<open>
  Creation of a process: \<^verbatim>\<open>create_process\<close> takes two blocks from the heap, the process structure
  and its stack, fills them in and appends the process to the list. The components meet here: the
  heap's invariant, the process list and the frame that the context switch restores.
\<close>

section \<open>Creating a process\<close>

text \<open>Bytes that no operation of the heap touches.\<close>

definition off_heap :: "'a heap_scheme \<Rightarrow> u32 set \<Rightarrow> bool" where
  "off_heap s B \<longleftrightarrow> (\<forall>b \<in> B. b \<notin> span (chain_hd s) 8 \<and> b \<noteq> 16
     \<and> \<not> (unat (heap_base s) \<le> unat b \<and> unat b < unat (brk_max s)))"

lemma list_add_tail_outside:
  assumes "dlist m h xs" "b \<notin> span new 8" "\<And>x. x \<in> set (h # xs) \<Longrightarrow> b \<notin> span x 8"
  shows "list_add_tail new h m b = m b"
proof -
  have n: "list_prev m h \<in> set (h # xs)" using dlist_prev [OF assms(1)] by (simp split: if_splits)
  have lo: "b \<notin> span y 4" if "b \<notin> span y 8" for y using that by (simp add: span_iff)
  have hi: "b \<notin> span (y + 4) 4" if "b \<notin> span y 8" for y using span_offset [of b y 4 4 8] that by auto
  show ?thesis
    using assms(2) assms(3) [OF n] assms(3) [of h]
    by (simp add: list_add_tail_def list_add_between_def Let_def set_next_def set_prev_def store32_outside lo hi)
qed

text \<open>
  Where \<^verbatim>\<open>create_process\<close> is called: sound heap and process list, the processes in blocks of the heap,
  list head and name off the heap, no free block to reuse, and room for the two new blocks.
\<close>

definition create_pre :: "'a kernel_scheme \<Rightarrow> u32 list \<Rightarrow> u32 list \<Rightarrow> u32 \<Rightarrow> u8 list \<Rightarrow> bool" where
  "create_pre s xs pl name bs \<longleftrightarrow> heap_wf s xs \<and> procs_wf s pl \<and> page_size s = 4096
     \<and> find (fits (mem s) 84) xs = None \<and> unat (heap_brk s) + 4224 < unat (brk_max s)
     \<and> (\<forall>q \<in> set pl. \<exists>k \<ge> 84. (q, k) \<in> heap_owned s) \<and> off_heap s (span (proc_hd s) 8)
     \<and> cstring (mem s) name bs \<and> length bs < 4096 \<and> off_heap s (span name (Suc (length bs)))"

text \<open>The addresses of the new structure and of its stack.\<close>

definition new_proc :: "'a heap_scheme \<Rightarrow> u32" where "new_proc s = heap_brk s + 20"
definition new_stack :: "'a heap_scheme \<Rightarrow> u32" where "new_stack s = heap_brk s + 124"

lemma new_bounds:
  assumes "create_pre s xs pl name bs"
  shows "unat (new_proc s) = unat (heap_brk s) + 20" "unat (heap_brk s + 104) = unat (heap_brk s) + 104"
    "unat (new_stack s) = unat (heap_brk s) + 124"
    "b \<in> span (new_proc s) 84 \<longleftrightarrow> unat (heap_brk s) + 20 \<le> unat b \<and> unat b < unat (heap_brk s) + 104"
    "b \<in> span (new_stack s) 4099 \<longleftrightarrow> unat (heap_brk s) + 124 \<le> unat b \<and> unat b < unat (heap_brk s) + 4223"
    "b \<in> span (heap_brk s) 20 \<longleftrightarrow> unat (heap_brk s) \<le> unat b \<and> unat b < unat (heap_brk s) + 20"
    "b \<in> span (heap_brk s + 104) 20 \<longleftrightarrow> unat (heap_brk s) + 104 \<le> unat b \<and> unat b < unat (heap_brk s) + 124"
proof -
  have r: "unat (heap_brk s) + 4224 < 4294967296"
    using assms unat_less_2p32 [of "brk_max s"] unfolding create_pre_def by linarith
  then show u: "unat (new_proc s) = unat (heap_brk s) + 20" "unat (heap_brk s + 104) = unat (heap_brk s) + 104"
    "unat (new_stack s) = unat (heap_brk s) + 124"
    using unat_plus_small [of "heap_brk s" 20] unat_plus_small [of "heap_brk s" 104] unat_plus_small [of "heap_brk s" 124]
    by (simp_all add: new_proc_def new_stack_def)
  show "b \<in> span (new_proc s) 84 \<longleftrightarrow> unat (heap_brk s) + 20 \<le> unat b \<and> unat b < unat (heap_brk s) + 104"
    "b \<in> span (new_stack s) 4099 \<longleftrightarrow> unat (heap_brk s) + 124 \<le> unat b \<and> unat b < unat (heap_brk s) + 4223"
    "b \<in> span (heap_brk s) 20 \<longleftrightarrow> unat (heap_brk s) \<le> unat b \<and> unat b < unat (heap_brk s) + 20"
    "b \<in> span (heap_brk s + 104) 20 \<longleftrightarrow> unat (heap_brk s) + 104 \<le> unat b \<and> unat b < unat (heap_brk s) + 124"
    using r by (auto simp: span_nat_iff u)
qed

text \<open>Nothing of the old state lies beyond the break.\<close>

lemma beyond_break:
  assumes pre: "create_pre s xs pl name bs" and b: "unat (heap_brk s) \<le> unat b" "unat b < unat (brk_max s)"
  shows "b \<notin> span (chain_hd s) 8" "b \<noteq> 16" "x \<in> set xs \<Longrightarrow> b \<notin> span x 20" "q \<in> set pl \<Longrightarrow> b \<notin> span q 84"
    "b \<notin> span (proc_hd s) 8" "b \<notin> span name (Suc (length bs))"
proof -
  have wf: "heap_wf s xs" and own: "\<forall>q \<in> set pl. \<exists>k \<ge> 84. (q, k) \<in> heap_owned s"
    and off: "off_heap s (span (proc_hd s) 8)" "off_heap s (span name (Suc (length bs)))"
    using pre by (simp_all add: create_pre_def)
  then have sh: "heap_shape s xs" by (simp add: heap_wf_def)
  then have hc: "head_clear (chain_hd s) (heap_base s) (brk_max s)" and l: "laid_out (unat (heap_base s)) (unat (heap_brk s)) (mh_size (mem s)) xs"
    by (simp_all add: heap_shape_def)
  have base: "unat (heap_base s) \<le> unat (heap_brk s)" using l by (simp add: laid_out_def)
  have "b \<in> span (heap_base s) (unat (brk_max s) - unat (heap_base s))"
    using b base unat_less_2p32 [of "brk_max s"] by (subst span_nat_iff) auto
  then show "b \<notin> span (chain_hd s) 8"
    using hc apart_disjoint apart_sym unfolding head_clear_def by blast
  have "unat b \<noteq> 16" using hc base b by (auto simp: head_clear_def)
  then show "b \<noteq> 16" by auto
  show "b \<notin> span x 20" if "x \<in> set xs"
    using block_bounds(2) [OF sh that] b(1) span_nat_iff [of x 20 b] unat_less_2p32 [of "heap_brk s"] by auto
  show "b \<notin> span q 84" if q: "q \<in> set pl"
  proof -
    obtain x k where x: "x \<in> set xs" "q = x + 20" "84 \<le> unat (mh_size (mem s) x)"
      using own q heap_owned_eq [OF wf] by auto
    note bb = block_bounds [OF sh x(1)]
    have "unat q + 84 \<le> unat (heap_brk s)" using bb x(2,3) by simp
    then show ?thesis using b(1) span_nat_iff [of q 84 b] unat_less_2p32 [of "heap_brk s"] by auto
  qed
  show "b \<notin> span (proc_hd s) 8" "b \<notin> span name (Suc (length bs))"
    using off b base unfolding off_heap_def by (meson le_trans)+
qed

text \<open>What belongs to processes and names is not touched by the heap's own writes.\<close>

lemma process_bytes:
  assumes pre: "create_pre s xs pl name bs"
    and b: "(\<exists>q \<in> set pl. b \<in> span q 84) \<or> b \<in> span (proc_hd s) 8 \<or> b \<in> span name (Suc (length bs))"
  shows "b \<notin> span (chain_hd s) 8" "b \<noteq> 16" "x \<in> set xs \<Longrightarrow> b \<notin> span x 20"
    "\<not> (unat (heap_brk s) \<le> unat b \<and> unat b < unat (brk_max s))"
proof -
  have wf: "heap_wf s xs" and own: "\<forall>q \<in> set pl. \<exists>k \<ge> 84. (q, k) \<in> heap_owned s"
    and off: "off_heap s (span (proc_hd s) 8)" "off_heap s (span name (Suc (length bs)))"
    using pre by (simp_all add: create_pre_def)
  then have sh: "heap_shape s xs" by (simp add: heap_wf_def)
  show brk: "\<not> (unat (heap_brk s) \<le> unat b \<and> unat b < unat (brk_max s))"
    using b beyond_break(4-6) [OF pre] by blast
  have pay: "\<exists>y \<in> set xs. b \<in> span (y + 20) (unat (mh_size (mem s) y))" if q: "q \<in> set pl" "b \<in> span q 84" for q
  proof -
    obtain k where k: "84 \<le> k" "(q, k) \<in> heap_owned s" using own q(1) by blast
    then obtain y where "y \<in> set xs" "q = y + 20" "k = unat (mh_size (mem s) y)" using heap_owned_eq [OF wf] by auto
    then show ?thesis using span_mono [OF q(2) k(1)] by blast
  qed
  have far: "b \<notin> span x 20" if x: "x \<in> set xs" and o: "off_heap s {b}" for x
  proof -
    have lo: "unat (heap_base s) \<le> unat x" using sh x by (auto simp: heap_shape_def laid_out_def)
    have hi: "unat x + 20 \<le> unat (brk_max s)" using block_bounds(2) [OF sh x] sh by (simp add: heap_shape_def)
    show ?thesis using o lo hi unat_less_2p32 [of "brk_max s"] span_nat_iff [of x 20 b] by (auto simp: off_heap_def)
  qed
  have "(\<exists>y \<in> set xs. b \<in> span (y + 20) (unat (mh_size (mem s) y))) \<or> off_heap s {b}"
    using b pay off unfolding off_heap_def by blast
  then show "b \<notin> span (chain_hd s) 8" "b \<noteq> 16" "x \<in> set xs \<Longrightarrow> b \<notin> span x 20"
    using payload_frame [OF sh] far by (auto simp: off_heap_def)
qed

text \<open>The new structure after \<^verbatim>\<open>memset\<close>, the process id and \<^verbatim>\<open>strncpy\<close> of the name.\<close>

definition filled :: "u32 \<Rightarrow> u32 \<Rightarrow> u32 \<Rightarrow> bytes \<Rightarrow> bytes" where
  "filled p pid name m = fst (strncpy (set_p_pid p pid (memset m p 0 SIZEOF_PROCESS)) (p_name p) name (32 - 1))"

lemma apartI: "b \<notin> span a n \<Longrightarrow> a \<notin> span b k \<Longrightarrow> apart a n b k"
  by (simp add: apart_def span_iff)

lemma filled_apply:
  assumes pre: "create_pre s xs pl name bs" and m: "\<And>b. b \<in> span name (Suc (length bs)) \<Longrightarrow> m b = mem s b"
  shows "filled (new_proc s) pid name m b =
    (if b \<in> span (p_name (new_proc s)) (min (length bs) 31) then mem s (name + (b - p_name (new_proc s)))
     else set_p_pid (new_proc s) pid (memset m (new_proc s) 0 84) b)"
proof -
  let ?P = "new_proc s"
  let ?m = "set_p_pid ?P pid (memset m ?P 0 84)"
  note nb = new_bounds [OF pre]
  have r: "unat (heap_brk s) + 4224 < unat (brk_max s)" "length bs < 4096" and cs: "cstring (mem s) name bs"
    using pre by (simp_all add: create_pre_def)
  have old: "\<not> (unat (heap_brk s) \<le> unat b \<and> unat b < unat (brk_max s))" if "b \<in> span name (Suc (length bs))" for b
    by (rule process_bytes(4) [OF pre]) (use that in simp)
  have out: "b \<notin> span ?P 84" if "b \<in> span name (Suc (length bs))" for b
    using old [OF that] r(1) by (simp add: nb) linarith
  have "?m b = m b" if "b \<notin> span ?P 84" for b
  proof -
    have "b \<notin> span (?P + 20) 4" using that span_offset [of b ?P 20 4 84] by auto
    then show ?thesis using that by (simp add: set_p_defs store32_outside)
  qed
  then have same: "?m b = mem s b" if "b \<in> span name (Suc (length bs))" for b using that out m by simp
  have c: "cstring ?m name bs"
    using cstring_cong [of name bs ?m "mem s"] same cs r(2) by simp
  have un: "unat (p_name ?P) = unat (heap_brk s) + 52"
    using unat_plus_small [of ?P 32] r(1) unat_less_2p32 [of "brk_max s"] by (simp add: p_name_def nb)
  have "apart (p_name ?P) (Suc (length bs)) name (Suc (length bs))"
  proof (rule apartI)
    show "name \<notin> span (p_name ?P) (Suc (length bs))"
      using old [OF self_in_span] r span_nat_iff [of "p_name ?P" "Suc (length bs)" name] unat_less_2p32 [of "brk_max s"]
      by (auto simp: un)
    show "p_name ?P \<notin> span name (Suc (length bs))" using old [of "p_name ?P"] un r by linarith
  qed
  from strncpy_cstring [OF c this, of "min (length bs) 31" 31] r(2)
  have "filled ?P pid name m b = (if b \<in> span (p_name ?P) (min (length bs) 31) then ?m (name + (b - p_name ?P)) else ?m b)"
    by (simp add: filled_def SIZEOF_PROCESS_def)
  moreover have "?m (name + (b - p_name ?P)) = mem s (name + (b - p_name ?P))" if "b \<in> span (p_name ?P) (min (length bs) 31)"
    using that by (intro same) (simp add: span_iff)
  ultimately show ?thesis by simp
qed

lemma filled_facts:
  assumes pre: "create_pre s xs pl name bs" and m: "\<And>b. b \<in> span name (Suc (length bs)) \<Longrightarrow> m b = mem s b"
    and M: "M = filled (new_proc s) pid name m"
  shows "b \<notin> span (new_proc s) 84 \<Longrightarrow> M b = m b" "p_pid M (new_proc s) = pid" "p_timeout M (new_proc s) = 0"
    "cstring M (p_name (new_proc s)) (take 31 bs)"
proof -
  let ?P = "new_proc s"
  note fa = filled_apply [OF pre m, where pid = pid, folded M]
  have nm: "b \<in> span (p_name ?P) (min (length bs) 31) \<Longrightarrow> b \<in> span (?P + 32) 31" for b
    unfolding p_name_def by (erule span_mono) simp
  show "M b = m b" if "b \<notin> span ?P 84"
  proof -
    have "b \<notin> span (?P + 20) 4" "b \<notin> span (?P + 32) 31"
      using that span_offset [of b ?P 20 4 84] span_offset [of b ?P 32 31 84] by auto
    then show ?thesis using that nm by (auto simp: fa set_p_defs store32_outside)
  qed
  have "M b = set_p_pid ?P pid (memset m ?P 0 84) b" if "b \<in> span (?P + 20) 4" for b
  proof -
    have "b \<notin> span (?P + 32) 31" using that apart_disjoint [of "?P + 20" 4 "?P + 32" 31 b] by (simp add: apart_def)
    then show ?thesis using nm by (auto simp: fa)
  qed
  then have "load32 M (?P + 20) = load32 (set_p_pid ?P pid (memset m ?P 0 84)) (?P + 20)" by (rule load32_cong)
  then show "p_pid M ?P = pid" by (simp add: p_field_defs set_p_defs)
  have zero: "M b = 0" if "b \<in> span ?P 84" "b \<notin> span (p_name ?P) (min (length bs) 31)" "b \<notin> span (?P + 20) 4" for b
    using that by (simp add: fa set_p_defs store32_outside)
  have "M b = 0" if "b \<in> span (?P + 68) 4" for b
  proof -
    have "b \<notin> span (?P + 32) 31" "b \<notin> span (?P + 20) 4" "b \<in> span ?P 84"
      using that apart_disjoint [of "?P + 68" 4 "?P + 32" 31 b] apart_disjoint [of "?P + 68" 4 "?P + 20" 4 b]
        span_offset [OF that, of 84] by (simp_all add: apart_def)
    then show ?thesis using nm zero by blast
  qed
  then show "p_timeout M ?P = 0" unfolding p_timeout_def by (rule load32_zeroed)
  have cs: "\<forall>i < length (bs @ [0]). mem s (name + of_nat i) = (bs @ [0]) ! i" "0 \<notin> set bs"
    using pre by (simp_all add: create_pre_def cstring_text text_at_nth del: text_at_append)
  show "cstring M (p_name ?P) (take 31 bs)"
    unfolding cstring_text text_at_nth
  proof (intro conjI allI impI)
    show "0 \<notin> set (take 31 bs)" using cs(2) in_set_takeD by fastforce
    fix i assume "i < length (take 31 bs @ [0 :: u8])"
    then have i: "i \<le> min (length bs) 31" by (simp add: less_Suc_eq_le)
    then have u: "unat (of_nat i :: u32) = i" by (simp add: unat_of_nat)
    show "M (p_name ?P + of_nat i) = (take 31 bs @ [0]) ! i"
    proof (cases "i < min (length bs) 31")
      case True
      have "p_name ?P + of_nat i \<in> span (p_name ?P) (min (length bs) 31)" using u True by (simp add: span_iff)
      then have "M (p_name ?P + of_nat i) = mem s (name + of_nat i)" using fa [of "p_name ?P + of_nat i"] by simp
      also have "\<dots> = bs ! i" using cs(1) True by (auto simp: nth_append)
      finally show ?thesis using True by (simp add: nth_append)
    next
      case False
      let ?b = "p_name ?P + of_nat i"
      have "?b \<in> span (?P + 32) 32" using u i by (simp add: p_name_def span_iff)
      then have "?b \<in> span ?P 84" "?b \<notin> span (?P + 20) 4"
        using span_offset [of ?b ?P 32 32 84] apart_disjoint [of "?P + 32" 32 "?P + 20" 4 ?b] by (simp_all add: apart_def)
      moreover have "?b \<notin> span (p_name ?P) (min (length bs) 31)" using False u by (simp add: span_iff)
      ultimately have "M ?b = 0" using zero by blast
      moreover have "(take 31 bs @ [0]) ! i = 0"
      proof -
        have "i = min (length bs) 31" using False i by linarith
        then have "i = length (take 31 bs)" by simp
        then show ?thesis by (simp only: nth_append_length)
      qed
      ultimately show ?thesis by simp
    qed
  qed
qed

text \<open>The first allocation, with the block filled in: the next one finds no free block either.\<close>

lemma create_first:
  assumes pre: "create_pre s xs pl name bs"
  obtains s1 xs1 M where "kmalloc 84 0 s = Some (new_proc s, s1)" "M = filled (new_proc s) (pidcnt s) name (mem s1)"
    "chain_hd s1 = chain_hd s" "brk_max s1 = brk_max s" "pidcnt s1 = pidcnt s" "page_size s1 = page_size s"
    "heap_brk s1 = heap_brk s + 104" "heap_wf (s1\<lparr>mem := M, pidcnt := pidcnt s + 1\<rparr>) xs1" "set xs1 = insert (heap_brk s) (set xs)"
    "mh_size M (heap_brk s) = 84" "mh_used M (heap_brk s)" "keeps (set xs) (mem s) M" "find (fits M 4096) xs1 = None"
    "\<And>b. b \<in> span name (Suc (length bs)) \<Longrightarrow> mem s1 b = mem s b"
    "\<And>b. b \<notin> span (chain_hd s) 8 \<Longrightarrow> b \<noteq> 16 \<Longrightarrow> \<forall>x \<in> set xs1. b \<notin> span x 20 \<Longrightarrow>
      b \<notin> span (new_proc s) 84 \<Longrightarrow> M b = mem s b"
    "s1 = s\<lparr>heap_brk := heap_brk s1, mem := mem s1, total_blocks := total_blocks s1, used_blocks := used_blocks s1\<rparr>"
proof -
  let ?P = "new_proc s" and ?B = "heap_brk s"
  note nb = new_bounds [OF pre]
  have wf: "heap_wf s xs" and no: "find (fits (mem s) 84) xs = None" and r: "unat ?B + 4224 < unat (brk_max s)"
    using pre by (simp_all add: create_pre_def)
  have room: "heap_room 84 s" using r by (simp add: heap_room_def)
  obtain s1 xs1 where k1: "kmalloc 84 0 s = Some (?B + 20, s1)" and w1: "heap_wf s1 xs1"
    and x1: "set xs1 = insert ?B (set xs)" and b1: "unat (heap_brk s1) = unat ?B + 20 + unat (84 :: u32)"
    and z1: "mh_size (mem s1) ?B = 84" "mh_used (mem s1) ?B" and kp1: "keeps (set xs) (mem s) (mem s1)"
    and f1: "chain_frame (chain_hd s) xs1 (mem s) (mem s1)"
    and lo: "\<forall>x \<in> set xs. unat x + 20 + unat (mh_size (mem s) x) \<le> unat ?B"
    and e1: "s1 = s\<lparr>heap_brk := heap_brk s1, mem := mem s1, total_blocks := total_blocks s1, used_blocks := used_blocks s1\<rparr>"
    by (rule alloc_at_break [OF wf _ no room, of 0]) simp_all
  have fld: "chain_hd s1 = chain_hd s" "brk_max s1 = brk_max s" "pidcnt s1 = pidcnt s" "page_size s1 = page_size s"
    using arg_cong [OF e1, of chain_hd] arg_cong [OF e1, of brk_max] arg_cong [OF e1, of pidcnt]
      arg_cong [OF e1, of page_size] by simp_all
  have brk1: "heap_brk s1 = ?B + 104" using b1 nb(2) by (simp add: word_unat_eq_iff)
  have name: "mem s1 b = mem s b" if "b \<in> span name (Suc (length bs))" for b
  proof -
    have "b \<notin> span x 20" if "x \<in> set xs1" for x
      using that process_bytes(3,4) [OF pre, of b] \<open>b \<in> span name (Suc (length bs))\<close> r nb(6) [of b] unfolding x1 by auto
    then show ?thesis using f1 process_bytes(1,2) [OF pre, of b] that by (auto simp: chain_frame_def)
  qed
  define M where "M = filled ?P (pidcnt s) name (mem s1)"
  note fo = filled_facts(1) [OF pre name M_def]
  have hdr: "b \<notin> span ?P 84" if "x \<in> set xs1" "b \<in> span x 20" for x b
    using that lo span_nat_iff [of x 20 b] unat_less_2p32 [of ?B] nb(4,6) [of b] unfolding x1 by fastforce
  have ch: "b \<notin> span ?P 84" if "b \<in> span (chain_hd s) 8" for b
    using that beyond_break(1) [OF pre, of b] r by (auto simp: nb)
  have w1': "heap_wf (s1\<lparr>mem := M, pidcnt := pidcnt s + 1\<rparr>) xs1"
    by (rule heap_wf_frame [OF w1, of M]) (use fo hdr ch fld(1) in auto)
  have same1: "mh_size M x = mh_size (mem s1) x \<and> mh_used M x = mh_used (mem s1) x" if "x \<in> set xs1" for x
    using fields_cong(1,4) [of x M "mem s1"] fo hdr [OF that] fields_in_header by blast
  have kp: "keeps (set xs) (mem s) M" using kp1 same1 x1 by (simp add: keeps_def)
  have "\<not> fits M 4096 x" if "x \<in> set xs1" for x
  proof (cases "x = ?B")
    case True
    then show ?thesis using same1 [OF that] z1 by (simp add: fits_def)
  next
    case False
    then have x: "x \<in> set xs" using that x1 by auto
    then have "\<not> fits (mem s) 84 x" using no by (simp add: find_None_iff)
    then show ?thesis using kp x by (auto simp: fits_def keeps_def word_le_nat_alt)
  qed
  then have no2: "find (fits M 4096) xs1 = None" by (simp add: find_None_iff)
  have out: "M b = mem s b" if "b \<notin> span (chain_hd s) 8" "b \<noteq> 16" "\<forall>x \<in> set xs1. b \<notin> span x 20" "b \<notin> span ?P 84" for b
    using that f1 fo [OF _ that(4)] by (auto simp: chain_frame_def)
  show ?thesis
    by (rule that [of s1 M xs1]) (use k1 M_def fld brk1 w1' x1 z1 same1 [of ?B] kp no2 name out e1 in \<open>simp_all add: new_proc_def\<close>)
qed

text \<open>The two allocations.\<close>

lemma create_allocs:
  assumes pre: "create_pre s xs pl name bs"
  obtains s1 M s2 xs2 where "kmalloc 84 0 s = Some (new_proc s, s1)" "M = filled (new_proc s) (pidcnt s) name (mem s1)"
    "kmalloc 4096 0 (s1\<lparr>mem := M, pidcnt := pidcnt s + 1\<rparr>) = Some (new_stack s, s2)" "pidcnt s1 = pidcnt s" "page_size s1 = page_size s"
    "heap_wf s2 xs2" "set xs2 = insert (heap_brk s + 104) (insert (heap_brk s) (set xs))"
    "mh_size (mem s2) (heap_brk s) = 84" "mh_size (mem s2) (heap_brk s + 104) = 4096"
    "mh_used (mem s2) (heap_brk s)" "mh_used (mem s2) (heap_brk s + 104)" "keeps (set xs) (mem s) (mem s2)"
    "\<And>b. b \<in> span (new_proc s) 84 \<Longrightarrow> mem s2 b = M b"
    "\<And>b. b \<notin> span (chain_hd s) 8 \<Longrightarrow> b \<noteq> 16 \<Longrightarrow> (\<And>x. x \<in> set xs2 \<Longrightarrow> b \<notin> span x 20) \<Longrightarrow>
      b \<notin> span (new_proc s) 84 \<Longrightarrow> mem s2 b = mem s b"
    "unat (heap_brk s2) = unat (heap_brk s) + 4220"
    "s2 = s\<lparr>heap_brk := heap_brk s2, mem := mem s2, total_blocks := total_blocks s2, used_blocks := used_blocks s2,
      pidcnt := pidcnt s + 1\<rparr>" "\<And>b. b \<in> span name (Suc (length bs)) \<Longrightarrow> mem s1 b = mem s b"
proof -
  let ?P = "new_proc s" and ?B = "heap_brk s" and ?K = "heap_brk s + 104"
  note nb = new_bounds [OF pre]
  have r: "unat ?B + 4224 < unat (brk_max s)" using pre by (simp add: create_pre_def)
  obtain s1 xs1 M where k1: "kmalloc 84 0 s = Some (?P, s1)" and M: "M = filled ?P (pidcnt s) name (mem s1)"
    and fld: "chain_hd s1 = chain_hd s" "brk_max s1 = brk_max s" "pidcnt s1 = pidcnt s" "page_size s1 = page_size s"
    and brk1: "heap_brk s1 = ?K" and w1: "heap_wf (s1\<lparr>mem := M, pidcnt := pidcnt s + 1\<rparr>) xs1" and x1: "set xs1 = insert ?B (set xs)"
    and z1: "mh_size M ?B = 84" "mh_used M ?B" and kp1: "keeps (set xs) (mem s) M" and no: "find (fits M 4096) xs1 = None"
    and name: "\<And>b. b \<in> span name (Suc (length bs)) \<Longrightarrow> mem s1 b = mem s b"
    and out1: "\<And>b. b \<notin> span (chain_hd s) 8 \<Longrightarrow> b \<noteq> 16 \<Longrightarrow> \<forall>x \<in> set xs1. b \<notin> span x 20 \<Longrightarrow>
      b \<notin> span ?P 84 \<Longrightarrow> M b = mem s b"
    and e1: "s1 = s\<lparr>heap_brk := heap_brk s1, mem := mem s1, total_blocks := total_blocks s1, used_blocks := used_blocks s1\<rparr>"
    by (rule create_first [OF pre]) (rule that, assumption+)
  let ?t = "s1\<lparr>mem := M, pidcnt := pidcnt s + 1\<rparr>"
  have no2: "find (fits (mem ?t) 4096) xs1 = None" using no by simp
  have room2: "heap_room 4096 ?t" using r fld(2) nb(2) brk1 by (simp add: heap_room_def)
  obtain s2 xs2 where k2: "kmalloc 4096 0 ?t = Some (heap_brk ?t + 20, s2)" and w2: "heap_wf s2 xs2"
    and x2: "set xs2 = insert (heap_brk ?t) (set xs1)" and b2: "unat (heap_brk s2) = unat (heap_brk ?t) + 20 + unat (4096 :: u32)"
    and z2: "mh_size (mem s2) (heap_brk ?t) = 4096" "mh_used (mem s2) (heap_brk ?t)" and kp2: "keeps (set xs1) (mem ?t) (mem s2)"
    and f2: "chain_frame (chain_hd ?t) xs2 (mem ?t) (mem s2)"
    and e2: "s2 = ?t\<lparr>heap_brk := heap_brk s2, mem := mem s2, total_blocks := total_blocks s2, used_blocks := used_blocks s2\<rparr>"
    by (rule alloc_at_break [OF w1 _ no2 room2, of 0]) simp_all
  have X2: "set xs2 = insert ?K (insert ?B (set xs))" using x2 x1 brk1 by simp
  have f2': "mem s2 b = M b" if "b \<notin> span (chain_hd s) 8" "b \<noteq> 16" "\<And>x. x \<in> set xs2 \<Longrightarrow> b \<notin> span x 20" for b
    using f2 that fld(1) by (auto simp: chain_frame_def)
  have inP: "mem s2 b = M b" if "b \<in> span ?P 84" for b
  proof (rule f2')
    show "b \<notin> span (chain_hd s) 8" "b \<noteq> 16" using that beyond_break(1,2) [OF pre, of b] r by (auto simp: nb)
    show "b \<notin> span x 20" if "x \<in> set xs2" for x
      using that beyond_break(3) [OF pre, of b x] \<open>b \<in> span ?P 84\<close> r unfolding X2 by (auto simp: nb)
  qed
  have outP: "mem s2 b = mem s b" if "b \<notin> span (chain_hd s) 8" "b \<noteq> 16" "\<And>x. x \<in> set xs2 \<Longrightarrow> b \<notin> span x 20"
    "b \<notin> span ?P 84" for b
    using f2' [OF that(1-3)] out1 [OF that(1,2) _ that(4)] that(3) x2 by simp
  show ?thesis
  proof (rule that [of s1 M s2 xs2])
    show "kmalloc 4096 0 ?t = Some (new_stack s, s2)" using k2 by (simp add: brk1 new_stack_def)
    show "mh_size (mem s2) ?B = 84" "mh_used (mem s2) ?B" using kp2 z1 x1 by (simp_all add: keeps_def)
    show "mh_size (mem s2) ?K = 4096" "mh_used (mem s2) ?K" using z2 brk1 by simp_all
    show "keeps (set xs) (mem s) (mem s2)" using kp2 kp1 x1 by (simp add: keeps_def)
    show "unat (heap_brk s2) = unat ?B + 4220" using b2 brk1 nb(2) by simp
    show "s2 = s\<lparr>heap_brk := heap_brk s2, mem := mem s2, total_blocks := total_blocks s2,
        used_blocks := used_blocks s2, pidcnt := pidcnt s + 1\<rparr>"
      by (subst e2, subst e1) simp
  qed (use k1 M fld w2 X2 inP outP name in simp_all)
qed

text \<open>The rest of \<^verbatim>\<open>create_process\<close>, on the memory after the second allocation.\<close>

definition stacked :: "u32 \<Rightarrow> u32 \<Rightarrow> bytes \<Rightarrow> bytes" where
  "stacked p k m = set_p_esp p (k + 4095) (memset (set_p_kstack p k m) k 0 4096)"

definition enlisted :: "u32 \<Rightarrow> u32 \<Rightarrow> u32 \<Rightarrow> bytes \<Rightarrow> bytes" where
  "enlisted p k h m = list_add_tail (p_list p) h (stacked p k m)"

definition finished :: "u32 \<Rightarrow> u32 \<Rightarrow> u32 \<Rightarrow> u32 \<Rightarrow> u32 \<Rightarrow> bytes \<Rightarrow> bytes" where
  "finished p k h proc cur m = set_p_parent p cur (set_p_tt p 0 (set_p_ticks p 100
     (setup_kernel_process p proc (enlisted p k h m))))"

lemma span_within:
  "b \<in> span (p + i) n' \<Longrightarrow> unat (i - j) + n' \<le> n \<Longrightarrow> n \<le> 4294967296 \<Longrightarrow> b \<in> span (p + j) n"
  using span_offset [of b "p + j" "i - j" n' n] by simp

lemma local_outside: "local_to p m m' \<Longrightarrow> b \<notin> span p 84 \<Longrightarrow> m' b = m b"
  by (simp add: local_to_def)

text \<open>The block of a process and its stack, apart from the list it is put into.\<close>

definition apart_from_list :: "u32 \<Rightarrow> u32 \<Rightarrow> u32 \<Rightarrow> u32 list \<Rightarrow> bool" where
  "apart_from_list p k h pl \<longleftrightarrow> span p 84 \<inter> span h 8 = {} \<and> span k 4099 \<inter> span h 8 = {}
     \<and> (\<forall>q \<in> set pl. span q 84 \<inter> span p 84 = {}) \<and> (\<forall>q \<in> set pl. span q 84 \<inter> span k 4099 = {})
     \<and> span p 84 \<inter> span k 4099 = {} \<and> p \<noteq> 0 \<and> p \<notin> set pl"

lemma apart_from_listD:
  assumes "apart_from_list p k h pl"
  shows "b \<in> span p 84 \<Longrightarrow> b \<notin> span h 8" "b \<in> span k 4099 \<Longrightarrow> b \<notin> span h 8"
    "q \<in> set pl \<Longrightarrow> b \<in> span q 84 \<Longrightarrow> b \<notin> span p 84" "q \<in> set pl \<Longrightarrow> b \<in> span q 84 \<Longrightarrow> b \<notin> span k 4099"
    "b \<in> span p 84 \<Longrightarrow> b \<notin> span k 4099"
  using assms unfolding apart_from_list_def by blast+

lemma stacked_outside:
  "b \<notin> span (p + 8) 4 \<Longrightarrow> b \<notin> span p 4 \<Longrightarrow> b \<notin> span k 4096 \<Longrightarrow> stacked p k m b = m b"
  by (simp add: stacked_def set_p_defs store32_outside)

lemma in_stack: "b \<in> span k 4096 \<or> b \<in> span (k + 4035) 64 \<Longrightarrow> b \<in> span k 4099"
  using span_mono [of b k 4096 4099] span_offset [of b k 4035 64 4099] by auto

lemma link_in_process: "b \<in> span (p_list q) 8 \<Longrightarrow> b \<in> span q 84"
  using span_offset [of b q 24 8 84] by (simp add: p_list_def)

lemma fresh_process:
  assumes ap: "apart_from_list p k h pl"
  shows "fresh_node (p_list p) h (map p_list pl)"
proof -
  note sep = apart_from_listD [OF ap]
  have np: "b \<notin> span x 8" if x: "x \<in> set (h # map p_list pl)" "b \<in> span p 84" for x b
  proof (cases "x = h")
    case False
    then obtain q where "q \<in> set pl" "x = p_list q" using x(1) by auto
    then show ?thesis using sep(3) [of q b] link_in_process [of b q] x(2) by blast
  qed (use sep(1) x(2) in simp)
  have i: "y \<in> span y 8" for y by (simp add: self_in_span)
  have "apart (p_list p) 8 x 8" if x: "x \<in> set (h # map p_list pl)" for x
  proof (rule apartI)
    show "x \<notin> span (p_list p) 8" using np [OF x, of x] link_in_process [of x p] i by blast
    show "p_list p \<notin> span x 8" using np [OF x] link_in_process [OF i, of p] by blast
  qed
  moreover have "p_list p \<notin> set (h # map p_list pl)"
    using calculation [of "p_list p"] by (auto simp: apart_def)
  ultimately show ?thesis by (simp add: fresh_node_def)
qed

lemma enlisted_facts:
  assumes pm: "procs_mem m h pl" and ap: "apart_from_list p k h pl"
  shows "procs_mem (enlisted p k h m) h (pl @ [p])"
    "b \<notin> span p 84 \<Longrightarrow> b \<notin> span k 4099 \<Longrightarrow> b \<notin> span h 8 \<Longrightarrow> (\<And>q. q \<in> set pl \<Longrightarrow> b \<notin> span (p_list q) 8) \<Longrightarrow>
      enlisted p k h m b = m b"
    "b \<in> span p 84 \<Longrightarrow> b \<notin> span (p_list p) 8 \<Longrightarrow> enlisted p k h m b = stacked p k m b"
    "p_esp (enlisted p k h m) p = k + 4095"
proof -
  note sep = apart_from_listD [OF ap]
  let ?ma = "stacked p k m"
  have d: "dlist m h (map p_list pl)" and pa: "procs_apart h pl" using pm by (simp_all add: procs_mem_def)
  have a84: "?ma b = m b" if "b \<notin> span p 84" "b \<notin> span k 4099" for b
    using that span_offset [of b p 8 4 84] span_mono [of b p 4 84] in_stack [of b k] by (intro stacked_outside) auto
  have "?ma b = m b" if "x \<in> set (h # map p_list pl)" "b \<in> span x 8" for x b
    using that sep link_in_process by (intro a84) auto
  then have da: "dlist ?ma h (map p_list pl)" by (rule dlist_frame [OF d])
  have "dlist (enlisted p k h m) h (map p_list (pl @ [p]))"
    using dl.seq_append [OF da fresh_process [OF ap]] by (simp add: enlisted_def)
  moreover have "procs_apart h (pl @ [p])" using pa sep ap unfolding procs_apart_def apart_from_list_def by auto
  ultimately show "procs_mem (enlisted p k h m) h (pl @ [p])" by (simp add: procs_mem_def)
  have b: "enlisted p k h m b = ?ma b"
    if "b \<notin> span (p_list p) 8" "b \<notin> span h 8" "\<And>q. q \<in> set pl \<Longrightarrow> b \<notin> span (p_list q) 8" for b
    unfolding enlisted_def by (rule list_add_tail_outside [OF da that(1)]) (use that in auto)
  show bp: "enlisted p k h m b = ?ma b" if "b \<in> span p 84" "b \<notin> span (p_list p) 8" for b
    using that sep link_in_process by (intro b) auto
  show "enlisted p k h m b = m b"
    if "b \<notin> span p 84" "b \<notin> span k 4099" "b \<notin> span h 8" "\<And>q. q \<in> set pl \<Longrightarrow> b \<notin> span (p_list q) 8"
    using b [OF _ that(3,4)] link_in_process [of b p] a84 [OF that(1,2)] that(1) by auto
  have "enlisted p k h m b = ?ma b" if "b \<in> span p 4" for b
    using that span_mono [OF that, of 84] apart_disjoint [of p 4 "p + 24" 8 b]
    by (intro bp) (simp_all add: p_list_def apart_def)
  then have "load32 (enlisted p k h m) p = load32 ?ma p" by (rule load32_cong)
  then show "p_esp (enlisted p k h m) p = k + 4095" by (simp add: p_esp_def stacked_def set_p_defs)
qed

text \<open>The fields that \<^verbatim>\<open>create_process\<close> sets before the allocation of the stack: pid, name, timeout.\<close>

definition early_fields :: "u32 \<Rightarrow> u32 set" where
  "early_fields p = span (p + 12) 12 \<union> span (p + 32) 32 \<union> span (p + 68) 4"

lemma early_fields_apart:
  assumes x: "b \<in> early_fields p"
  shows "b \<notin> span (p + 66) 2" "b \<notin> span (p + 76) 8" "b \<notin> span (p_list p) 8" "b \<notin> span (p + 8) 4" "b \<notin> span p 4"
    "b \<in> span p 84" "b \<in> span (p + 8) 56 \<union> span (p + 65) 19"
proof -
  consider "b \<in> span (p + 12) 12" | "b \<in> span (p + 32) 32" | "b \<in> span (p + 68) 4"
    using x by (auto simp: early_fields_def)
  then have "b \<notin> span (p + 66) 2 \<and> b \<notin> span (p + 76) 8 \<and> b \<notin> span (p + 24) 8 \<and> b \<notin> span (p + 8) 4 \<and> b \<notin> span p 4"
  proof cases
    case 1
    show ?thesis by (simp add: apart_disjoint [OF _ 1] apart_def)
  next
    case 2
    show ?thesis by (simp add: apart_disjoint [OF _ 2] apart_def)
  next
    case 3
    show ?thesis by (simp add: apart_disjoint [OF _ 3] apart_def)
  qed
  then show "b \<notin> span (p + 66) 2" "b \<notin> span (p + 76) 8" "b \<notin> span (p_list p) 8" "b \<notin> span (p + 8) 4" "b \<notin> span p 4"
    by (simp_all add: p_list_def)
  show "b \<in> span p 84"
    using x span_offset [of b p 12 12 84] span_offset [of b p 32 32 84] span_offset [of b p 68 4 84]
    by (auto simp: early_fields_def)
  show "b \<in> span (p + 8) 56 \<union> span (p + 65) 19"
    using x span_within [of b p 12 12 8 56] span_within [of b p 32 32 8 56] span_within [of b p 68 4 65 19]
    by (auto simp: early_fields_def)
qed

lemma finished_facts:
  assumes pm: "procs_mem m h pl" and ap: "apart_from_list p k h pl" and M_def: "M = finished p k h proc cur m"
  shows "procs_mem M h (pl @ [p])"
    "b \<notin> span p 84 \<Longrightarrow> b \<notin> span k 4099 \<Longrightarrow> b \<notin> span h 8 \<Longrightarrow> (\<And>q. q \<in> set pl \<Longrightarrow> b \<notin> span (p_list q) 8) \<Longrightarrow> M b = m b"
    "frame_at M (k + 4035) (start_words p proc)" "p_esp M p = k + 4035"
    "p_state M p = PROC_READY" "p_ticks M p = 100" "p_tt M p = 0" "p_parent M p = cur"
    "b \<in> early_fields p \<Longrightarrow> M b = m b"
proof -
  note sep = apart_from_listD [OF ap] and en = enlisted_facts [OF pm ap]
  let ?mb = "enlisted p k h m"
  define mc where "mc = setup_kernel_process p proc ?mb"
  have M: "M = set_p_parent p cur (set_p_tt p 0 (set_p_ticks p 100 mc))"
    by (simp add: M_def finished_def mc_def)
  have e: "k + 4095 - 60 = k + 4035" by simp
  have dis: "span p 84 \<inter> span (k + 4095 - 60) 64 = {}" unfolding e using sep(5) in_stack by blast
  note se = setup_effect [OF dis en(4), where proc = proc, folded mc_def, unfolded e]
  have c: "mc b = ?mb b" if "b \<notin> span p 84" "b \<notin> span k 4099" for b
    using that in_stack by (intro se(4)) auto
  have l: "local_to p mc M" unfolding M
    by (rule local_trans [OF local_trans [OF local_sets(6) local_sets(9)] local_sets(8)])
  have "mc b = ?mb b" if "b \<in> span h 8" for b using that sep c by blast
  moreover have "mc b = ?mb b" if "q \<in> set (pl @ [p])" "b \<in> span (q + 24) 8" for q b
  proof (cases "q = p")
    case True
    then show ?thesis using that(2) span_within [of b p 24 8 8 56] by (intro se(5)) simp
  next
    case False
    then show ?thesis using that link_in_process [of b q] sep by (intro c) (auto simp: p_list_def)
  qed
  ultimately have "procs_mem mc h (pl @ [p])" by (rule procs_mem_cong [OF en(1)])
  then show "procs_mem M h (pl @ [p])" by (rule procs_mem_local [OF _ _ l]) simp
  show "M b = m b" if "b \<notin> span p 84" "b \<notin> span k 4099" "b \<notin> span h 8" "\<And>q. q \<in> set pl \<Longrightarrow> b \<notin> span (p_list q) 8"
    using local_outside [OF l that(1)] c [OF that(1,2)] en(2) [OF that] by simp
  have low: "M b = mc b" if "b \<notin> span (p + 66) 2" "b \<notin> span (p + 76) 8" for b
  proof -
    have "b \<notin> span (p + 76) 4" "b \<notin> span (p + 80) 4"
      using that(2) span_within [of b p 76 4 76 8] span_within [of b p 80 4 76 8] by auto
    then show ?thesis using that(1) by (simp add: M set_p_defs store32_outside store16_outside)
  qed
  have fr: "M b = mc b" if "b \<in> span (k + 4035) 64" for b
    using that in_stack sep(5) by (intro local_outside [OF l]) blast
  show "frame_at M (k + 4035) (start_words p proc)"
    by (rule frame_cong [OF se(1)]) (simp_all add: start_words_def fr)
  have "M b = mc b" if "b \<in> span p 4" for b
    using apart_disjoint [OF _ that, of "p + 66" 2] apart_disjoint [OF _ that, of "p + 76" 8]
    by (intro low) (simp_all add: apart_def)
  then have "load32 M p = load32 mc p" by (rule load32_cong)
  then show "p_esp M p = k + 4035" using se(2) by (simp add: p_esp_def)
  show "p_state M p = PROC_READY"
    using se(3) unfolding M p_field_defs set_p_defs by (simp add: mem_frame apart_def)
  show "p_ticks M p = 100" "p_tt M p = 0" "p_parent M p = cur"
    unfolding M p_field_defs set_p_defs by (simp_all add: mem_frame apart_def)
  show "M b = m b" if x: "b \<in> early_fields p"
  proof -
    note x' = early_fields_apart [OF x]
    have "mc b = ?mb b" using x'(7) by (rule se(5))
    moreover have "?mb b = stacked p k m b" using x' by (intro en(3)) simp_all
    moreover have "stacked p k m b = m b" using x' sep(5) in_stack by (intro stacked_outside) auto
    ultimately show ?thesis using low x' by simp
  qed
qed

lemma create_steps:
  assumes pre: "create_pre s xs pl name bs"
    and k1: "kmalloc 84 0 s = Some (new_proc s, s1)" "pidcnt s1 = pidcnt s" "page_size s1 = page_size s"
    and M: "M = filled (new_proc s) (pidcnt s) name (mem s1)"
    and k2: "kmalloc 4096 0 (s1\<lparr>mem := M, pidcnt := pidcnt s + 1\<rparr>) = Some (new_stack s, s2)"
    and s2: "page_size s2 = page_size s" "current s2 = current s" "proc_hd s2 = proc_hd s"
  shows "create_process name arg proc s =
    (let m = finished (new_proc s) (new_stack s) (proc_hd s) proc (current s) (mem s2)
     in Some (p_pid m (new_proc s), s2\<lparr>mem := m, pcount := pcount s2 + 1\<rparr>))"
proof -
  let ?P = "new_proc s" and ?K = "new_stack s"
  note nb = new_bounds [OF pre]
  have nz: "?P \<noteq> 0" "?K \<noteq> 0" using nb(1,3) by (auto simp flip: unat_eq_0)
  have ps: "ucast (page_size s) = (4096 :: u32)" using pre by (simp add: create_pre_def)
  have ks: "p_kstack (set_p_kstack ?P ?K (mem s2)) ?P = ?K" by (simp add: p_field_defs set_p_defs)
  have "memset (set_p_kstack ?P ?K (mem s2)) ?K 0 4096 b = set_p_kstack ?P ?K (mem s2) b" if "b \<in> span (?P + 8) 4" for b
    using that span_offset [of b ?P 8 4 84] span_mono [of b ?K 4096 4099] by (auto simp: nb)
  then have "load32 (memset (set_p_kstack ?P ?K (mem s2)) ?K 0 4096) (?P + 8) = load32 (set_p_kstack ?P ?K (mem s2)) (?P + 8)"
    by (rule load32_cong)
  then have ks': "p_kstack (memset (set_p_kstack ?P ?K (mem s2)) ?K 0 4096) ?P = ?K" using ks by (simp add: p_kstack_def)
  have st: "s1\<lparr>pidcnt := pidcnt s + 1, mem := fst (strncpy (set_p_pid ?P (pidcnt s) (memset (mem s1) ?P 0 84)) (p_name ?P) name 31)\<rparr>
      = s1\<lparr>mem := M, pidcnt := pidcnt s + 1\<rparr>"
    by (simp add: M filled_def SIZEOF_PROCESS_def)
  show ?thesis
    using k1 k2 nz ps
    by (simp add: create_process_def SIZEOF_PROCESS_def finished_def enlisted_def stacked_def Let_def ks ks' s2 get_current_process_def st)
qed

text \<open>
  The facts about the two allocations that the rest builds on: the states after them, the blocks, and
  what they left alone. \<open>F\<close> is the memory at the end.
\<close>

definition made :: "'a kernel_scheme \<Rightarrow> u32 list \<Rightarrow> u32 list \<Rightarrow> u32 \<Rightarrow> u8 list \<Rightarrow> u32 \<Rightarrow>
    bytes \<Rightarrow> 'a kernel_scheme \<Rightarrow> u32 list \<Rightarrow> bytes \<Rightarrow> bool" where
  "made s xs pl name bs proc M s2 xs2 F \<longleftrightarrow> create_pre s xs pl name bs \<and> heap_wf s2 xs2
     \<and> set xs2 = insert (heap_brk s + 104) (insert (heap_brk s) (set xs))
     \<and> mh_size (mem s2) (heap_brk s) = 84 \<and> mh_used (mem s2) (heap_brk s) \<and> keeps (set xs) (mem s) (mem s2)
     \<and> (\<forall>b \<in> span (new_proc s) 84. mem s2 b = M b)
     \<and> (\<forall>b. b \<notin> span (chain_hd s) 8 \<longrightarrow> b \<noteq> 16 \<longrightarrow> (\<forall>x \<in> set xs2. b \<notin> span x 20) \<longrightarrow>
          b \<notin> span (new_proc s) 84 \<longrightarrow> mem s2 b = mem s b)
     \<and> unat (heap_brk s2) = unat (heap_brk s) + 4220
     \<and> s2 = s\<lparr>heap_brk := heap_brk s2, mem := mem s2, total_blocks := total_blocks s2,
          used_blocks := used_blocks s2, pidcnt := pidcnt s + 1\<rparr>
     \<and> F = finished (new_proc s) (new_stack s) (proc_hd s) proc (current s) (mem s2)"

lemma made_fields:
  assumes "made s xs pl name bs proc M s2 xs2 F"
  shows "page_size s2 = page_size s" "current s2 = current s" "proc_hd s2 = proc_hd s" "chain_hd s2 = chain_hd s"
    "pcount s2 = pcount s" "pidcnt s2 = pidcnt s + 1" "heap_brk s2 = heap_brk s + 4220"
proof -
  have e: "s2 = s\<lparr>heap_brk := heap_brk s2, mem := mem s2, total_blocks := total_blocks s2,
      used_blocks := used_blocks s2, pidcnt := pidcnt s + 1\<rparr>" using assms unfolding made_def by blast
  show "page_size s2 = page_size s" "current s2 = current s" "proc_hd s2 = proc_hd s" "chain_hd s2 = chain_hd s"
    "pcount s2 = pcount s" "pidcnt s2 = pidcnt s + 1"
    by (subst e, simp)+
  have r: "unat (heap_brk s) + 4224 < unat (brk_max s)" using assms by (simp add: made_def create_pre_def)
  show "heap_brk s2 = heap_brk s + 4220"
    using assms unat_plus_small [of "heap_brk s" 4220] r unat_less_2p32 [of "brk_max s"]
    by (simp add: made_def word_unat_eq_iff)
qed

text \<open>Processes and the list head: untouched so far and apart from the two new blocks.\<close>

lemma made_processes:
  assumes mk: "made s xs pl name bs proc M s2 xs2 F"
    and b: "(\<exists>q \<in> set pl. b \<in> span q 84) \<or> b \<in> span (proc_hd s) 8"
  shows "mem s2 b = mem s b" "b \<notin> span (new_proc s) 84" "b \<notin> span (new_stack s) 4099"
    "b \<notin> span (chain_hd s) 8" "x \<in> set xs2 \<Longrightarrow> b \<notin> span x 20"
proof -
  have pre: "create_pre s xs pl name bs" and x2: "set xs2 = insert (heap_brk s + 104) (insert (heap_brk s) (set xs))"
    using mk by (simp_all add: made_def)
  then have r: "unat (heap_brk s) + 4224 < unat (brk_max s)" by (simp add: create_pre_def)
  note nb = new_bounds [OF pre]
  have b': "(\<exists>q \<in> set pl. b \<in> span q 84) \<or> b \<in> span (proc_hd s) 8 \<or> b \<in> span name (Suc (length bs))" using b by blast
  note pb = process_bytes [OF pre b']
  show far: "b \<notin> span (new_proc s) 84" "b \<notin> span (new_stack s) 4099" using pb(4) r by (auto simp: nb)
  show ch: "b \<notin> span (chain_hd s) 8" by (rule pb(1))
  show hd: "b \<notin> span x 20" if "x \<in> set xs2" for x
    using that pb(3,4) r nb(6,7) [of b] unfolding x2 by auto
  show "mem s2 b = mem s b" using mk ch hd far pb(2) unfolding made_def by blast
qed

lemma made_finished:
  assumes mk: "made s xs pl name bs proc M s2 xs2 F"
  shows "procs_mem F (proc_hd s) (pl @ [new_proc s])"
    "b \<notin> span (new_proc s) 84 \<Longrightarrow> b \<notin> span (new_stack s) 4099 \<Longrightarrow> b \<notin> span (proc_hd s) 8 \<Longrightarrow>
      (\<And>q. q \<in> set pl \<Longrightarrow> b \<notin> span (p_list q) 8) \<Longrightarrow> F b = mem s2 b"
    "frame_at F (new_stack s + 4035) (start_words (new_proc s) proc)" "p_esp F (new_proc s) = new_stack s + 4035"
    "p_state F (new_proc s) = PROC_READY" "p_ticks F (new_proc s) = 100" "p_tt F (new_proc s) = 0"
    "p_parent F (new_proc s) = current s"
    "b \<in> early_fields (new_proc s) \<Longrightarrow> F b = mem s2 b"
proof -
  let ?P = "new_proc s" and ?K = "new_stack s"
  have pre: "create_pre s xs pl name bs"
    and F: "F = finished ?P ?K (proc_hd s) proc (current s) (mem s2)"
    using mk by (simp_all add: made_def)
  have pw: "procs_mem (mem s) (proc_hd s) pl" using pre by (simp add: create_pre_def procs_wf_def)
  note nb = new_bounds [OF pre]
  note old = made_processes [OF mk]
  have pm: "procs_mem (mem s2) (proc_hd s) pl"
    by (rule procs_mem_cong [OF pw]) (use old(1) link_in_process [unfolded p_list_def] in blast)+
  have "span ?P 84 \<inter> span ?K 4099 = {}" by (auto simp: nb)
  moreover have "?P \<noteq> 0" "?P \<notin> set pl" using nb(1) old(2) [of ?P] self_in_span [of 84 ?P] by (auto simp flip: unat_eq_0)
  ultimately have "apart_from_list ?P ?K (proc_hd s) pl" using old(2,3) unfolding apart_from_list_def by blast
  note fin = finished_facts [OF pm this F]
  show "procs_mem F (proc_hd s) (pl @ [?P])"
    "frame_at F (?K + 4035) (start_words ?P proc)" "p_esp F ?P = ?K + 4035"
    "p_state F ?P = PROC_READY" "p_ticks F ?P = 100" "p_tt F ?P = 0" "p_parent F ?P = current s"
    by (rule fin)+
  show "F b = mem s2 b" if "b \<notin> span ?P 84" "b \<notin> span ?K 4099" "b \<notin> span (proc_hd s) 8"
    "\<And>q. q \<in> set pl \<Longrightarrow> b \<notin> span (p_list q) 8" by (rule fin(2) [OF that])
  show "F b = mem s2 b" if "b \<in> early_fields ?P" by (rule fin(9) [OF that])
qed

lemma made_heap:
  assumes mk: "made s xs pl name bs proc M s2 xs2 F"
    and s': "s' = s2\<lparr>mem := F, pcount := pcount s2 + 1\<rparr>"
  shows "heap_wf s' xs2" "\<forall>q \<in> set (pl @ [new_proc s]). \<exists>k \<ge> 84. (q, k) \<in> heap_owned s'"
proof -
  let ?P = "new_proc s"
  have pre: "create_pre s xs pl name bs" and w2: "heap_wf s2 xs2"
    and x2: "set xs2 = insert (heap_brk s + 104) (insert (heap_brk s) (set xs))"
    and z: "mh_size (mem s2) (heap_brk s) = 84" "mh_used (mem s2) (heap_brk s)" and kp: "keeps (set xs) (mem s) (mem s2)"
    using mk by (simp_all add: made_def)
  have r: "unat (heap_brk s) + 4224 < unat (brk_max s)" and wf: "heap_wf s xs"
    and own: "\<forall>q \<in> set pl. \<exists>k \<ge> 84. (q, k) \<in> heap_owned s" using pre by (simp_all add: create_pre_def)
  note nb = new_bounds [OF pre] and old = made_processes [OF mk]
  have Fh: "F b = mem s2 b" if b: "b \<in> span (chain_hd s) 8 \<or> (\<exists>x \<in> set xs2. b \<in> span x 20)" for b
  proof (rule made_finished(2) [OF mk])
    have "\<not> (unat (heap_brk s) \<le> unat b \<and> unat b < unat (brk_max s)) \<or> b \<in> span (heap_brk s) 20
        \<or> b \<in> span (heap_brk s + 104) 20"
      using b beyond_break(1,3) [OF pre, of b] unfolding x2 by blast
    then show "b \<notin> span ?P 84" "b \<notin> span (new_stack s) 4099" using r unfolding nb by linarith+
    show "b \<notin> span (proc_hd s) 8" "q \<in> set pl \<Longrightarrow> b \<notin> span (p_list q) 8" for q
      using old(4,5) b link_in_process by blast+
  qed
  show wf': "heap_wf s' xs2"
    by (rule heap_wf_frame [OF w2, of F]) (use Fh in \<open>auto simp: s' made_fields [OF mk]\<close>)
  have size: "mh_size (mem s') x = mh_size (mem s2) x" "mh_used (mem s') x = mh_used (mem s2) x" if "x \<in> set xs2" for x
    using fields_cong(1,4) [of x F "mem s2"] Fh that fields_in_header by (auto simp: s')
  have "\<exists>x \<in> set xs2. q = x + 20 \<and> mh_used (mem s') x \<and> 84 \<le> unat (mh_size (mem s') x)" if q: "q \<in> set (pl @ [?P])" for q
  proof (cases "q = ?P")
    case True
    then show ?thesis using x2 z size by (intro bexI [of _ "heap_brk s"]) (simp_all add: new_proc_def)
  next
    case False
    then obtain k where "84 \<le> k" "(q, k) \<in> heap_owned s" using q own by auto
    then obtain x where "x \<in> set xs" "q = x + 20" "mh_used (mem s) x" "84 \<le> unat (mh_size (mem s) x)"
      using heap_owned_eq [OF wf] by auto
    then show ?thesis using kp x2 size by (intro bexI [of _ x]) (simp_all add: keeps_def)
  qed
  then show "\<forall>q \<in> set (pl @ [?P]). \<exists>k \<ge> 84. (q, k) \<in> heap_owned s'"
    unfolding heap_owned_eq [OF wf'] by force
qed

lemma made_new:
  assumes mk: "made s xs pl name bs proc M s2 xs2 F" and M: "M = filled (new_proc s) (pidcnt s) name m"
    and nm: "\<And>b. b \<in> span name (Suc (length bs)) \<Longrightarrow> m b = mem s b"
  shows "view F (new_proc s) = \<lparr>v_state = PROC_READY, v_ticks = 100, v_timeout = 0, v_tt = 0\<rparr>"
    "p_pid F (new_proc s) = pidcnt s" "cstring F (p_name (new_proc s)) (take 31 bs)"
proof -
  let ?P = "new_proc s"
  have pre: "create_pre s xs pl name bs" and inP: "\<forall>b \<in> span ?P 84. mem s2 b = M b" using mk by (simp_all add: made_def)
  note ff = filled_facts [OF pre nm M] and fin = made_finished [OF mk]
  have in9: "F b = M b" if "b \<in> span (?P + 12) 12 \<union> span (?P + 32) 32 \<union> span (?P + 68) 4" for b
  proof -
    have e: "b \<in> early_fields ?P" using that by (simp add: early_fields_def)
    then show ?thesis using fin(9) inP early_fields_apart(6) by simp
  qed
  have "load32 F (?P + 68) = load32 M (?P + 68)" by (rule load32_cong, rule in9) simp
  then have to: "p_timeout F ?P = 0" using ff(3) by (simp add: p_timeout_def)
  show "view F ?P = \<lparr>v_state = PROC_READY, v_ticks = 100, v_timeout = 0, v_tt = 0\<rparr>"
    using fin(5-7) to by (simp add: view_def)
  have "load32 F (?P + 20) = load32 M (?P + 20)"
    by (rule load32_cong, rule in9) (use span_within [of _ ?P 20 4 12 12] in simp)
  then show "p_pid F ?P = pidcnt s" using ff(2) by (simp add: p_pid_def)
  have "cstring F (p_name ?P) (take 31 bs) = cstring M (p_name ?P) (take 31 bs)"
  proof (rule cstring_cong)
    fix b assume "b \<in> span (p_name ?P) (Suc (length (take 31 bs)))"
    then have "b \<in> span (?P + 32) 32" unfolding p_name_def by (rule span_mono) simp
    then show "F b = M b" by (intro in9) simp
  qed simp
  then show "cstring F (p_name ?P) (take 31 bs)" using ff(4) by simp
qed

lemma made_others:
  assumes mk: "made s xs pl name bs proc M s2 xs2 F"
  shows "q \<in> set pl \<Longrightarrow> view F q = view (mem s) q"
    "off_heap s {b} \<Longrightarrow> b \<notin> span (proc_hd s) 8 \<Longrightarrow> F b = mem s b"
    "(a, k) \<in> heap_owned s \<Longrightarrow> b \<in> span a k \<Longrightarrow> \<forall>q \<in> set pl. b \<notin> span (p_list q) 8 \<Longrightarrow> F b = mem s b"
proof -
  have pre: "create_pre s xs pl name bs" and w2: "heap_wf s2 xs2"
    and x2: "set xs2 = insert (heap_brk s + 104) (insert (heap_brk s) (set xs))" using mk by (simp_all add: made_def)
  have ap: "procs_apart (proc_hd s) pl" and wf: "heap_wf s xs" and r: "unat (heap_brk s) + 4224 < unat (brk_max s)"
    using pre by (simp_all add: create_pre_def procs_wf_def procs_mem_def)
  note nb = new_bounds [OF pre] and old = made_processes [OF mk]
  show "view F q = view (mem s) q" if q: "q \<in> set pl"
  proof (rule view_cong_tail)
    fix b assume b: "b \<in> span (q + 64) 20"
    then have bq: "b \<in> span q 84" using span_offset [of b q 64 20 84] by simp
    have "F b = mem s2 b"
    proof (rule made_finished(2) [OF mk])
      show "b \<notin> span (new_proc s) 84" "b \<notin> span (new_stack s) 4099" using old(2,3) q bq by blast+
      show "b \<notin> span (proc_hd s) 8" using ap q bq by (auto simp: procs_apart_def)
      show "b \<notin> span (p_list q') 8" if q': "q' \<in> set pl" for q'
      proof (cases "q' = q")
        case True
        then show ?thesis using apart_disjoint [OF _ b, of "q + 24" 8] by (simp add: p_list_def apart_def)
      next
        case False
        then show ?thesis using procs_apart_disjoint [OF ap q q' _ bq] link_in_process by blast
      qed
    qed
    then show "F b = mem s b" using old(1) q bq by auto
  qed
  have sh: "heap_shape s xs" using wf by (simp add: heap_wf_def)
  show "F b = mem s b" if o: "(a, k) \<in> heap_owned s" "b \<in> span a k" and l: "\<forall>q \<in> set pl. b \<notin> span (p_list q) 8"
  proof -
    obtain x where x: "x \<in> set xs" "a = x + 20" "k = unat (mh_size (mem s) x)" using o(1) heap_owned_eq [OF wf] by auto
    note bb = block_bounds [OF sh x(1)] and pf = payload_frame [OF sh x(1) o(2)[unfolded x(2,3)]]
    have b: "unat b < unat (heap_brk s)" "unat (heap_base s) \<le> unat b"
      using o(2) bb(2,3) sh x unat_less_2p32 [of "heap_brk s"] span_nat_iff [of a k b]
      by (auto simp: heap_shape_def laid_out_def)
    have new: "b \<notin> span (new_proc s) 84" "b \<notin> span (new_stack s) 4099" using b(1) by (simp_all add: nb)
    have "off_heap s (span (proc_hd s) 8)" using pre by (simp add: create_pre_def)
    then have "b \<notin> span (proc_hd s) 8" using b r by (auto simp: off_heap_def)
    then have "F b = mem s2 b" using l by (intro made_finished(2) [OF mk new]) auto
    moreover have "b \<notin> span x' 20" if "x' \<in> set xs2" for x'
      using that pf b(1) nb(6,7) [of b] unfolding x2 by auto
    then have "mem s2 b = mem s b" using mk pf new(1) unfolding made_def by blast
    ultimately show ?thesis by simp
  qed
  from sh have base: "unat (heap_base s) \<le> unat (heap_brk s)" by (simp add: heap_shape_def laid_out_def)
  have lim: "unat (heap_brk s) \<le> unat (brk_max s)" using r by simp
  show "F b = mem s b" if o: "off_heap s {b}" and h: "b \<notin> span (proc_hd s) 8"
  proof -
    have out: "b \<notin> span (chain_hd s) 8" "b \<noteq> 16" "\<not> (unat (heap_base s) \<le> unat b \<and> unat b < unat (brk_max s))"
      using o by (simp_all add: off_heap_def)
    have hdr: "b \<notin> span x 20" if "x \<in> set xs2" for x
    proof -
      have "unat (heap_base s) \<le> unat x \<and> unat x + 20 \<le> unat (brk_max s)"
      proof (cases "x \<in> set xs")
        case True
        then show ?thesis using block_bounds(2) [OF sh True] lim sh by (auto simp: heap_shape_def laid_out_def)
      qed (use that x2 nb(2) base r in auto)
      then show ?thesis using out(3) unat_less_2p32 [of "brk_max s"] span_nat_iff [of x 20 b] by auto
    qed
    have new: "b \<notin> span (new_proc s) 84" "b \<notin> span (new_stack s) 4099" using out(3) base r by (auto simp: nb)
    have q: "b \<notin> span q 84" if qp: "q \<in> set pl" for q
    proof -
      have "\<forall>q \<in> set pl. \<exists>k \<ge> 84. (q, k) \<in> heap_owned s" using pre by (simp add: create_pre_def)
      then obtain k where k: "84 \<le> k" "(q, k) \<in> heap_owned s" using qp by blast
      then obtain x where x: "x \<in> set xs" "q = x + 20" "k = unat (mh_size (mem s) x)" using heap_owned_eq [OF wf] by auto
      note bb = block_bounds [OF sh x(1)]
      have "unat (heap_base s) \<le> unat q \<and> unat q + 84 \<le> unat (brk_max s)"
        using bb x k(1) lim sh by (auto simp: heap_shape_def laid_out_def)
      then show ?thesis using out(3) unat_less_2p32 [of "brk_max s"] span_nat_iff [of q 84 b] by auto
    qed
    have "F b = mem s2 b" by (rule made_finished(2) [OF mk new h]) (use q link_in_process in blast)
    moreover have "mem s2 b = mem s b" using mk out(1,2) hdr new(1) unfolding made_def by blast
    ultimately show ?thesis by simp
  qed
qed

text \<open>All effects of the call.\<close>

lemma create_process_effect:
  assumes pre: "create_pre s xs pl name bs"
  obtains s' xs' where "create_process name arg proc s = Some (pidcnt s, s')" "heap_wf s' xs'"
    "procs_wf s' (pl @ [new_proc s])" "\<forall>q \<in> set (pl @ [new_proc s]). \<exists>k \<ge> 84. (q, k) \<in> heap_owned s'"
    "view (mem s') (new_proc s) = \<lparr>v_state = PROC_READY, v_ticks = 100, v_timeout = 0, v_tt = 0\<rparr>"
    "\<forall>q \<in> set pl. view (mem s') q = view (mem s) q"
    "p_pid (mem s') (new_proc s) = pidcnt s" "p_parent (mem s') (new_proc s) = current s"
    "cstring (mem s') (p_name (new_proc s)) (take 31 bs)"
    "frame_at (mem s') (p_esp (mem s') (new_proc s)) (start_words (new_proc s) proc)"
    "p_esp (mem s') (new_proc s) + 60 = heap_brk s' - 1"
    "\<forall>(a, k) \<in> heap_owned s. \<forall>b \<in> span a k. (\<forall>q \<in> set pl. b \<notin> span (p_list q) 8) \<longrightarrow> mem s' b = mem s b"
    "\<And>b. off_heap s {b} \<Longrightarrow> b \<notin> span (proc_hd s) 8 \<Longrightarrow> mem s' b = mem s b"
    "unat (heap_brk s') = unat (heap_brk s) + 4220"
    "s' = s\<lparr>heap_brk := heap_brk s', mem := mem s', total_blocks := total_blocks s', used_blocks := used_blocks s',
       pidcnt := pidcnt s + 1, pcount := pcount s + 1\<rparr>"
proof -
  let ?P = "new_proc s" and ?K = "new_stack s"
  obtain s1 M s2 xs2 where k1: "kmalloc 84 0 s = Some (?P, s1)" and M: "M = filled ?P (pidcnt s) name (mem s1)"
    and k2: "kmalloc 4096 0 (s1\<lparr>mem := M, pidcnt := pidcnt s + 1\<rparr>) = Some (?K, s2)"
    and f1: "pidcnt s1 = pidcnt s" "page_size s1 = page_size s"
    and w2: "heap_wf s2 xs2" "set xs2 = insert (heap_brk s + 104) (insert (heap_brk s) (set xs))"
      "mh_size (mem s2) (heap_brk s) = 84" "mh_used (mem s2) (heap_brk s)" "keeps (set xs) (mem s) (mem s2)"
      "\<And>b. b \<in> span ?P 84 \<Longrightarrow> mem s2 b = M b"
      "\<And>b. b \<notin> span (chain_hd s) 8 \<Longrightarrow> b \<noteq> 16 \<Longrightarrow> (\<And>x. x \<in> set xs2 \<Longrightarrow> b \<notin> span x 20) \<Longrightarrow>
        b \<notin> span ?P 84 \<Longrightarrow> mem s2 b = mem s b"
      "unat (heap_brk s2) = unat (heap_brk s) + 4220"
    and e2: "s2 = s\<lparr>heap_brk := heap_brk s2, mem := mem s2, total_blocks := total_blocks s2,
      used_blocks := used_blocks s2, pidcnt := pidcnt s + 1\<rparr>"
    and nm: "\<And>b. b \<in> span name (Suc (length bs)) \<Longrightarrow> mem s1 b = mem s b"
    by (rule create_allocs [OF pre]) blast
  define F where "F = finished ?P ?K (proc_hd s) proc (current s) (mem s2)"
  define s' where "s' = s2\<lparr>mem := F, pcount := pcount s2 + 1\<rparr>"
  have mk: "made s xs pl name bs proc M s2 xs2 F"
    unfolding made_def F_def using pre w2 e2 by blast
  note fld = made_fields [OF mk] and fin = made_finished [OF mk] and new = made_new [OF mk M nm]
  have cp: "create_process name arg proc s = Some (pidcnt s, s')"
    using create_steps [OF pre k1 f1 M k2 fld(1-3)] new(2) by (simp add: F_def s'_def Let_def)
  have top: "p_esp F ?P + 60 = heap_brk s' - 1" by (simp add: s'_def fin(4) fld(7) new_stack_def)
  show ?thesis
  proof (rule that [of s' xs2])
    show "s' = s\<lparr>heap_brk := heap_brk s', mem := mem s', total_blocks := total_blocks s', used_blocks := used_blocks s',
        pidcnt := pidcnt s + 1, pcount := pcount s + 1\<rparr>"
      unfolding s'_def by (subst e2) (simp add: fld)
    show "\<forall>(a, k) \<in> heap_owned s. \<forall>b \<in> span a k. (\<forall>q \<in> set pl. b \<notin> span (p_list q) 8) \<longrightarrow> mem s' b = mem s b"
      using made_others(3) [OF mk] by (auto simp: s'_def)
    show "procs_wf s' (pl @ [?P])" using fin(1) by (simp add: procs_wf_def s'_def fld)
    show "frame_at (mem s') (p_esp (mem s') ?P) (start_words ?P proc)" using fin(3,4) by (simp add: s'_def)
  qed (use cp made_heap [OF mk s'_def] new fin(8) made_others(1,2) [OF mk] top w2(8) in \<open>simp_all add: s'_def\<close>)
qed

text \<open>C24: \<^verbatim>\<open>create_process\<close>, called where no free block is large enough to be reused, appends a new
  process to the list and answers the next process id. The new process is ready with 100 ticks, no
  timeout and the caller as parent; its name is cut to 31 characters and terminated; its stack holds the
  frame from which the first switch starts its function. In the blocks that were in use, the structures
  and stacks of the other processes among them, no byte changes except the list links of processes; the
  heap's invariant is kept, and all processes lie in blocks in use. The first word of the frame starts
  at the last byte of the stack block: its upper three bytes are written past the end of the heap.\<close>

theorem create_process_appends:
  assumes pre: "create_pre s xs pl name bs"
  shows "\<exists>p s' xs'. create_process name arg proc s = Some (pidcnt s, s') \<and> heap_wf s' xs' \<and> procs_wf s' (pl @ [p])
    \<and> (\<forall>q \<in> set (pl @ [p]). \<exists>k \<ge> 84. (q, k) \<in> heap_owned s')
    \<and> pcount s' = pcount s + 1 \<and> pidcnt s' = pidcnt s + 1 \<and> current s' = current s
    \<and> view (mem s') p = \<lparr>v_state = PROC_READY, v_ticks = 100, v_timeout = 0, v_tt = 0\<rparr>
    \<and> (\<forall>q \<in> set pl. view (mem s') q = view (mem s) q)
    \<and> (\<forall>(a, k) \<in> heap_owned s. \<forall>b \<in> span a k. (\<forall>q \<in> set pl. b \<notin> span (p_list q) 8) \<longrightarrow> mem s' b = mem s b)
    \<and> p_pid (mem s') p = pidcnt s \<and> p_parent (mem s') p = current s \<and> cstring (mem s') (p_name p) (take 31 bs)
    \<and> frame_at (mem s') (p_esp (mem s') p) (start_words p proc) \<and> p_esp (mem s') p + 60 = heap_brk s' - 1"
  by (rule create_process_effect [OF pre, of arg proc])
    (intro exI [of _ "new_proc s"] exI conjI, assumption+, drule arg_cong [of _ _ pcount], simp,
      drule arg_cong [of _ _ pidcnt], simp, drule arg_cong [of _ _ current], simp, assumption+)

end
