(* ===== verification/Sample_Proc.thy ===== *)
theory Sample_Proc
  imports Sample Sched_Run Create
begin

text \<open>
  Two processes on the sample machine: the current one has used up its ticks, the other is ready.
  The properties of the scheduler and of the context switch are instantiated here.
\<close>

definition link1 :: bytes where
  "link1 = list_add_tail (p_list 0xC0300000) 0xC01F0020 (INIT_LIST_HEAD 0xC01F0020 (mem sample))"

definition link2 :: bytes where
  "link2 = list_add_tail (p_list 0xC0300100) 0xC01F0020 link1"

definition with_fields :: "u32 \<Rightarrow> u8 \<Rightarrow> u16 \<Rightarrow> bytes \<Rightarrow> bytes" where
  "with_fields p st t m = set_p_ticks p t (set_p_state p st m)"

definition ring1 :: bytes where
  "ring1 = with_fields 0xC0300000 PROC_RUNNING 0 link1"

definition ring2 :: bytes where
  "ring2 = with_fields 0xC0300100 PROC_READY 1 (with_fields 0xC0300000 PROC_RUNNING 0 link2)"

definition sample_single :: devices where
  "sample_single = sample\<lparr>mem := ring1, current := 0xC0300000, pcount := 1, kernel_preempt := 1\<rparr>"

definition sample_procs :: devices where
  "sample_procs = sample\<lparr>mem := ring2, current := 0xC0300000, pcount := 2, kernel_preempt := 1\<rparr>"

lemma sample_procs_fields [simp]:
  "mem sample_procs = ring2" "current sample_procs = 0xC0300000" "proc_hd sample_procs = 0xC01F0020"
  "pcount sample_procs = 2" "kernel_preempt sample_procs = 1" "esp (cpu sample_procs) = 0xC0310000"
  "mem sample_single = ring1" "current sample_single = 0xC0300000" "proc_hd sample_single = 0xC01F0020"
  "pcount sample_single = 1" "kernel_preempt sample_single = 1" "esp (cpu sample_single) = 0xC0310000"
  by (simp_all add: sample_procs_def sample_single_def no_regs_def)

lemma sample_procs_apart: "procs_apart 0xC01F0020 [0xC0300000, 0xC0300100]"
proof -
  have "span (0xC0300000 :: u32) 84 \<inter> span 0xC01F0020 8 = {}" "span (0xC0300100 :: u32) 84 \<inter> span 0xC01F0020 8 = {}"
    "span (0xC0300000 :: u32) 84 \<inter> span 0xC0300100 84 = {}"
    by (auto simp: span_nat_iff)
  then show ?thesis by (auto simp: procs_apart_def)
qed

lemma with_fields_procs: "procs_mem m h pl \<Longrightarrow> p \<in> set pl \<Longrightarrow> procs_mem (with_fields p st t m) h pl"
  unfolding with_fields_def by (erule procs_mem_local, assumption, rule local_trans [OF local_sets(5) local_sets(6)])

lemma link_lists: "dlist link1 0xC01F0020 [p_list 0xC0300000]"
  "dlist link2 0xC01F0020 [p_list 0xC0300000, p_list 0xC0300100]"
proof -
  have "dlist link1 0xC01F0020 ([] @ [p_list 0xC0300000])"
    unfolding link1_def by (rule dl.seq_append [OF dlist_init]) (simp add: fresh_node_def p_list_def apart_def)
  then show l: "dlist link1 0xC01F0020 [p_list 0xC0300000]" by simp
  have "dlist link2 0xC01F0020 ([p_list 0xC0300000] @ [p_list 0xC0300100])"
    unfolding link2_def by (rule dl.seq_append [OF l]) (simp add: fresh_node_def p_list_def apart_def)
  then show "dlist link2 0xC01F0020 [p_list 0xC0300000, p_list 0xC0300100]" by simp
qed

lemma ring_procs: "procs_mem ring1 0xC01F0020 [0xC0300000]" "procs_mem ring2 0xC01F0020 [0xC0300000, 0xC0300100]"
proof -
  have "procs_mem link1 0xC01F0020 [0xC0300000]" "procs_mem link2 0xC01F0020 [0xC0300000, 0xC0300100]"
    using sample_procs_apart by (auto simp: procs_mem_def procs_apart_def link_lists)
  then show "procs_mem ring1 0xC01F0020 [0xC0300000]" "procs_mem ring2 0xC01F0020 [0xC0300000, 0xC0300100]"
    unfolding ring1_def ring2_def by (simp_all add: with_fields_procs)
qed

lemma sample_kready: "kready sample_single [0xC0300000]" "kready sample_procs [0xC0300000, 0xC0300100]"
proof -
  have "span (0xC0300000 :: u32) 84 \<inter> span 0xC030FFC0 64 = {}" "span (0xC0300100 :: u32) 84 \<inter> span 0xC030FFC0 64 = {}"
    "span (0xC01F0020 :: u32) 8 \<inter> span 0xC030FFC0 64 = {}"
    by (auto simp: span_nat_iff)
  then show "kready sample_single [0xC0300000]" "kready sample_procs [0xC0300000, 0xC0300100]"
    by (simp_all add: kready_def procs_wf_def stack_clear_def is_kernel_preempt_def ring_procs)
qed

lemma sample_states:
  "p_state ring2 0xC0300000 = PROC_RUNNING" "p_ticks ring2 0xC0300000 = 0"
  "p_state ring2 0xC0300100 = PROC_READY" "p_ticks ring2 0xC0300100 = 1"
  unfolding ring2_def with_fields_def by (simp_all add: p_field_defs set_p_defs mem_frame apart_def)

lemma sample_views:
  "v_state (view ring2 0xC0300000) = PROC_RUNNING" "v_ticks (view ring2 0xC0300000) = 0"
  "v_state (view ring2 0xC0300100) = PROC_READY" "v_ticks (view ring2 0xC0300100) = 1"
  by (simp_all add: view_def sample_states)

lemma tick_awake: "v_state v \<noteq> PROC_SLEEPING \<Longrightarrow> tick v = v"
  by (simp add: tick_def)

lemma sample_ticked: "tick (view ring2 0xC0300000) = view ring2 0xC0300000"
  "tick (view ring2 0xC0300100) = view ring2 0xC0300100"
  by (simp_all add: tick_awake sample_views)

lemma sample_switch:
  "spec_schedule [0xC0300000, 0xC0300100] (view ring2) 0xC0300000 =
    Some (True, 0xC0300100, (demote (tick \<circ> view ring2) 0xC0300000)
      (0xC0300100 := account ((view ring2 0xC0300100)\<lparr>v_state := PROC_RUNNING\<rparr>)))"
  by (subst spec_schedule_switch)
    (simp_all add: sample_ticked sample_views spec_select_def demote_def eligible_def)

theorem schedule_refines_witness:
  "\<exists>s'. schedule sample_procs = Some (True, s') \<and> current s' = 0xC0300100
    \<and> p_state (mem s') 0xC0300000 = PROC_READY \<and> p_state (mem s') 0xC0300100 = PROC_RUNNING
    \<and> p_ticks (mem s') 0xC0300100 = 0"
  using schedule_refines [of sample_procs "[0xC0300000, 0xC0300100]"] sample_kready(2)
  by (auto simp: kready_def sample_switch sample_ticked sample_views demote_def account_def simp flip: view_sels)

lemma sample_sleep_switch:
  "\<exists>V. spec_schedule [0xC0300000, 0xC0300100] (asleep (view ring2) 0xC0300000 n) 0xC0300000 = Some (True, 0xC0300100, V)
    \<and> (n \<noteq> 1 \<longrightarrow> v_state (V 0xC0300000) = PROC_SLEEPING)"
proof -
  have "v_state (tick ((view ring2 0xC0300000)\<lparr>v_state := PROC_SLEEPING, v_ticks := 0, v_timeout := n\<rparr>)) \<noteq> PROC_RUNNING"
    by simp
  then have e: "\<not> eligible (tick ((view ring2 0xC0300000)\<lparr>v_state := PROC_SLEEPING, v_ticks := 0, v_timeout := n\<rparr>))"
    by (simp add: eligible_def)
  show ?thesis
    using e by (subst spec_schedule_switch)
      (auto simp: asleep_def sample_ticked sample_views spec_select_def demote_def eligible_def tick_sleeping)
qed

theorem process_sleep_refines_witness:
  "\<exists>s'. process_sleep 10 sample_procs = Some (True, s') \<and> current s' = 0xC0300100
    \<and> p_state (mem s') 0xC0300000 = PROC_SLEEPING"
  using process_sleep_refines [of sample_procs "[0xC0300000, 0xC0300100]" 10] sample_kready(2) sample_sleep_switch [of 10]
  by (auto simp: kready_def asleep_def simp flip: view_sels)

theorem last_sleeper_hangs_witness:
  "process_sleep 10 sample_single = None \<and> process_sleep 0 sample_single = None \<and> process_sleep 1 sample_single \<noteq> None"
  using last_sleeper_hangs [of sample_single "0xC0300000" 10] last_sleeper_hangs [of sample_single "0xC0300000" 0]
    last_sleeper_hangs [of sample_single "0xC0300000" 1] sample_kready(1) by (auto simp: kready_def)

section \<open>Runs\<close>

lemma sample_run:
  "\<exists>s'. kexec [0xC0300000, 0xC0300100] sample_procs [Timer] s'"
  "\<exists>s'. kexec [0xC0300000, 0xC0300100] sample_procs [Sleep 10] s'"
proof -
  have k: "kready sample_procs [0xC0300000, 0xC0300100]" by (rule sample_kready)
  then obtain s1 where "schedule sample_procs = Some (True, s1)"
    using schedule_effect [of sample_procs "[0xC0300000, 0xC0300100]"] by (auto simp: kready_def sample_switch)
  then show "\<exists>s'. kexec [0xC0300000, 0xC0300100] sample_procs [Timer] s'"
    using kstep.timer [OF k] by (auto simp: kexec_simps)
  obtain s2 where "process_sleep 10 sample_procs = Some (True, s2)"
    using process_sleep_effect [of sample_procs "[0xC0300000, 0xC0300100]" 10] k sample_sleep_switch [of 10]
    by (auto simp: kready_def asleep_def)
  then show "\<exists>s'. kexec [0xC0300000, 0xC0300100] sample_procs [Sleep 10] s'"
    using kstep.sleep [OF k] by (auto simp: kexec_simps)
qed

lemma sample_sound: "procs_wf sample_procs [0xC0300000, 0xC0300100]"
  using sample_kready(2) by (simp add: kready_def)

theorem one_running_process_witness:
  "\<exists>s'. kexec [0xC0300000, 0xC0300100] sample_procs [Timer] s' \<and> procs_wf s' [0xC0300000, 0xC0300100]"
proof -
  from sample_run(1) obtain s' where "kexec [0xC0300000, 0xC0300100] sample_procs [Timer] s'" by blast
  with one_running_process [OF this sample_sound] show ?thesis by (auto simp: sample_states)
qed

theorem bounded_wait_witness:
  "\<exists>evs s1. kexec [0xC0300000, 0xC0300100] sample_procs evs s1 \<and> current s1 = 0xC0300100"
proof -
  from sample_run(1) obtain s' where k: "kexec [0xC0300000, 0xC0300100] sample_procs [Timer] s'" by blast
  have "\<exists>evs1 evs2 s1. [Timer] = evs1 @ evs2 \<and> kexec [0xC0300000, 0xC0300100] sample_procs evs1 s1
    \<and> kexec [0xC0300000, 0xC0300100] s1 evs2 s' \<and> current s1 = 0xC0300100"
  proof (rule bounded_wait [OF k sample_sound])
    show "current sample_procs \<in> set [0xC0300000, 0xC0300100]" by simp
    show "(0xC0300100 :: u32) \<in> set [0xC0300000, 0xC0300100]" by simp
    show "p_state (mem sample_procs) 0xC0300100 = PROC_READY" by (simp add: sample_states)
    show "0 < p_ticks (mem sample_procs) 0xC0300100" by (simp add: sample_states)
    show "(\<Sum>q \<leftarrow> [0xC0300000, 0xC0300100]. unat (p_ticks (mem sample_procs) q)) \<le> calls [Timer]"
      by (simp add: sample_states)
  qed
  then show ?thesis by blast
qed

theorem sleep_duration_witness:
  "\<exists>s'. kexec [0xC0300000, 0xC0300100] sample_procs [Sleep 10] s'
    \<and> p_state (mem s') 0xC0300000 = PROC_SLEEPING \<and> p_timeout (mem s') 0xC0300000 = 9"
proof -
  from sample_run(2) obtain s' where k: "kexec [0xC0300000, 0xC0300100] sample_procs [Sleep 10] s'" by blast
  have "p_state (mem s') 0xC0300000 = PROC_SLEEPING \<and> p_timeout (mem s') 0xC0300000 = 10 - of_nat (Suc (calls []))
    \<and> current s' \<noteq> 0xC0300000
    \<and> (\<forall>s''. kstep [0xC0300000, 0xC0300100] s' Timer s'' \<longrightarrow>
         Suc (Suc (calls [])) = (if (10 :: u32) = 0 then 2 ^ 32 else unat (10 :: u32)) \<longrightarrow>
         p_state (mem s'') 0xC0300000 \<noteq> PROC_SLEEPING)"
    by (rule sleep_duration [OF k sample_sound]) simp_all
  then have "p_state (mem s') 0xC0300000 = PROC_SLEEPING" "p_timeout (mem s') 0xC0300000 = 10 - of_nat (Suc (calls []))"
    by blast+
  with k show ?thesis by (intro exI [of _ s']) simp
qed

section \<open>Context switches\<close>

definition sample_fresh :: devices where
  "sample_fresh = sample\<lparr>current := 0xC0300100, mem := setup_kernel_process 0xC0300000 0xC0105000
     (set_p_esp 0xC0300000 0xC0311000 (mem sample))\<rparr>"

theorem fresh_process_starts_witness:
  "current (call_switchTo 0xC0300000 sample_fresh) = 0xC0300000
    \<and> cpu (call_switchTo 0xC0300000 sample_fresh) = start_regs 0xC0311000 0xC0105000"
proof -
  have f: "mem sample_fresh = setup_kernel_process 0xC0300000 0xC0105000 (set_p_esp 0xC0300000 0xC0311000 (mem sample))"
    "current sample_fresh = 0xC0300100" "esp (cpu sample_fresh) = 0xC0310000"
    by (simp_all add: sample_fresh_def no_regs_def)
  have "p_esp (set_p_esp 0xC0300000 0xC0311000 (mem sample)) 0xC0300000 = 0xC0311000"
    by (simp add: p_field_defs set_p_defs mem_frame apart_def)
  then show ?thesis
    using fresh_process_starts [of "0xC0300000" "0xC0311000" "set_p_esp 0xC0300000 0xC0311000 (mem sample)" sample_fresh "0xC0105000"]
    unfolding f by (simp add: span_nat_iff set_eq_iff start_regs_def)
qed

theorem switch_roundtrip_witness:
  "\<exists>s2 :: devices. current (call_switchTo 0xC0300000 s2) = 0xC0300000
    \<and> cpu (call_switchTo 0xC0300000 s2) = no_regs\<lparr>eax := 0xC0101234, esp := 0xC030FFFC, eip := 0xC0101234\<rparr>"
proof -
  let ?s1 = "call_switchTo 0xC0300100 sample_procs"
  let ?s2 = "?s1\<lparr>cpu := no_regs\<lparr>esp := 0xC0320000\<rparr>\<rparr>"
  have d: "span (0xC0300000 :: u32) 4 \<inter> span 0xC030FFC0 64 = {}" by (auto simp: span_nat_iff)
  have f: "cpu sample_procs = no_regs" "schedule_ret sample_procs = 0xC0101234" "esp no_regs = 0xC0310000"
    by (simp_all add: sample_procs_def no_regs_def sample_def)
  have c: "current ?s1 = 0xC0300100"
    using call_switchTo_effect [of sample_procs "0xC0300100"] d by (auto simp: f)
  have "current (call_switchTo 0xC0300000 ?s2) = 0xC0300000
    \<and> cpu (call_switchTo 0xC0300000 ?s2) = (cpu sample_procs)\<lparr>eax := schedule_ret sample_procs,
        esp := esp (cpu sample_procs) - 4, eip := schedule_ret sample_procs\<rparr>"
    by (rule switch_roundtrip [where n = "0xC0300100"]) (simp_all add: c f span_nat_iff set_eq_iff)
  then show ?thesis by (intro exI [of _ ?s2]) (simp add: f)
qed

section \<open>Creating a process\<close>

text \<open>Heap and process list as \<^verbatim>\<open>main\<close> sets them up, and the name of the first process in memory.\<close>

definition sample_core :: devices where
  "sample_core = (init_process sample_heap)\<lparr>mem := poke 0xC0100200 (text_bytes ''Core'') (mem (init_process sample_heap))\<rparr>"

lemma sample_core_fields [simp]:
  "page_size sample_core = 4096" "heap_brk sample_core = 0xC0201000" "heap_base sample_core = 0xC0201000"
  "brk_max sample_core = 0xFFBFC000" "chain_hd sample_core = 0xC01F0000" "proc_hd sample_core = 0xC01F0020"
  "pidcnt sample_core = 0"
  by (simp_all add: sample_core_def init_process_def sample_heap_def init_heap_def Let_def)

lemma sample_core_pre: "create_pre sample_core [] [] 0xC0100200 (map of_char ''Core'')"
proof -
  have l: "length (text_bytes ''Core'') = 5" by (simp add: text_bytes_def)
  have "text_at (mem sample_core) 0xC0100200 (text_bytes ''Core'')"
    by (simp add: sample_core_def poke_text l)
  then have c: "cstring (mem sample_core) 0xC0100200 (map of_char ''Core'')"
    by (simp only: cstring_text text_bytes_def) simp
  have far: "\<not> (b \<in> span 0xC01F0000 8 \<and> (b \<in> span 0xC01F0020 8 \<or> b \<in> span 0xC0100200 5))"
    "\<not> (b \<in> span 0xC01F0020 8 \<and> b \<in> span 0xC0100200 5)" for b :: u32
    by (auto simp: span_nat_iff)
  have keep: "mem sample_core b = mem (init_process sample_heap) b" if "b \<notin> span 0xC0100200 5" for b
    using that by (simp add: sample_core_def poke_def l)
  have init: "mem (init_process sample_heap) b = mem sample_heap b" if "b \<notin> span 0xC01F0020 8" for b
  proof -
    have "b \<notin> span 0xC01F0020 4" "b \<notin> span 0xC01F0024 4"
      using that span_mono [of b "0xC01F0020" 4 8] span_offset [of b "0xC01F0020" 4 4 8] by auto
    then show ?thesis
      by (simp add: init_process_def sample_heap_def init_heap_def Let_def INIT_LIST_HEAD_def set_next_def set_prev_def
          store32_outside)
  qed
  have "heap_wf sample_core []"
    by (rule heap_wf_frame [OF sample_heap_wf(1), where m' = "mem sample_core"])
      (use far keep init in \<open>auto simp: sample_heap_wf sample_core_def init_process_def\<close>)
  moreover have "procs_wf sample_core []"
  proof -
    have "dlist (mem (init_process sample_heap)) 0xC01F0020 []"
      using dlist_init [of "0xC01F0020"] by (simp add: init_process_def sample_heap_def init_heap_def Let_def)
    then have "dlist (mem sample_core) 0xC01F0020 []"
      by (rule dlist_frame) (use far keep in auto)
    then show ?thesis by (simp add: procs_wf_def procs_mem_def procs_apart_def)
  qed
  moreover have "off_heap sample_core (span 0xC01F0020 8)" "off_heap sample_core (span 0xC0100200 (Suc (length (map of_char ''Core'' :: u8 list))))"
    unfolding off_heap_def by (auto simp: span_nat_iff)
  ultimately show ?thesis using c by (simp add: create_pre_def)
qed

theorem create_process_appends_witness:
  "\<exists>p s'. create_process 0xC0100200 0 0xC0105000 sample_core = Some (0, s') \<and> procs_wf s' [p]
    \<and> view (mem s') p = \<lparr>v_state = PROC_READY, v_ticks = 100, v_timeout = 0, v_tt = 0\<rparr>"
  using create_process_appends [OF sample_core_pre, of 0 "0xC0105000"] by auto

end
