(* ===== verification/Boot.thy ===== *)
theory Boot
  imports Devmgr
begin

text \<open>
  The kernel's start, \<^verbatim>\<open>main\<close> and the first process \<^verbatim>\<open>core\<close> of \<^verbatim>\<open>main.c\<close>, and the processes that
  come with it: the tasks of \<^verbatim>\<open>main.c\<close>, the threads of \<^verbatim>\<open>process/testproc.c\<close> and the heap checker of
  \<^verbatim>\<open>mm/heapchecker.c\<close>. \<^verbatim>\<open>main\<close> and \<^verbatim>\<open>core\<close> end in an empty endless loop: the model gives the state
  in which the loop is entered. Of a process that loops for ever around some work, a definition gives
  one round; a process that gives up the CPU continues where its \<open>resume\<close> definition says.
\<close>

section \<open>Printing literals\<close>

fun kprints :: "string list \<Rightarrow> 'a tty_scheme \<Rightarrow> 'a tty_scheme option" where
  "kprints [] s = Some s"
| "kprints (msg # msgs) s = do {
     s \<leftarrow> kprintf (rodata s msg) [] s;
     kprints msgs s
   }"

definition banner_lines :: "string list" where
  "banner_lines =
     ['' _ _         _____ _____ '' @ [CHR 0x0A],
      ''| |_|___ ___|     |   __|'' @ [CHR 0x0A],
      ''| | |   | -_|  |  |__   |'' @ [CHR 0x0A],
      ''|_|_|_|_|___|_____|_____|'' @ [CHR 0x0A],
      ''================================================================================'']"

definition banner :: "'a tty_scheme \<Rightarrow> 'a tty_scheme option" where
  "banner s = kprints banner_lines s"

section \<open>\<^verbatim>\<open>main\<close> and \<^verbatim>\<open>core\<close>\<close>

definition init_message :: string where
  "init_message = '' > Initialising system services...'' @ [CHR 0x0A]"
definition preempt_message :: string where
  "preempt_message = '' > Enabling kernel preemption...'' @ [CHR 0x0A]"
definition spawn_message :: string where
  "spawn_message = '' > Spawning core process...'' @ [CHR 0x0A]"

text \<open>The services, between the first and the second message.\<close>

definition init_services :: "'a system_scheme \<Rightarrow> 'a system_scheme option" where
  "init_services s =
     (let s = init_interrupts s
      in do {
        s \<leftarrow> init_paging s;
        let s = init_heap s;
        s \<leftarrow> set_cpu_caps s;
        s \<leftarrow> init_pic s;
        s \<leftarrow> init_timer s;
        Some (init_process s)
      })"

text \<open>\<open>core_entry\<close> is the address of the function \<^verbatim>\<open>core\<close>.\<close>

definition main :: "u32 \<Rightarrow> 'a system_scheme \<Rightarrow> 'a system_scheme option" where
  "main core_entry s =
     (let s = tty_cls s
      in do {
        s \<leftarrow> banner s;
        s \<leftarrow> kprintf (rodata s init_message) [] s;
        s \<leftarrow> init_services s;
        s \<leftarrow> kprintf (rodata s preempt_message) [] s;
        let s = enable_kernel_preempt s;
        let s = enable_ints s;
        s \<leftarrow> kprintf (rodata s spawn_message) [] s;
        (pid, s) \<leftarrow> create_process (rodata s ''core'') 0 core_entry s;
        Some s
      })"

definition core :: "'a devices_scheme \<Rightarrow> 'a devices_scheme option" where
  "core s = do {
     s \<leftarrow> kprintf (rodata s (''   * Core process starting'' @ [CHR 0x0A])) [] s;
     s \<leftarrow> kprintf (rodata s (''   * Initialising device manager...'' @ [CHR 0x0A])) [] s;
     let s = init_devices s;
     s \<leftarrow> kprintf (rodata s (''   * Detecting hardware...'' @ [CHR 0x0A])) [] s;
     init_floppy s
   }"

section \<open>The tasks and threads\<close>

record tasks = devices +
  bigi_1 :: u32
  bigi_2 :: u32
  bigi_3 :: u32

text \<open>A process that slept comes back inside \<^verbatim>\<open>process_expire\<close>, which turns interrupts on and returns.\<close>

definition task1_rest :: "'a kernel_scheme \<Rightarrow> (bool \<times> 'a kernel_scheme) option" where
  "task1_rest s = do {
     s \<leftarrow> kprintf (rodata s (''Ending process now!'' @ [CHR 0x0A])) [] s;
     process_end s
   }"

definition task1 :: "'a kernel_scheme \<Rightarrow> (bool \<times> 'a kernel_scheme) option" where
  "task1 s = do {
     (switched, s) \<leftarrow> process_sleep 5000 s;
     (if switched then Some (True, s) else task1_rest s)
   }"

definition task1_resume :: "'a kernel_scheme \<Rightarrow> (bool \<times> 'a kernel_scheme) option" where
  "task1_resume s = task1_rest (enable_ints s)"

definition task2_round :: "'a tasks_scheme \<Rightarrow> 'a tasks_scheme option" where
  "task2_round s = do {
     s \<leftarrow> kprintf (rodata s '''') [] s;
     Some (s\<lparr>bigi_2 := bigi_2 s + 1\<rparr>)
   }"

definition task3_round :: "'a tasks_scheme \<Rightarrow> 'a tasks_scheme option" where
  "task3_round s = do {
     s \<leftarrow> kprintf (rodata s '''') [] s;
     Some (s\<lparr>bigi_3 := bigi_3 s + 1\<rparr>)
   }"

definition threada_round :: "'a tty_scheme \<Rightarrow> 'a tty_scheme option" where
  "threada_round s = kprintf (rodata s ''a'') [] s"

definition threadb_round :: "'a tty_scheme \<Rightarrow> 'a tty_scheme option" where
  "threadb_round s = kprintf (rodata s ''b'') [] s"

section \<open>The heap checker\<close>

text \<open>
  The loop sleeps first and checks when it comes back. It runs on without leaving the CPU only while
  \<^verbatim>\<open>process_sleep\<close> returns at once, with preemption off.
\<close>

partial_function (option) heapchecker :: "'a kernel_scheme \<Rightarrow> 'a kernel_scheme option" where
  "heapchecker s =
     Option.bind (process_sleep 500 s) (\<lambda>(switched, s).
       if switched then Some s
       else Option.bind (heapchecker_walk s) (\<lambda>s. heapchecker s))"

text \<open>Where the checker goes on when its context is restored.\<close>

definition heapchecker_resume :: "'a kernel_scheme \<Rightarrow> 'a kernel_scheme option" where
  "heapchecker_resume s = do {
     s \<leftarrow> heapchecker_walk (enable_ints s);
     heapchecker s
   }"

end
