(* ===== verification/Boot_Props.thy ===== *)
theory Boot_Props
  imports Boot Create Cpu_Props Page_Init Sched_Run
begin

text \<open>
  What the kernel's start establishes. The stages of \<^verbatim>\<open>main\<close> meet here: each changes its own
  variables and its own region of memory, so that what an earlier stage has set up, its invariant
  included, is still there when the first process is created. The last section adds what a round of the
  heap checker does on a sound kernel.
\<close>

section \<open>Messages\<close>

lemma message_at_frame:
  assumes "message_at s msg" "rodata s' = rodata s" "screen s' = screen s"
    and "\<And>b. b \<in> span (rodata s msg) (Suc (length msg)) \<Longrightarrow> mem s' b = mem s b"
  shows "message_at s' msg"
proof -
  have "cstring (mem s') (rodata s msg) (map of_char msg) = cstring (mem s) (rodata s msg) (map of_char msg)"
    using assms(1,4) by (intro cstring_cong) (simp_all add: message_at_def)
  then show ?thesis using assms(1-3) by (simp add: message_at_def)
qed

lemma message_at_console:
  assumes "message_at s msg" "console_step s s'"
  shows "message_at s' msg"
proof (rule message_at_frame [OF assms(1)])
  show "rodata s' = rodata s" "screen s' = screen s" using console_step_screen [OF assms(2)] by simp_all
  show "mem s' b = mem s b" if "b \<in> span (rodata s msg) (Suc (length msg))" for b
    using assms that by (auto simp: message_at_def console_step_def)
qed

lemma kprints_step:
  assumes "tty_wf s" "\<forall>msg \<in> set msgs. message_at s msg"
  obtains s' where "kprints msgs s = Some s'" "console_step s s'"
  using assms
proof (induction msgs arbitrary: s thesis)
  case Nil
  show ?case using Nil console_step_fold [of s "[]"] by simp
next
  case (Cons msg msgs)
  let ?s = "fold tty_putc (map of_char msg) s"
  have k: "kprintf (rodata s msg) [] s = Some ?s" "console_step s ?s"
    using Cons.prems by (simp_all add: kprintf_message)
  have "tty_wf ?s" "\<forall>msg \<in> set msgs. message_at ?s msg"
    using k(2) Cons.prems(3) message_at_console [OF _ k(2)] by (auto simp: console_step_def)
  then obtain s' where "kprints msgs ?s = Some s'" "console_step ?s s'" using Cons.IH by blast
  then show ?case using k(1) console_step_trans [OF k(2)] by (intro Cons.prems(1) [of s']) simp_all
qed

lemma console_step_cls:
  assumes "tty_wf s"
  shows "console_step s (tty_cls s)"
proof -
  have n: "tty_w s * tty_h s \<le> 2147483648" using assms tty_dims_size [of s] by (simp add: tty_wf_dims)
  have "mem (tty_cls s) b = mem s b" if "b \<notin> screen s" for b
    using that n tty_blank_outside [of 0 "tty_w s * tty_h s" "tty_w s * tty_h s" b]
    by (simp add: tty_cls_def Let_def screen_def)
  moreover have "tty_wf (tty_cls s)" using assms by (simp add: tty_cls_def Let_def tty_wf_def)
  moreover have "tty_cls s = s\<lparr>mem := mem (tty_cls s), ports := ports (tty_cls s), tty_x := 0, tty_y := 0\<rparr>"
    by (simp add: tty_cls_def Let_def tty_setcursor_def outportb_def)
  ultimately show ?thesis unfolding console_step_def by blast
qed

section \<open>The stages\<close>

lemma strncpy_outside: "b \<notin> span d (unat n) \<Longrightarrow> fst (strncpy m d src n) b = m b"
proof -
  have "b \<notin> span d (unat n) \<Longrightarrow> fst (strncpy_loop m d src n r) b = m b" for r
  proof (induction m d src n r rule: strncpy_loop.induct)
    case (1 m d s n r)
    show ?case
    proof (cases "m s \<noteq> 0 \<and> n \<noteq> 0")
      case True
      have "b \<noteq> d" "b \<notin> span (d + 1) (unat (n - 1))"
        using "1.prems" True span_step [of "unat n" b d] unat_dec [of n] unat_less_2p32 [of n] by auto
      then show ?thesis
        using True "1.IH" [OF True] by (simp add: strncpy_loop.simps [of m d s n r] store8_outside)
    next
      case False
      then show ?thesis by (subst strncpy_loop.simps) (simp only: if_False fst_conv)
    qed
  qed
  then show "b \<notin> span d (unat n) \<Longrightarrow> fst (strncpy m d src n) b = m b" by (simp add: strncpy_def)
qed

lemma populate_caps_only:
  obtains m where "populate_caps_intel caps s = s\<lparr>mem := m\<rparr>" "\<And>b. b \<notin> span caps 283 \<Longrightarrow> m b = mem s b"
proof -
  define m where "m = mem (populate_caps_intel caps s)"
  have e: "populate_caps_intel caps s = s\<lparr>mem := m\<rparr>"
    by (simp add: m_def populate_caps_intel_def Let_def split: prod.splits)
  have out: "store32 m' (caps + i) v b = m' b" if "b \<notin> span caps 283" "unat i + 4 \<le> 283" for m' i v b
    using that span_offset [of b caps i 4 283] by (intro store32_outside) auto
  have cpy: "fst (strncpy m' (caps + i) src n) b = m' b" if "b \<notin> span caps 283" "unat i + unat n \<le> 283" for m' i src n b
    using that span_offset [of b caps i "unat n" 283] by (intro strncpy_outside) auto
  have "m b = mem s b" if b: "b \<notin> span caps 283" for b
  proof -
    obtain eax ebx where l: "cpuid_leaf s 1 = (eax, ebx)" by fastforce
    define m7 where "m7 = store32 (store32 (store32 (store32 (store32 (store32 (store32 (mem s)
      caps (drop_bit 4 eax AND 0xF)) (caps + 4) (drop_bit 8 eax AND 0xF)) (caps + 8) (drop_bit 12 eax AND 0x3))
      (caps + 12) (ebx AND 0xFF)) (caps + 16) (eax AND 0xF)) (caps + 24) (drop_bit 14 eax)) (caps + 20) eax"
    have "m7 b = mem s b" using b out [of b 0] by (simp add: m7_def out)
    moreover obtain str pos where sp: "type_string (load32 m7 (caps + 8)) = (str, pos)" by fastforce
    then have pos: "unat pos \<le> 13" by (auto simp: type_string_def split: if_splits)
    define m8 where "m8 = (if pos = 0 then m7 else fst (strncpy m7 (caps + 28) (rodata s str) pos))"
    have mm: "m = (case family_string (load32 m8 (caps + 4)) of None \<Rightarrow> m8
        | Some (str, n) \<Rightarrow> fst (strncpy m8 (caps + 28 + pos) (rodata s str) n))"
      by (simp only: m_def populate_caps_intel_def l Let_def prod.case m7_def [symmetric] sp m8_def [symmetric]) simp
    have "m8 b = m7 b" using cpy [OF b, of 28 pos] pos by (simp add: m8_def)
    moreover have "m b = m8 b"
    proof (cases "family_string (load32 m8 (caps + 4))")
      case None
      then show ?thesis by (simp add: mm)
    next
      case (Some a)
      obtain fam n where a: "a = (fam, n)" by fastforce
      then have n: "unat n \<le> 12" using Some by (auto simp: family_string_def split: if_splits)
      have "unat (28 + pos) \<le> 41" using pos unat_plus_small [of 28 pos] by simp
      then have "fst (strncpy m8 (caps + (28 + pos)) (rodata s fam) n) b = m8 b"
        using n by (intro cpy [OF b]) simp
      moreover have "m = fst (strncpy m8 (caps + 28 + pos) (rodata s fam) n)"
        using Some a by (simp add: mm)
      ultimately show ?thesis by (simp add: add.assoc)
    qed
    ultimately show ?thesis by simp
  qed
  with e show ?thesis by (rule that)
qed

lemma set_cpu_caps_intel:
  assumes "bit (eflags_mask s) 21" "snd (cpuid_leaf s 0) = 0x756E6547"
  obtains m where "set_cpu_caps s = Some (s\<lparr>mem := m\<rparr>)" "\<And>b. b \<notin> span (k_cpu_caps s) 283 \<Longrightarrow> m b = mem s b"
proof -
  obtain m where "populate_caps_intel (k_cpu_caps s) s = s\<lparr>mem := m\<rparr>"
    "\<And>b. b \<notin> span (k_cpu_caps s) 283 \<Longrightarrow> m b = mem s b" using populate_caps_only by blast
  with assms show ?thesis
    by (intro that [of m]) (simp_all add: set_cpu_caps_def has_cpuid_eq case_prod_unfold Let_def)
qed

lemma alloc_wf_cong:
  assumes "alloc_wf s" "page_zones s' = page_zones s" "num_zones s' = num_zones s" "total_pages s' = total_pages s"
    and "free_pages s' = free_pages s" "k_page_bitmap s' = k_page_bitmap s"
    and "\<And>b. b \<in> bitmap_bytes (k_page_bitmap s) \<Longrightarrow> mem s' b = mem s b"
  shows "alloc_wf s'"
proof -
  have "alloc_wf (s\<lparr>mem := mem s'\<rparr>)" using assms(1,7) by (rule alloc_wf_mem)
  moreover have "zones s' = zones s" using assms(2,3) by (simp add: zones_def)
  moreover have "used_pages s' = used_pages (s\<lparr>mem := mem s'\<rparr>)" using assms(4,6) by (simp add: used_pages_def page_used_def)
  ultimately show ?thesis
    using assms(2-6) by (simp add: alloc_wf_def counts_wf_def zones_wf_def zones_def page_used_def)
qed

section \<open>The loaded kernel\<close>

text \<open>
  The variables in memory that the start writes, with their sizes, and the literals it prints. In
  \<open>loaded\<close> they lie apart from each other in the kernel's image, below its end; the image is page
  aligned and mapped from one megabyte up, and the processor is an Intel one with \<^verbatim>\<open>cpuid\<close>.
\<close>

definition boot_vars :: "'a system_scheme \<Rightarrow> (u32 \<times> nat) list" where
  "boot_vars s = [(tty_scr s, nat (2 * (tty_w s * tty_h s))), (K_IDT_PTR s, 6), (K_IDT s, 2048), (chain_hd s, 8),
     (temp_map_hd s, 8), (k_cpu_caps s, 283), (proc_hd s, 8)]"

definition boot_texts :: "string list" where
  "boot_texts = banner_lines @ [init_message, preempt_message, spawn_message, ''core'']"

definition in_image :: "'a system_scheme \<Rightarrow> u32 \<times> nat \<Rightarrow> bool" where
  "in_image s r \<longleftrightarrow> 17 \<le> unat (fst r) \<and> unat (fst r) + snd r \<le> unat (KERNEL_END s)"

definition separate :: "u32 \<times> nat \<Rightarrow> u32 \<times> nat \<Rightarrow> bool" where
  "separate r r' \<longleftrightarrow> span (fst r) (snd r) \<inter> span (fst r') (snd r') = {}"

text \<open>Bytes of the image and below it that the start does not write.\<close>

definition image_rest :: "'a system_scheme \<Rightarrow> u32 \<Rightarrow> bool" where
  "image_rest s b \<longleftrightarrow> 17 \<le> unat b \<and> unat b < unat (KERNEL_END s) \<and> (\<forall>r \<in> set (boot_vars s). b \<notin> span (fst r) (snd r))"

definition loaded :: "'a system_scheme \<Rightarrow> bool" where
  "loaded s \<longleftrightarrow> tty_wf s \<and> sorted_wrt separate (boot_vars s) \<and> (\<forall>r \<in> set (boot_vars s). in_image s r)
     \<and> (\<forall>msg \<in> set boot_texts. message_at s msg \<and> in_image s (rodata s msg, Suc (length msg))
          \<and> (\<forall>r \<in> set (boot_vars s). separate (rodata s msg, Suc (length msg)) r))
     \<and> KERNEL_END s mod 4096 = 0 \<and> KERNEL_END s < 0xFFBF0000
     \<and> 256 \<le> frame_of s (KERNEL_START s) \<and> frame_of s (KERNEL_START s) \<le> frame_of s (KERNEL_END s)
     \<and> unat (frame_of s (KERNEL_END s)) < 8192
     \<and> bit (eflags_mask s) 21 \<and> snd (cpuid_leaf s 0) = 0x756E6547 \<and> length (k_irq_routines s) = 16"

lemma separateD: "separate r r' \<Longrightarrow> b \<in> span (fst r) (snd r) \<Longrightarrow> b \<notin> span (fst r') (snd r')"
  by (auto simp: separate_def)

lemma in_imageD:
  assumes "in_image s r" "b \<in> span (fst r) (snd r)"
  shows "17 \<le> unat b" "unat b < unat (KERNEL_END s)"
  using assms unat_less_2p32 [of "KERNEL_END s"] span_nat_iff [of "fst r" "snd r" b] by (auto simp: in_image_def)

text \<open>The regions are pairwise disjoint.\<close>

lemma loaded_apart:
  assumes "loaded s"
  shows "b \<in> screen s \<Longrightarrow> b \<notin> span (K_IDT_PTR s) 6 \<and> b \<notin> span (K_IDT s) 2048 \<and> b \<notin> span (chain_hd s) 8
      \<and> b \<notin> span (temp_map_hd s) 8 \<and> b \<notin> span (k_cpu_caps s) 283 \<and> b \<notin> span (proc_hd s) 8"
    "b \<in> span (K_IDT s) 2048 \<Longrightarrow> b \<notin> span (K_IDT_PTR s) 6 \<and> b \<notin> span (chain_hd s) 8
      \<and> b \<notin> span (temp_map_hd s) 8 \<and> b \<notin> span (k_cpu_caps s) 283 \<and> b \<notin> span (proc_hd s) 8"
    "b \<in> span (chain_hd s) 8 \<Longrightarrow> b \<notin> span (temp_map_hd s) 8 \<and> b \<notin> span (k_cpu_caps s) 283 \<and> b \<notin> span (proc_hd s) 8"
proof -
  have s: "sorted_wrt separate (boot_vars s)" using assms by (simp add: loaded_def)
  have e: "separate (a, n) (a', n') \<Longrightarrow> b \<in> span a n \<Longrightarrow> b \<notin> span a' n'" for a n a' n'
    by (auto simp: separate_def)
  show "b \<in> screen s \<Longrightarrow> b \<notin> span (K_IDT_PTR s) 6 \<and> b \<notin> span (K_IDT s) 2048 \<and> b \<notin> span (chain_hd s) 8
      \<and> b \<notin> span (temp_map_hd s) 8 \<and> b \<notin> span (k_cpu_caps s) 283 \<and> b \<notin> span (proc_hd s) 8"
    using s unfolding boot_vars_def screen_def by simp (blast dest: e)
  show "b \<in> span (K_IDT s) 2048 \<Longrightarrow> b \<notin> span (K_IDT_PTR s) 6 \<and> b \<notin> span (chain_hd s) 8
      \<and> b \<notin> span (temp_map_hd s) 8 \<and> b \<notin> span (k_cpu_caps s) 283 \<and> b \<notin> span (proc_hd s) 8"
    using s e [of "K_IDT_PTR s" 6 "K_IDT s" 2048] unfolding boot_vars_def by simp (blast dest: e)
  show "b \<in> span (chain_hd s) 8 \<Longrightarrow> b \<notin> span (temp_map_hd s) 8 \<and> b \<notin> span (k_cpu_caps s) 283 \<and> b \<notin> span (proc_hd s) 8"
    using s unfolding boot_vars_def by simp (blast dest: e)
qed

lemma loaded_image:
  assumes "loaded s" "b \<in> screen s \<or> b \<in> span (K_IDT s) 2048 \<or> b \<in> span (chain_hd s) 8 \<or> b \<in> span (proc_hd s) 8
      \<or> (\<exists>msg \<in> set boot_texts. b \<in> span (rodata s msg) (Suc (length msg)))
      \<or> b \<in> span (temp_map_hd s) 8 \<or> b \<in> span (k_cpu_caps s) 283 \<or> b \<in> span (K_IDT_PTR s) 6"
  shows "17 \<le> unat b \<and> unat b < unat (KERNEL_END s)"
proof -
  have v: "\<forall>r \<in> set (boot_vars s). in_image s r"
    "\<And>msg. msg \<in> set boot_texts \<Longrightarrow> in_image s (rodata s msg, Suc (length msg))"
    using assms(1) by (auto simp: loaded_def)
  have r: "(tty_scr s, nat (2 * (tty_w s * tty_h s))) \<in> set (boot_vars s)" "(K_IDT_PTR s, 6) \<in> set (boot_vars s)"
    "(K_IDT s, 2048) \<in> set (boot_vars s)" "(chain_hd s, 8) \<in> set (boot_vars s)" "(temp_map_hd s, 8) \<in> set (boot_vars s)"
    "(k_cpu_caps s, 283) \<in> set (boot_vars s)" "(proc_hd s, 8) \<in> set (boot_vars s)"
    by (simp_all add: boot_vars_def)
  note d = in_imageD [of s, OF bspec [OF v(1)]]
  show ?thesis
    using assms(2) d [OF r(1), of b] d [OF r(2), of b] d [OF r(3), of b] d [OF r(4), of b] d [OF r(5), of b]
      d [OF r(6), of b] d [OF r(7), of b] in_imageD [OF v(2), of _ b]
    by (auto simp: screen_def)
qed

lemma loaded_console:
  assumes "loaded s" "console_step s s'"
  shows "loaded s'"
proof -
  obtain m p x y where e: "s' = s\<lparr>mem := m, ports := p, tty_x := x, tty_y := y\<rparr>"
    using assms(2) unfolding console_step_def by blast
  have wf: "tty_wf s'" and out: "\<And>b. b \<notin> screen s \<Longrightarrow> mem s' b = mem s b"
    using assms(2) by (simp_all add: console_step_def)
  have low: "KERNEL_END s < 0xFFBF0000" using assms(1) by (simp add: loaded_def)
  have "load32 (mem s') (pte_addr v) = load32 (mem s) (pte_addr v)" for v
  proof (rule load32_cong)
    fix b assume "b \<in> span (pte_addr v) 4"
    then have "0xFFC00000 \<le> unat b" using page_bounds [of v] by (subst (asm) span_nat_iff) (simp_all add: unat_addrs)
    then have "b \<notin> screen s" using loaded_image [OF assms(1), of b] low by (auto simp: word_less_nat_alt)
    then show "mem s' b = mem s b" by (rule out)
  qed
  then have f: "frame_of s' v = frame_of s v" for v by (simp add: frame_of_def)
  have v: "boot_vars s' = boot_vars s" "KERNEL_END s' = KERNEL_END s" "KERNEL_START s' = KERNEL_START s" "rodata s' = rodata s"
    "eflags_mask s' = eflags_mask s" "cpuid_leaf s' = cpuid_leaf s" "k_irq_routines s' = k_irq_routines s"
    by (simp_all add: e boot_vars_def)
  have i: "in_image s' r = in_image s r" for r by (simp add: in_image_def v)
  have "message_at s' msg" if "msg \<in> set boot_texts" for msg
    using message_at_console [OF _ assms(2)] assms(1) that by (simp add: loaded_def)
  then show ?thesis using assms(1) wf unfolding loaded_def v f i by blast
qed

section \<open>The services\<close>

text \<open>What holds once the services of \<open>s0\<close> are up, until the first process is created.\<close>

definition up :: "'a system_scheme \<Rightarrow> 'a system_scheme \<Rightarrow> bool" where
  "up s0 s \<longleftrightarrow> tty_wf s \<and> rodata s = rodata s0 \<and> screen s = screen s0 \<and> panics s = panics s0
     \<and> (\<forall>msg \<in> set boot_texts. message_at s msg)
     \<and> alloc_wf s \<and> window_wf (k_addrspc s) s \<and> k_page_bitmap s = \<lparr>bm_base = KERNEL_END s0, bm_limit = 8192\<rparr>
     \<and> heap_wf s [] \<and> heap_base s = KERNEL_END s0 + 4096 \<and> heap_brk s = KERNEL_END s0 + 4096
     \<and> brk_max s = 0xFFBFC000 \<and> chain_hd s = chain_hd s0
     \<and> procs_wf s [] \<and> proc_hd s = proc_hd s0 \<and> pidcnt s = 0 \<and> pcount s = 0 \<and> current s = 0
     \<and> idtr s = Some (2047, K_IDT s0 - K_ADDR_ADJUST)
     \<and> (\<forall>n < 32. gate_ok (mem s) (K_IDT s0) n (isr_stub s0 n))
     \<and> (\<forall>n. 32 \<le> n \<and> n < 48 \<longrightarrow> gate_ok (mem s) (K_IDT s0) n (irq_stub s0 n))
     \<and> k_irq_routines s = (k_irq_routines s0)[1 := Press, 0 := Timer_Handler]
     \<and> (\<forall>b. image_rest s0 b \<longrightarrow> mem s b = mem s0 b) \<and> port_in s = port_in s0
     \<and> system.more s = system.more s0"

lemma gate_in_table:
  assumes "n < 256" "b \<in> span (idt + 8 * n) 8"
  shows "b \<in> span idt 2048"
proof -
  have u: "unat n < 256" using assms(1) by (simp add: word_less_nat_alt)
  then have "unat (8 * n) = 8 * unat n" by (simp add: unat_word_ariths)
  then show ?thesis using span_offset [of b idt "8 * n" 8 2048] assms(2) u by simp
qed

lemma gate_ok_frame:
  assumes "gate_ok m idt n t" "n < 256" "\<And>b. b \<in> span idt 2048 \<Longrightarrow> m' b = m b"
  shows "gate_ok m' idt n t"
  using gate_cong [of idt n m' m t] gate_in_table [OF assms(2)] assms(1,3) by blast

lemma procs_wf_empty_frame:
  assumes "procs_wf s []" "proc_hd s' = proc_hd s" "\<And>b. b \<in> span (proc_hd s) 8 \<Longrightarrow> mem s' b = mem s b"
  shows "procs_wf s' []"
proof -
  have "dlist (mem s) (proc_hd s) []" using assms(1) by (simp add: procs_wf_def procs_mem_def)
  then have "dlist (mem s') (proc_hd s) []" by (rule dlist_frame) (use assms(3) in simp)
  then show ?thesis by (simp add: procs_wf_def procs_mem_def procs_apart_def assms(2))
qed

text \<open>The bitmap lies between the image and the heap.\<close>

lemma loaded_bitmap:
  assumes "loaded s" "b \<in> bitmap_bytes \<lparr>bm_base = KERNEL_END s, bm_limit = 8192\<rparr>"
  shows "unat (KERNEL_END s) \<le> unat b" "unat b < unat (KERNEL_END s) + 1024"
proof -
  have "unat (KERNEL_END s) < 0xFFBF0000" using assms(1) by (simp add: loaded_def word_less_nat_alt)
  then show "unat (KERNEL_END s) \<le> unat b" "unat b < unat (KERNEL_END s) + 1024"
    using assms(2) span_nat_iff [of "KERNEL_END s" 1024 b] by (simp_all add: bitmap_bytes_def)
qed

lemma up_console:
  assumes "loaded s0" "up s0 s" "console_step s s'"
  shows "up s0 s'"
proof -
  obtain m p x y where e: "s' = s\<lparr>mem := m, ports := p, tty_x := x, tty_y := y\<rparr>"
    using assms(3) unfolding console_step_def by blast
  have scr: "screen s = screen s0" using assms(2) by (simp add: up_def)
  have wf: "tty_wf s'" "screen s' = screen s" and out: "\<And>b. b \<notin> screen s0 \<Longrightarrow> m b = mem s b"
    using assms(3) console_step_screen [OF assms(3)] scr by (simp_all add: console_step_def e)
  note ap = loaded_apart(1) [OF assms(1)]
  have same: "b \<in> span (K_IDT s0) 2048 \<or> b \<in> span (chain_hd s0) 8 \<or> b \<in> span (proc_hd s0) 8
      \<or> b \<in> bitmap_bytes (k_page_bitmap s) \<Longrightarrow> m b = mem s b" for b
  proof (rule out)
    assume b: "b \<in> span (K_IDT s0) 2048 \<or> b \<in> span (chain_hd s0) 8 \<or> b \<in> span (proc_hd s0) 8
      \<or> b \<in> bitmap_bytes (k_page_bitmap s)"
    have kb: "k_page_bitmap s = \<lparr>bm_base = KERNEL_END s0, bm_limit = 8192\<rparr>" using assms(2) by (simp add: up_def)
    have "b \<notin> screen s0" if "b \<in> bitmap_bytes (k_page_bitmap s)"
      using loaded_bitmap(1) [OF assms(1) that [unfolded kb]] loaded_image [OF assms(1), of b] by linarith
    then show "b \<notin> screen s0" using ap b by blast
  qed
  have rest: "m b = mem s b" if "image_rest s0 b" for b
    using that by (intro out) (simp add: image_rest_def boot_vars_def screen_def)
  have "alloc_wf s'" by (rule alloc_wf_cong [of s]) (use assms(2) same in \<open>simp_all add: e up_def\<close>)
  moreover have "heap_wf s' []"
    by (rule heap_wf_frame [of s "[]" m]) (use assms(2) same in \<open>auto simp: e up_def\<close>)
  moreover have "procs_wf s' []"
    by (rule procs_wf_empty_frame [of s]) (use assms(2) same in \<open>auto simp: e up_def\<close>)
  moreover have "gate_ok m (K_IDT s0) n t" if "gate_ok (mem s) (K_IDT s0) n t" "n < 48" for n t
    by (rule gate_ok_frame [OF that(1)]) (use same that(2) less_trans [of n 48 256] in auto)
  moreover have "\<forall>msg \<in> set boot_texts. message_at s' msg"
    using message_at_console [OF _ assms(3)] assms(2) by (simp add: up_def)
  ultimately show ?thesis
    using assms(2) wf rest less_trans [of _ 32 "48 :: u32"] by (auto simp: up_def e window_wf_def screen_def)
qed

text \<open>The first half: the exception gates and paging.\<close>

definition paged :: "'a system_scheme \<Rightarrow> 'a system_scheme \<Rightarrow> bool" where
  "paged s t \<longleftrightarrow> alloc_wf t \<and> window_wf (k_addrspc t) t \<and> kernel_end t = KERNEL_END s + 4096
     \<and> brk_max t = 0xFFBFC000 \<and> page_size t = 4096 \<and> k_page_bitmap t = \<lparr>bm_base = KERNEL_END s, bm_limit = 8192\<rparr>
     \<and> (\<forall>n < 32. gate_ok (mem t) (K_IDT s) n (isr_stub s n))
     \<and> (\<forall>b. unat b < unat (KERNEL_END s) \<longrightarrow> b \<notin> span (K_IDT s) 2048 \<longrightarrow> b \<notin> span (K_IDT_PTR s) 6 \<longrightarrow>
          mem t b = mem s b)
     \<and> k_idt t = K_IDT s \<and> idtr t = Some (2047, K_IDT s - K_ADDR_ADJUST) \<and> irq_stub t = irq_stub s
     \<and> tty_wf t \<and> screen t = screen s \<and> rodata t = rodata s \<and> panics t = panics s
     \<and> chain_hd t = chain_hd s \<and> temp_map_hd t = temp_map_hd s \<and> proc_hd t = proc_hd s
     \<and> k_cpu_caps t = k_cpu_caps s \<and> eflags_mask t = eflags_mask s \<and> cpuid_leaf t = cpuid_leaf s
     \<and> k_irq_routines t = k_irq_routines s \<and> port_in t = port_in s \<and> system.more t = system.more s"

lemma init_paging_paged:
  assumes ld: "loaded s"
  obtains t where "init_paging (init_interrupts s) = Some t" "paged s t"
proof -
  note ap = loaded_apart [OF ld] and img = loaded_image [OF ld]
  have K: "KERNEL_END s mod 4096 = 0" "unat (KERNEL_END s) < 0xFFBF0000" and cpu: "bit (eflags_mask s) 21" "snd (cpuid_leaf s 0) = 0x756E6547"
    and rt: "length (k_irq_routines s) = 16" and wf: "tty_wf s"
    and fr: "256 \<le> frame_of s (KERNEL_START s)" "frame_of s (KERNEL_START s) \<le> frame_of s (KERNEL_END s)"
      "unat (frame_of s (KERNEL_END s)) < 8192"
    using ld by (simp_all add: loaded_def word_less_nat_alt)
  have "span (K_IDT_PTR s) 6 \<inter> span (K_IDT s) 2048 = {}" using ap(2) by blast
  then obtain m1 where s1: "init_interrupts s = s\<lparr>k_idt := K_IDT s, k_idt_ptr := K_IDT_PTR s, mem := m1,
      idtr := Some (2047, K_IDT s - K_ADDR_ADJUST)\<rparr>" "\<And>n. n < 32 \<Longrightarrow> gate_ok m1 (K_IDT s) n (isr_stub s n)"
    and f1: "\<And>b. b \<notin> span (K_IDT_PTR s) 6 \<Longrightarrow> b \<notin> span (K_IDT s) 2048 \<Longrightarrow> m1 b = mem s b"
    by (rule init_interrupts_effect) blast
  define t1 where "t1 = init_interrupts s"
  have "load32 m1 (pte_addr v) = load32 (mem s) (pte_addr v)" for v
  proof (rule load32_cong)
    fix b assume "b \<in> span (pte_addr v) 4"
    then have "0xFFC00000 \<le> unat b" using page_bounds [of v] by (subst (asm) span_nat_iff) (simp_all add: unat_addrs)
    then show "m1 b = mem s b" using f1 [of b] img [of b] K(2) by fastforce
  qed
  then have "frame_of t1 v = frame_of s v" for v by (simp add: frame_of_def t1_def s1)
  moreover have "0 < KERNEL_END s" using img [of "K_IDT s"] by (simp add: self_in_span word_less_nat_alt)
  ultimately obtain t2 where t2: "init_paging t1 = Some t2" "alloc_wf t2" "window_wf (k_addrspc t2) t2"
      "kernel_end t2 = KERNEL_END s + 4096" "brk_max t2 = 0xFFBFC000" "page_size t2 = 4096"
      "k_page_bitmap t2 = \<lparr>bm_base = KERNEL_END s, bm_limit = 8192\<rparr>"
    and f2: "\<And>b. b < 0xFFC00000 \<Longrightarrow> b \<notin> bitmap_bytes (k_page_bitmap t2) \<Longrightarrow> mem t2 b = m1 b" and e2: "paging_only t1 t2"
    using init_paging_effect [of t1] K fr by (auto simp: t1_def s1 word_less_nat_alt)
  obtain m ps kb tp f zs nz ks ke ka bk b where e: "t2 = t1\<lparr>mem := m, page_size := ps, kb_installed := kb,
     total_pages := tp, free_pages := f, page_zones := zs, num_zones := nz, kernel_start := ks, kernel_end := ke,
     k_addrspc := ka, brk_max := bk, k_page_bitmap := b\<rparr>" using e2 unfolding paging_only_def by blast
  have low: "mem t2 b = m1 b" if "unat b < unat (KERNEL_END s)" for b
    using f2 [of b] loaded_bitmap(1) [OF ld, of b] t2(7) that K(2) by (force simp: word_less_nat_alt)
  have g: "gate_ok (mem t2) (K_IDT s) n (isr_stub s n)" if "n < 32" for n
    by (rule gate_ok_frame [OF s1(2) [OF that]]) (use low img that less_trans [of n 32 256] in auto)
  show ?thesis
  proof (rule that [of t2])
    show "init_paging (init_interrupts s) = Some t2" using t2(1) by (simp add: t1_def)
    have "tty_wf t2" "screen t2 = screen s" "rodata t2 = rodata s" "panics t2 = panics s"
      "chain_hd t2 = chain_hd s" "temp_map_hd t2 = temp_map_hd s" "proc_hd t2 = proc_hd s"
      "k_cpu_caps t2 = k_cpu_caps s" "eflags_mask t2 = eflags_mask s" "cpuid_leaf t2 = cpuid_leaf s"
      "k_irq_routines t2 = k_irq_routines s" "k_idt t2 = K_IDT s" "idtr t2 = Some (2047, K_IDT s - K_ADDR_ADJUST)"
      "irq_stub t2 = irq_stub s" "port_in t2 = port_in s" "system.more t2 = system.more s"
      using wf by (simp_all add: e t1_def s1 tty_wf_def screen_def)
    then show "paged s t2" using t2 g low f1 by (simp add: paged_def)
  qed
qed

text \<open>The second half: the heap, the processor's capabilities, interrupts, timer and process list.\<close>

lemma init_heap_only:
  "init_heap s = s\<lparr>heap_base := kernel_end s, heap_brk := kernel_end s, total_blocks := 0, used_blocks := 0,
     mem := INIT_LIST_HEAD (temp_map_hd s) (INIT_LIST_HEAD (chain_hd s) (mem s))\<rparr>"
  by (simp add: init_heap_def Let_def)

lemma init_timer_only:
  assumes "k_irq_routines s \<noteq> []"
  obtains p where "init_timer s = Some (s\<lparr>ports := p, k_irq_routines := (k_irq_routines s)[0 := Timer_Handler]\<rparr>)"
  using assms by (simp add: init_timer_def set_irq_handler_def outportb_def Let_def)

lemma loaded_head_clear:
  assumes "loaded s"
  shows "head_clear (chain_hd s) (KERNEL_END s + 4096) 0xFFBFC000" "KERNEL_END s + 4096 \<le> 0xFFBFC000"
    "apart (chain_hd s) 8 (temp_map_hd s) 8"
proof -
  note img = loaded_image [OF assms]
  have K: "unat (KERNEL_END s) < 0xFFBF0000" using assms by (simp add: loaded_def word_less_nat_alt)
  have u: "unat (KERNEL_END s + 4096) = unat (KERNEL_END s) + 4096"
    using K unat_plus_small [of "KERNEL_END s" 4096] by simp
  have c: "17 \<le> unat b \<and> unat b < unat (KERNEL_END s)" if "b \<in> span (chain_hd s) 8" for b using img that by blast
  have i: "h \<in> span h 8" for h :: u32 by (simp add: self_in_span)
  have k: "17 \<le> unat (KERNEL_END s)" using c [OF i] by simp
  have "apart (chain_hd s) 8 16 1"
  proof (rule apartI)
    show "chain_hd s \<notin> span 16 1" using c [OF i] by (subst span_nat_iff) auto
    show "16 \<notin> span (chain_hd s) 8" using c [of 16] by auto
  qed
  moreover have "apart (chain_hd s) 8 (KERNEL_END s + 4096) (unat (0xFFBFC000 :: u32) - unat (KERNEL_END s + 4096))"
  proof (rule apartI)
    show "chain_hd s \<notin> span (KERNEL_END s + 4096) (unat (0xFFBFC000 :: u32) - unat (KERNEL_END s + 4096))"
      using c [OF i] K by (subst span_nat_iff) (auto simp: u)
    show "KERNEL_END s + 4096 \<notin> span (chain_hd s) 8" using c [of "KERNEL_END s + 4096"] u by auto
  qed
  ultimately show "head_clear (chain_hd s) (KERNEL_END s + 4096) 0xFFBFC000" using u by (simp add: head_clear_def)
  show "KERNEL_END s + 4096 \<le> 0xFFBFC000" using u K by (simp add: word_le_nat_alt)
  show "apart (chain_hd s) 8 (temp_map_hd s) 8"
    by (rule apartI) (use loaded_apart(3) [OF assms] i in blast)+
qed

lemma loaded_text_apart:
  assumes "loaded s" "msg \<in> set boot_texts" "b \<in> span (rodata s msg) (Suc (length msg))"
  shows "b \<notin> span (K_IDT s) 2048" "b \<notin> span (K_IDT_PTR s) 6" "b \<notin> span (chain_hd s) 8" "b \<notin> span (temp_map_hd s) 8"
    "b \<notin> span (k_cpu_caps s) 283" "b \<notin> span (proc_hd s) 8"
proof -
  have "\<forall>r \<in> set (boot_vars s). separate (rodata s msg, Suc (length msg)) r" using assms(1,2) by (simp add: loaded_def)
  then show "b \<notin> span (K_IDT s) 2048" "b \<notin> span (K_IDT_PTR s) 6" "b \<notin> span (chain_hd s) 8" "b \<notin> span (temp_map_hd s) 8"
    "b \<notin> span (k_cpu_caps s) 283" "b \<notin> span (proc_hd s) 8"
    using assms(3) by (auto simp: boot_vars_def separate_def)
qed

lemma bitmap_outside_image:
  assumes "loaded s" "b \<in> bitmap_bytes \<lparr>bm_base = KERNEL_END s, bm_limit = 8192\<rparr>"
  shows "b \<notin> span (K_IDT s) 2048" "b \<notin> span (chain_hd s) 8" "b \<notin> span (temp_map_hd s) 8"
    "b \<notin> span (k_cpu_caps s) 283" "b \<notin> span (proc_hd s) 8"
proof -
  have "\<not> unat b < unat (KERNEL_END s)" using loaded_bitmap(1) [OF assms] by simp
  then show "b \<notin> span (K_IDT s) 2048" "b \<notin> span (chain_hd s) 8" "b \<notin> span (temp_map_hd s) 8"
    "b \<notin> span (k_cpu_caps s) 283" "b \<notin> span (proc_hd s) 8"
    using loaded_image [OF assms(1), of b] by blast+
qed

text \<open>The memory after the services: each region as its own service left it.\<close>

lemma services_up:
  assumes ld: "loaded s" and pg: "paged s t2" and h3: "heap_wf t3 []" and pd: "procs_wf t7 []"
    and chain: "\<And>b. b \<in> span (chain_hd s) 8 \<Longrightarrow> mem t7 b = mem t3 b"
    and gates: "\<And>n. n < 32 \<Longrightarrow> gate_ok (mem t7) (K_IDT s) n (isr_stub s n)"
      "\<And>n. 32 \<le> n \<Longrightarrow> n < 48 \<Longrightarrow> gate_ok (mem t7) (K_IDT s) n (irq_stub s n)"
    and rest: "\<And>b. b \<notin> span (K_IDT s) 2048 \<Longrightarrow> b \<notin> span (chain_hd s) 8 \<Longrightarrow> b \<notin> span (temp_map_hd s) 8 \<Longrightarrow>
      b \<notin> span (k_cpu_caps s) 283 \<Longrightarrow> b \<notin> span (proc_hd s) 8 \<Longrightarrow> mem t7 b = mem t2 b"
    and fld: "tty_wf t7 = tty_wf t2" "rodata t7 = rodata t2" "screen t7 = screen t2" "panics t7 = panics t2"
      "page_zones t7 = page_zones t2" "num_zones t7 = num_zones t2" "total_pages t7 = total_pages t2" "free_pages t7 = free_pages t2"
      "k_page_bitmap t7 = k_page_bitmap t2" "k_addrspc t7 = k_addrspc t2" "page_size t7 = page_size t2" "brk_max t7 = brk_max t2"
      "heap_base t7 = heap_base t3" "heap_brk t7 = heap_brk t3" "chain_hd t7 = chain_hd s" "total_blocks t7 = total_blocks t3"
      "used_blocks t7 = used_blocks t3" "proc_hd t7 = proc_hd s" "pidcnt t7 = 0" "pcount t7 = 0" "current t7 = 0"
      "idtr t7 = idtr t2" "k_irq_routines t7 = (k_irq_routines s)[1 := Press, 0 := Timer_Handler]"
      "heap_base t3 = KERNEL_END s + 4096" "heap_brk t3 = KERNEL_END s + 4096" "brk_max t3 = brk_max t2" "chain_hd t3 = chain_hd s"
      "port_in t7 = port_in t2" "system.more t7 = system.more t2"
  shows "up s t7"
proof -
  have kb: "k_page_bitmap t2 = \<lparr>bm_base = KERNEL_END s, bm_limit = 8192\<rparr>" and al: "alloc_wf t2" using pg by (simp_all add: paged_def)
  have "mem t7 b = mem t2 b" if "b \<in> bitmap_bytes (k_page_bitmap t2)" for b
    by (intro rest bitmap_outside_image [OF ld]) (use that kb in simp_all)
  then have "alloc_wf t7" by (intro alloc_wf_cong [OF al] fld)
  moreover have "heap_wf t7 []"
    by (rule heap_wf_frame [OF h3, of "mem t7"]) (use chain fld in auto)
  moreover have "message_at t7 msg" if m: "msg \<in> set boot_texts" for msg
  proof (rule message_at_frame [of s])
    show "message_at s msg" using ld m by (simp add: loaded_def)
    show "rodata t7 = rodata s" "screen t7 = screen s" using pg fld by (simp_all add: paged_def)
    fix b assume b: "b \<in> span (rodata s msg) (Suc (length msg))"
    have "unat b < unat (KERNEL_END s)" using loaded_image [OF ld, of b] b m by blast
    then show "mem t7 b = mem s b" using rest loaded_text_apart [OF ld m b] pg by (simp add: paged_def)
  qed
  moreover have "unat (KERNEL_END s) < 0xFFBF0000" using ld by (simp add: loaded_def word_less_nat_alt)
  moreover have "mem t7 b = mem s b" if "image_rest s b" for b
    using that rest [of b] pg by (simp add: image_rest_def boot_vars_def paged_def)
  ultimately show ?thesis using pd gates pg unfolding up_def by (simp add: paged_def fld window_wf_def)
qed

lemma init_services_up:
  assumes ld: "loaded s"
  obtains s' where "init_services s = Some s'" "up s s'"
proof -
  note ap = loaded_apart [OF ld] and img = loaded_image [OF ld]
  obtain t2 where t2: "init_paging (init_interrupts s) = Some t2" and pg: "paged s t2" by (rule init_paging_paged [OF ld])
  define t3 where "t3 = init_heap t2"
  have k2: "kernel_end t2 = KERNEL_END s + 4096" "brk_max t2 = 0xFFBFC000" "chain_hd t2 = chain_hd s"
    "temp_map_hd t2 = temp_map_hd s" "k_cpu_caps t2 = k_cpu_caps s" "k_idt t2 = K_IDT s" "eflags_mask t2 = eflags_mask s"
    "cpuid_leaf t2 = cpuid_leaf s" "k_irq_routines t2 = k_irq_routines s" "irq_stub t2 = irq_stub s" "proc_hd t2 = proc_hd s"
    using pg by (simp_all add: paged_def)
  have h3: "heap_wf t3 []" unfolding t3_def by (rule init_heap_wf) (use loaded_head_clear [OF ld] k2 in simp_all)
  have cpu: "bit (eflags_mask t3) 21" "snd (cpuid_leaf t3 0) = 0x756E6547" and rt: "length (k_irq_routines s) = 16"
    using ld k2 by (simp_all add: loaded_def t3_def init_heap_only)
  obtain m4 where t4: "set_cpu_caps t3 = Some (t3\<lparr>mem := m4\<rparr>)" and f4: "\<And>b. b \<notin> span (k_cpu_caps s) 283 \<Longrightarrow> m4 b = mem t3 b"
    using set_cpu_caps_intel [OF cpu] k2 by (auto simp: t3_def init_heap_only)
  have "length (k_irq_routines (t3\<lparr>mem := m4\<rparr>)) = 16" using rt k2 by (simp add: t3_def init_heap_only)
  then obtain m5 where t5: "init_pic (t3\<lparr>mem := m4\<rparr>) = Some (t3\<lparr>ports := ports t3 @ [(0x20, 0x11), (0xA0, 0x11),
      (0x21, 0x20), (0xA1, 0x28), (0x21, 0x04), (0xA1, 0x02), (0x21, 0x01), (0xA1, 0x01), (0x21, 0x0), (0xA1, 0x0)],
      mem := m5, k_irq_routines := (k_irq_routines s)[1 := Press]\<rparr>)" (is "_ = Some ?t5")
    and g5: "\<And>n. 32 \<le> n \<Longrightarrow> n < 48 \<Longrightarrow> gate_ok m5 (K_IDT s) n (irq_stub s n)"
      "\<And>n t. n < 32 \<Longrightarrow> gate_ok m5 (K_IDT s) n t = gate_ok m4 (K_IDT s) n t"
    and f5: "\<And>b. b \<notin> span (K_IDT s) 2048 \<Longrightarrow> m5 b = m4 b"
    by (rule init_pic_effect) (simp add: k2 t3_def init_heap_only)
  obtain pt where t6: "init_timer ?t5 = Some (?t5\<lparr>ports := pt, k_irq_routines := (k_irq_routines s)[1 := Press, 0 := Timer_Handler]\<rparr>)"
    (is "_ = Some ?t6") by (rule init_timer_only [of ?t5]) (use rt in auto)
  define t7 where "t7 = init_process ?t6"
  have m7: "mem t7 = INIT_LIST_HEAD (proc_hd s) m5" by (simp add: t7_def init_process_def t3_def init_heap_only k2)
  have f3: "mem t3 b = mem t2 b" if "b \<notin> span (chain_hd s) 8" "b \<notin> span (temp_map_hd s) 8" for b
    using that by (simp add: t3_def init_heap_only k2 list_head_outside)
  have f7: "mem t7 b = m5 b" if "b \<notin> span (proc_hd s) 8" for b using that by (simp add: m7 list_head_outside)
  have idt: "mem t7 b = m5 b \<and> m4 b = mem t2 b" if "b \<in> span (K_IDT s) 2048" for b
    using f7 f4 f3 ap(2) that by metis
  have chain: "mem t7 b = mem t3 b" if "b \<in> span (chain_hd s) 8" for b
    using f7 f5 f4 ap(2,3) that by metis
  have rest: "mem t7 b = mem t2 b" if "b \<notin> span (K_IDT s) 2048" "b \<notin> span (chain_hd s) 8" "b \<notin> span (temp_map_hd s) 8"
    "b \<notin> span (k_cpu_caps s) 283" "b \<notin> span (proc_hd s) 8" for b
    using f7 f5 f4 f3 that by simp
  have fld: "tty_wf t7 = tty_wf t2" "rodata t7 = rodata t2" "screen t7 = screen t2" "panics t7 = panics t2"
    "page_zones t7 = page_zones t2" "num_zones t7 = num_zones t2" "total_pages t7 = total_pages t2" "free_pages t7 = free_pages t2"
    "k_page_bitmap t7 = k_page_bitmap t2" "k_addrspc t7 = k_addrspc t2" "page_size t7 = page_size t2" "brk_max t7 = brk_max t2"
    "heap_base t7 = heap_base t3" "heap_brk t7 = heap_brk t3" "chain_hd t7 = chain_hd s" "total_blocks t7 = total_blocks t3"
    "used_blocks t7 = used_blocks t3" "proc_hd t7 = proc_hd s" "pidcnt t7 = 0" "pcount t7 = 0" "current t7 = 0"
    "idtr t7 = idtr t2" "k_irq_routines t7 = (k_irq_routines s)[1 := Press, 0 := Timer_Handler]"
    "heap_base t3 = KERNEL_END s + 4096" "heap_brk t3 = KERNEL_END s + 4096"
    "port_in t7 = port_in t2" "system.more t7 = system.more t2"
    by (simp_all add: t7_def init_process_def t3_def init_heap_only k2 tty_wf_def screen_def)
  show ?thesis
  proof (rule that [of t7])
    show "init_services s = Some t7"
      using t2 t4 t5 t6 by (simp add: init_services_def t7_def flip: t3_def)
    show "up s t7"
    proof (rule services_up [OF ld pg h3 _ chain _ _ rest])
      have "dlist (mem t7) (proc_hd t7) []" using dlist_init [of "proc_hd s" m5] by (simp add: m7 fld)
      then show "procs_wf t7 []" by (simp add: procs_wf_def procs_mem_def procs_apart_def)
      show "gate_ok (mem t7) (K_IDT s) n (irq_stub s n)" if "32 \<le> n" "n < 48" for n
        by (rule gate_ok_frame [OF g5(1) [OF that]]) (use idt less_trans [OF that(2), of 256] in auto)
      show "gate_ok (mem t7) (K_IDT s) n (isr_stub s n)" if n: "n < 32" for n
      proof -
        have "gate_ok (mem t2) (K_IDT s) n (isr_stub s n)" using pg n by (simp add: paged_def)
        then have "gate_ok m4 (K_IDT s) n (isr_stub s n)"
          by (rule gate_ok_frame) (use idt less_trans [OF n, of 256] in auto)
        then have "gate_ok m5 (K_IDT s) n (isr_stub s n)" using g5(2) n by simp
        then show ?thesis by (rule gate_ok_frame) (use idt less_trans [OF n, of 256] in auto)
      qed
    qed (simp_all add: fld t3_def init_heap_only k2)
  qed
qed

section \<open>The whole start\<close>

lemma up_create_pre:
  assumes "loaded s0" "up s0 s"
  shows "create_pre s [] [] (rodata s ''core'') (map of_char ''core'')"
proof -
  have K: "unat (KERNEL_END s0) < 0xFFBF0000" using assms(1) by (simp add: loaded_def word_less_nat_alt)
  have u: "unat (KERNEL_END s0 + 4096) = unat (KERNEL_END s0) + 4096"
    using K unat_plus_small [of "KERNEL_END s0" 4096] by simp
  have m: "''core'' \<in> set boot_texts" by (simp add: boot_texts_def)
  have off: "off_heap s R" if R: "\<And>b. b \<in> R \<Longrightarrow> 17 \<le> unat b \<and> unat b < unat (KERNEL_END s0)"
      and c: "\<And>b. b \<in> R \<Longrightarrow> b \<notin> span (chain_hd s0) 8" for R
    unfolding off_heap_def using assms(2) R c by (fastforce simp: up_def u)
  have "off_heap s (span (proc_hd s0) 8)"
    by (rule off) (use loaded_image [OF assms(1)] loaded_apart(3) [OF assms(1)] in blast)+
  moreover have "off_heap s (span (rodata s0 ''core'') (Suc (length ''core'')))"
    by (rule off) (use loaded_image [OF assms(1)] m loaded_text_apart(3) [OF assms(1) m] in blast)+
  moreover have "message_at s ''core''" using assms(2) m by (simp add: up_def)
  ultimately show ?thesis
    using assms(2) K u by (simp add: create_pre_def up_def window_wf_def message_at_def)
qed

lemma up_enabled:
  assumes "up s0 s"
  shows "up s0 (enable_ints (enable_kernel_preempt s))"
proof -
  let ?s = "enable_ints (enable_kernel_preempt s)"
  have "alloc_wf ?s" by (rule alloc_wf_cong [of s]) (use assms in \<open>simp_all add: up_def enable_ints_def enable_kernel_preempt_def\<close>)
  moreover have "heap_wf ?s []"
    by (rule heap_wf_frame [of s "[]"]) (use assms in \<open>simp_all add: up_def enable_ints_def enable_kernel_preempt_def\<close>)
  moreover have "message_at ?s msg" if "msg \<in> set boot_texts" for msg
    by (rule message_at_frame [of s])
      (use assms that in \<open>simp_all add: up_def enable_ints_def enable_kernel_preempt_def screen_def\<close>)
  moreover have "tty_wf ?s = tty_wf s" "screen ?s = screen s" "window_wf a ?s = window_wf a s" "procs_wf ?s [] = procs_wf s []" for a
    by (simp_all add: enable_ints_def enable_kernel_preempt_def tty_wf_def screen_def window_wf_def procs_wf_def)
  ultimately show ?thesis using assms by (simp add: up_def) (simp add: enable_ints_def enable_kernel_preempt_def)
qed

lemma up_source:
  assumes "console_step s0 s1" "up s1 s"
  shows "up s0 s"
proof -
  obtain m p x y where e: "s1 = s0\<lparr>mem := m, ports := p, tty_x := x, tty_y := y\<rparr>"
    using assms(1) unfolding console_step_def by blast
  have i: "image_rest s1 b = image_rest s0 b" for b by (simp add: image_rest_def boot_vars_def e)
  have "mem s1 b = mem s0 b" if "image_rest s0 b" for b
    using that assms(1) by (simp add: console_step_def image_rest_def boot_vars_def screen_def)
  then show ?thesis using assms(2) by (simp add: up_def i) (simp add: e screen_def)
qed

text \<open>\<^verbatim>\<open>main\<close> up to the creation of the process.\<close>

lemma main_up:
  assumes ld: "loaded s"
  obtains t where "main core_entry s = map_option snd (create_process (rodata t ''core'') 0 core_entry t)"
    "up s t" "kernel_preempt t = 1" "bit (eflags (cpu t)) 9"
proof -
  have m: "set banner_lines \<subseteq> set boot_texts" "{init_message, preempt_message, spawn_message} \<subseteq> set boot_texts"
    by (auto simp: boot_texts_def)
  have wf: "tty_wf s" using ld by (simp add: loaded_def)
  have c0: "console_step s (tty_cls s)" by (rule console_step_cls [OF wf])
  note l0 = loaded_console [OF ld c0]
  have "tty_wf (tty_cls s)" "\<forall>msg \<in> set banner_lines. message_at (tty_cls s) msg" using l0 m(1) by (auto simp: loaded_def)
  then obtain t1 where t1: "banner (tty_cls s) = Some t1" and c1: "console_step (tty_cls s) t1"
    unfolding banner_def by (rule kprints_step)
  note l1 = loaded_console [OF l0 c1]
  define t2 where "t2 = fold tty_putc (map of_char init_message) t1"
  have t2: "kprintf (rodata t1 init_message) [] t1 = Some t2" and c2: "console_step t1 t2"
    using kprintf_message [of t1 init_message] l1 m(2) by (simp_all add: loaded_def t2_def)
  obtain t3 where t3: "init_services t2 = Some t3" and u3: "up t2 t3" by (rule init_services_up [OF loaded_console [OF l1 c2]])
  have u3: "up s t3" using up_source [OF c0] up_source [OF c1] up_source [OF c2 u3] by simp
  define t4 where "t4 = fold tty_putc (map of_char preempt_message) t3"
  have t4: "kprintf (rodata t3 preempt_message) [] t3 = Some t4" and c4: "console_step t3 t4"
    using kprintf_message [of t3 preempt_message] u3 m(2) by (simp_all add: up_def t4_def)
  define t5 where "t5 = enable_ints (enable_kernel_preempt t4)"
  have u5: "up s t5" unfolding t5_def by (rule up_enabled [OF up_console [OF ld u3 c4]])
  define t6 where "t6 = fold tty_putc (map of_char spawn_message) t5"
  have t6: "kprintf (rodata t5 spawn_message) [] t5 = Some t6" and c6: "console_step t5 t6"
    using kprintf_message [of t5 spawn_message] u5 m(2) by (simp_all add: up_def t6_def)
  have f: "kernel_preempt t6 = kernel_preempt t5" "cpu t6 = cpu t5" using c6 by (auto simp: console_step_def)
  show ?thesis
  proof (rule that [of t6])
    show "up s t6" by (rule up_console [OF ld u5 c6])
    show "kernel_preempt t6 = 1" by (simp add: f t5_def enable_ints_def enable_kernel_preempt_def)
    have "bit (eflags (cpu t5)) 9" by (simp add: t5_def enable_ints_def bit_simps)
    then show "bit (eflags (cpu t6)) 9" by (simp add: f)
    show "main core_entry s = map_option snd (create_process (rodata t6 ''core'') 0 core_entry t6)"
      using t1 t2 t3 t4 t6 by (cases "create_process (rodata t6 ''core'') 0 core_entry t6")
        (auto simp: main_def Let_def t5_def)
  qed
qed

text \<open>The creation of the process leaves everything off the heap alone.\<close>

lemma create_keeps:
  assumes "loaded s" "up s t" and out: "\<And>b. off_heap t {b} \<Longrightarrow> b \<notin> span (proc_hd t) 8 \<Longrightarrow> m b = mem t b"
  shows "b \<in> span (K_IDT s) 2048 \<Longrightarrow> m b = mem t b" "b \<in> bitmap_bytes (k_page_bitmap t) \<Longrightarrow> m b = mem t b"
proof -
  have K: "unat (KERNEL_END s) < 0xFFBF0000" using assms(1) by (simp add: loaded_def word_less_nat_alt)
  have u: "unat (KERNEL_END s + 4096) = unat (KERNEL_END s) + 4096"
    using K unat_plus_small [of "KERNEL_END s" 4096] by simp
  have f: "chain_hd t = chain_hd s" "proc_hd t = proc_hd s" "heap_base t = KERNEL_END s + 4096"
    "k_page_bitmap t = \<lparr>bm_base = KERNEL_END s, bm_limit = 8192\<rparr>" using assms(2) by (simp_all add: up_def)
  have o: "off_heap t {b}" if "17 \<le> unat b" "unat b < unat (KERNEL_END s) + 4096" "b \<notin> span (chain_hd s) 8" for b
    using that u by (auto simp: off_heap_def f)
  show "m b = mem t b" if b: "b \<in> span (K_IDT s) 2048"
  proof -
    have "17 \<le> unat b \<and> unat b < unat (KERNEL_END s)" using loaded_image [OF assms(1)] b by blast
    then show ?thesis using loaded_apart(2) [OF assms(1) b] by (intro out o) (simp_all add: f)
  qed
  show "m b = mem t b" if b: "b \<in> bitmap_bytes (k_page_bitmap t)"
  proof -
    note b' = b [unfolded f]
    have "17 \<le> unat (KERNEL_END s)" using loaded_image [OF assms(1), of "K_IDT s"] by (simp add: self_in_span)
    then show ?thesis
      using loaded_bitmap [OF assms(1) b'] bitmap_outside_image [OF assms(1) b'] by (intro out o) (simp_all add: f)
  qed
qed

text \<open>What \<^verbatim>\<open>main\<close> leaves behind: the process \<open>p\<close> in the list, and all that \<open>up\<close> says of the rest.\<close>

definition booted :: "'a system_scheme \<Rightarrow> u32 \<Rightarrow> u32 \<Rightarrow> u32 list \<Rightarrow> 'a system_scheme \<Rightarrow> bool" where
  "booted s core_entry p xs s' \<longleftrightarrow> panics s' = panics s \<and> tty_wf s' \<and> screen s' = screen s \<and> rodata s' = rodata s
    \<and> alloc_wf s' \<and> window_wf (k_addrspc s') s' \<and> k_page_bitmap s' = \<lparr>bm_base = KERNEL_END s, bm_limit = 8192\<rparr>
    \<and> heap_wf s' xs \<and> heap_base s' = KERNEL_END s + 4096 \<and> unat (heap_brk s') = unat (KERNEL_END s) + 4096 + 4220
    \<and> brk_max s' = 0xFFBFC000 \<and> chain_hd s' = chain_hd s
    \<and> procs_wf s' [p] \<and> proc_hd s' = proc_hd s \<and> (\<exists>k \<ge> 84. (p, k) \<in> heap_owned s') \<and> unat p = unat (KERNEL_END s) + 4096 + 20
    \<and> view (mem s') p = \<lparr>v_state = PROC_READY, v_ticks = 100, v_timeout = 0, v_tt = 0\<rparr> \<and> p_pid (mem s') p = 0
    \<and> cstring (mem s') (p_name p) (map of_char ''core'')
    \<and> frame_at (mem s') (p_esp (mem s') p) (start_words p core_entry) \<and> p_esp (mem s') p + 60 = heap_brk s' - 1
    \<and> current s' = 0 \<and> pcount s' = 1 \<and> is_kernel_preempt s' = 1 \<and> bit (eflags (cpu s')) 9
    \<and> idtr s' = Some (2047, K_IDT s - K_ADDR_ADJUST)
    \<and> (\<forall>n < 32. gate_ok (mem s') (K_IDT s) n (isr_stub s n))
    \<and> (\<forall>n. 32 \<le> n \<and> n < 48 \<longrightarrow> gate_ok (mem s') (K_IDT s) n (irq_stub s n))
    \<and> k_irq_routines s' = (k_irq_routines s)[0 := Timer_Handler, 1 := Press]
    \<and> (\<forall>b. image_rest s b \<longrightarrow> mem s' b = mem s b) \<and> port_in s' = port_in s
    \<and> system.more s' = system.more s"

lemma image_rest_off_heap:
  assumes "loaded s" "up s t" "image_rest s b"
  shows "off_heap t {b}" "b \<notin> span (proc_hd t) 8"
proof -
  have K: "unat (KERNEL_END s) < 0xFFBF0000" using assms(1) by (simp add: loaded_def word_less_nat_alt)
  have u: "unat (KERNEL_END s + 4096) = unat (KERNEL_END s) + 4096"
    using K unat_plus_small [of "KERNEL_END s" 4096] by simp
  show "off_heap t {b}" "b \<notin> span (proc_hd t) 8"
    using assms(2,3) u by (auto simp: off_heap_def up_def image_rest_def boot_vars_def)
qed

lemma main_booted:
  assumes "loaded s"
  obtains s' p xs where "main core_entry s = Some s'" "booted s core_entry p xs s'"
proof -
  obtain t where m: "main core_entry s = map_option snd (create_process (rodata t ''core'') 0 core_entry t)"
    and up: "up s t" and on: "kernel_preempt t = 1" "bit (eflags (cpu t)) 9" by (rule main_up [OF assms])
  let ?p = "new_proc t"
  obtain s' xs where c: "create_process (rodata t ''core'') 0 core_entry t = Some (pidcnt t, s')" and wf: "heap_wf s' xs"
      "procs_wf s' [?p]" "\<exists>k \<ge> 84. (?p, k) \<in> heap_owned s'"
    and v: "view (mem s') ?p = \<lparr>v_state = PROC_READY, v_ticks = 100, v_timeout = 0, v_tt = 0\<rparr>" "p_pid (mem s') ?p = pidcnt t"
      "cstring (mem s') (p_name ?p) (take 31 (map of_char ''core''))"
      "frame_at (mem s') (p_esp (mem s') ?p) (start_words ?p core_entry)" "p_esp (mem s') ?p + 60 = heap_brk s' - 1"
    and out: "\<And>b. off_heap t {b} \<Longrightarrow> b \<notin> span (proc_hd t) 8 \<Longrightarrow> mem s' b = mem t b"
    and brk: "unat (heap_brk s') = unat (heap_brk t) + 4220"
    and e: "s' = t\<lparr>heap_brk := heap_brk s', mem := mem s', total_blocks := total_blocks s', used_blocks := used_blocks s',
       pidcnt := pidcnt t + 1, pcount := pcount t + 1\<rparr>"
    by (rule create_process_effect [OF up_create_pre [OF assms up], of 0 core_entry]) simp
  obtain a b c' d f g where e': "s' = t\<lparr>heap_brk := a, mem := b, total_blocks := c', used_blocks := d, pidcnt := f, pcount := g\<rparr>"
    and g: "g = pcount t + 1" using e by blast
  have K: "unat (KERNEL_END s) < 0xFFBF0000" using assms by (simp add: loaded_def word_less_nat_alt)
  have u: "unat (KERNEL_END s + 4096) = unat (KERNEL_END s) + 4096"
    "unat (KERNEL_END s + 4096 + 20) = unat (KERNEL_END s) + 4096 + 20"
    using K unat_plus_small [of "KERNEL_END s" 4096] unat_plus_small [of "KERNEL_END s + 4096" 20] by simp_all
  note keep = create_keeps [OF assms up, of "mem s'", OF out]
  have "alloc_wf s'" by (rule alloc_wf_cong [of t]) (use up keep(2) in \<open>simp_all add: up_def e'\<close>)
  moreover have "gate_ok (mem s') (K_IDT s) n x" if "gate_ok (mem t) (K_IDT s) n x" "n < 48" for n x
    by (rule gate_ok_frame [OF that(1)]) (use keep(1) less_trans [OF that(2), of 256] in auto)
  moreover have "(k_irq_routines s)[1 := Press, 0 := Timer_Handler] = (k_irq_routines s)[0 := Timer_Handler, 1 := Press]"
    by (rule list_update_swap) simp
  moreover have "tty_wf s' = tty_wf t" "window_wf (k_addrspc s') s' = window_wf (k_addrspc t) t" "screen s' = screen t"
    by (simp_all add: e' tty_wf_def window_wf_def screen_def)
  then have "tty_wf s'" "window_wf (k_addrspc s') s'" "screen s' = screen s" using up by (simp_all add: up_def)
  moreover have "mem s' b = mem s b" if "image_rest s b" for b
    using out [OF image_rest_off_heap [OF assms up that]] up that by (simp add: up_def)
  moreover have "panics s' = panics s" "current s' = 0" "pcount s' = 1" "idtr s' = Some (2047, K_IDT s - K_ADDR_ADJUST)"
    "k_irq_routines s' = (k_irq_routines s)[1 := Press, 0 := Timer_Handler]" "is_kernel_preempt s' = 1" "bit (eflags (cpu s')) 9"
    "rodata s' = rodata s" "k_page_bitmap s' = \<lparr>bm_base = KERNEL_END s, bm_limit = 8192\<rparr>" "heap_base s' = KERNEL_END s + 4096"
    "brk_max s' = 0xFFBFC000" "chain_hd s' = chain_hd s" "proc_hd s' = proc_hd s" "port_in s' = port_in s"
    "system.more s' = system.more s"
    using up on by (simp_all add: up_def e' g is_kernel_preempt_def)
  moreover have "unat (heap_brk s') = unat (KERNEL_END s) + 4096 + 4220" "unat ?p = unat (KERNEL_END s) + 4096 + 20"
    using brk up u by (simp_all add: up_def new_proc_def)
  moreover have "pidcnt t = 0" and "\<forall>n < 32. gate_ok (mem t) (K_IDT s) n (isr_stub s n)"
    "\<forall>n. 32 \<le> n \<and> n < 48 \<longrightarrow> gate_ok (mem t) (K_IDT s) n (irq_stub s n)" using up by (simp_all add: up_def)
  moreover have "n < 32 \<Longrightarrow> n < 48" for n :: u32 by (erule less_trans) simp
  ultimately have "booted s core_entry ?p xs s'" unfolding booted_def using wf v by simp
  moreover have "main core_entry s = Some s'" using m c by simp
  ultimately show ?thesis by (intro that)
qed

text \<open>C1: \<^verbatim>\<open>main\<close>, entered on the loaded kernel, reaches its final loop without a panic, and then all
  components are up together: the frame allocator's invariant holds, with the page tables in their
  window; the heap is well formed, and the one process \<^verbatim>\<open>core\<close> lies in a block of it; that process is
  the only one in the process list, ready with 100 ticks, and its stack holds the frame that starts the
  function \<^verbatim>\<open>core\<close>; no process is current yet; preemption and interrupts are on; the 32 exceptions and
  the 16 interrupt lines go to their stubs, the timer line to the scheduler and line 1 to the keyboard
  handler; the terminal's cursor is on the screen.\<close>

theorem main_boots:
  assumes "loaded s"
  shows "\<exists>s' p xs. main core_entry s = Some s' \<and> panics s' = panics s \<and> tty_wf s'
    \<and> alloc_wf s' \<and> window_wf (k_addrspc s') s' \<and> heap_wf s' xs \<and> procs_wf s' [p] \<and> (\<exists>k \<ge> 84. (p, k) \<in> heap_owned s')
    \<and> view (mem s') p = \<lparr>v_state = PROC_READY, v_ticks = 100, v_timeout = 0, v_tt = 0\<rparr> \<and> p_pid (mem s') p = 0
    \<and> cstring (mem s') (p_name p) (map of_char ''core'')
    \<and> frame_at (mem s') (p_esp (mem s') p) (start_words p core_entry)
    \<and> current s' = 0 \<and> pcount s' = 1 \<and> is_kernel_preempt s' = 1 \<and> bit (eflags (cpu s')) 9
    \<and> idtr s' = Some (2047, K_IDT s - K_ADDR_ADJUST)
    \<and> (\<forall>n < 32. gate_ok (mem s') (K_IDT s) n (isr_stub s n))
    \<and> (\<forall>n. 32 \<le> n \<and> n < 48 \<longrightarrow> gate_ok (mem s') (K_IDT s) n (irq_stub s n))
    \<and> k_irq_routines s' = (k_irq_routines s)[0 := Timer_Handler, 1 := Press]"
  using main_booted [OF assms, of core_entry] unfolding booted_def by metis

section \<open>The heap checker\<close>

lemma kready_enable_ints: "kready s pl \<Longrightarrow> kready (enable_ints s) pl"
  by (simp add: kready_def enable_ints_def procs_wf_def stack_clear_def is_kernel_preempt_def)

lemma heap_wf_enable_ints: "heap_wf s xs \<Longrightarrow> heap_wf (enable_ints s) xs"
  by (erule heap_wf_frame [where m' = "mem s"]) (simp_all add: enable_ints_def)

lemma heapchecker_sleeps:
  assumes "process_sleep 500 s = Some (True, s')"
  shows "heapchecker s = Some s'"
  using assms by (subst heapchecker.simps) simp

text \<open>C36: A round of the heap checker, from where it wakes to where it gives up the CPU again: on a
  well-formed heap the walk raises no panic and changes nothing, and the checker goes back to sleep for
  500 ticks, of which the call itself counts one. Some other process that is ready has the CPU then.\<close>

theorem heapchecker_round:
  assumes "heap_wf s xs" "kready s pl" "q \<in> set pl" "q \<noteq> current s"
    and "p_state (mem s) q = PROC_READY" "0 < p_ticks (mem s) q"
  shows "\<exists>s'. heapchecker_walk (enable_ints s) = Some (enable_ints s) \<and> heapchecker_resume s = Some s'
    \<and> procs_wf s' pl \<and> current s' \<in> set pl - {current s}
    \<and> p_state (mem s') (current s) = PROC_SLEEPING \<and> p_timeout (mem s') (current s) = 499"
proof -
  let ?s = "enable_ints s" and ?c = "current s"
  have k: "kready ?s pl" and w: "heapchecker_walk ?s = Some ?s"
    using kready_enable_ints [OF assms(2)] heapchecker_silent [OF heap_wf_enable_ints [OF assms(1)]] by simp_all
  have f: "mem ?s = mem s" "current ?s = ?c" by (simp_all add: enable_ints_def)
  let ?V = "asleep (view (mem s)) ?c 500"
  have "distinct pl" "?c \<in> set pl" using assms(2) by (auto simp: kready_def procs_wf_def procs_mem_def procs_apart_def)
  moreover have "eligible (?V q)" using assms(4-6) by (simp add: asleep_def eligible_def view_def)
  ultimately obtain sw n V' where n: "spec_schedule pl ?V ?c = Some (sw, n, V')" "n \<in> set pl"
    by (rule spec_schedule_progress [where V = ?V, OF _ assms(3) _ _ assms(4)])
  then obtain s' where s': "process_sleep 500 ?s = Some (True, s')" "procs_wf s' pl" "current s' = n"
      "\<forall>p \<in> set pl. view (mem s') p = V' p"
    using process_sleep_effect [of ?s pl 500] k by (auto simp: kready_def f asleep_def)
  have "v_state (?V ?c) = PROC_SLEEPING" "v_timeout (?V ?c) = 500" "v_ticks (?V ?c) = 0" by (simp_all add: asleep_def)
  then have "n \<noteq> ?c" "v_state (V' ?c) = PROC_SLEEPING" "v_timeout (V' ?c) = 499"
    using spec_schedule_sleeper [OF n(1), of ?c] by simp_all
  moreover have "view (mem s') ?c = V' ?c" using s'(4) \<open>?c \<in> set pl\<close> by simp
  ultimately show ?thesis
    using w s' n(2) heapchecker_sleeps [OF s'(1)] by (auto simp: heapchecker_resume_def simp flip: view_sels)
qed

end
