(* ===== verification/Sample_Boot.thy ===== *)
theory Sample_Boot
  imports Sample_Proc Boot_Props
begin

text \<open>
  The loaded kernel on the sample machine, with the literals that the start prints at consecutive
  places of its read-only data and an Intel processor: the start succeeds on it.
\<close>

definition boot_table :: "(string \<times> u32) list" where
  "boot_table = zip boot_texts [0xC0110000, 0xC0110100, 0xC0110200, 0xC0110300, 0xC0110400, 0xC0110500, 0xC0110600,
     0xC0110700, 0xC0110800]"

fun poke_table :: "(string \<times> u32) list \<Rightarrow> bytes \<Rightarrow> bytes" where
  "poke_table [] m = m"
| "poke_table ((msg, a) # ts) m = poke a (text_bytes msg) (poke_table ts m)"

definition sample_loaded :: devices where
  "sample_loaded = sample_boot\<lparr>rodata := (\<lambda>msg. case map_of boot_table msg of None \<Rightarrow> 0 | Some a \<Rightarrow> a),
     cpuid_leaf := (\<lambda>_. (0, 0x756E6547)),
     mem := store32 (store32 (poke_table boot_table (\<lambda>_. 0)) 0xFFF00400 0x100003) 0xFFF00800 0x200003\<rparr>"

lemma boot_table_facts:
  "list_all (\<lambda>(msg, a). map_of boot_table msg = Some a \<and> length msg \<le> 80 \<and> 0xC0110000 \<le> a \<and> a \<le> 0xC0110800
     \<and> 0 \<notin> (of_char ` set msg :: u8 set) \<and> 0x25 \<notin> (of_char ` set msg :: u8 set)) boot_table"
  "sorted_wrt (\<lambda>(_, a) (_, b). apart a 81 b 81) boot_table" "map fst boot_table = boot_texts"
  by (simp_all add: boot_table_def boot_texts_def banner_lines_def init_message_def preempt_message_def
      spawn_message_def apart_def)

lemma poke_table_text:
  assumes "sorted_wrt (\<lambda>(_, a) (_, b). apart a 81 b 81) ts" "\<forall>(msg, a) \<in> set ts. length msg \<le> 80" "(msg, a) \<in> set ts"
  shows "text_at (poke_table ts m) a (text_bytes msg)"
  using assms
proof (induction ts)
  case (Cons t ts)
  obtain msg' b where t: "t = (msg', b)" by fastforce
  have l: "length (text_bytes msg) \<le> 81" "length (text_bytes msg') \<le> 81" using Cons.prems(2,3) by (auto simp: t text_bytes_def)
  show ?case
  proof (cases "(msg, a) = t")
    case True
    then show ?thesis using l by (simp add: t poke_text)
  next
    case False
    then have "(msg, a) \<in> set ts" using Cons.prems(3) by simp
    then have ap: "apart b 81 a 81" and te: "text_at (poke_table ts m) a (text_bytes msg)"
      using Cons.prems(1,2) by (auto simp: t intro: Cons.IH)
    have "apart a (length (text_bytes msg)) b (length (text_bytes msg'))" using ap l by (simp add: apart_def)
    then show ?thesis using l te by (simp add: t poke_other)
  qed
qed simp

lemma poke_table_cstring:
  assumes ok: "list_all (\<lambda>(t, a). map_of ts t = Some a \<and> length t \<le> 80 \<and> 0 \<notin> (of_char ` set t :: u8 set)) ts"
    and sep: "sorted_wrt (\<lambda>(_, a) (_, b). apart a 81 b 81) ts" and t: "t \<in> fst ` set ts"
  obtains a where "(t, a) \<in> set ts" "map_of ts t = Some a" "length t \<le> 80" "cstring (poke_table ts m) a (map of_char t)"
proof -
  obtain a where m: "(t, a) \<in> set ts" using t by auto
  then have f: "map_of ts t = Some a" "length t \<le> 80" "0 \<notin> (of_char ` set t :: u8 set)"
    using ok by (auto simp: list_all_iff)
  have "\<forall>(t, a) \<in> set ts. length t \<le> 80" using ok by (auto simp: list_all_iff)
  from poke_table_text [OF sep this m, of m] have "text_at (poke_table ts m) a (text_bytes t)" .
  then have "cstring (poke_table ts m) a (map of_char t)" using f(3) by (simp add: cstring_text text_bytes_def)
  then show ?thesis using m f by (intro that)
qed

lemma separate_nat:
  "unat a + n \<le> 4294967296 \<Longrightarrow> unat b + k \<le> 4294967296 \<Longrightarrow> unat a + n \<le> unat b \<or> unat b + k \<le> unat a \<Longrightarrow>
    separate (a, n) (b, k)"
  by (auto simp: separate_def span_nat_iff)

lemma sample_loaded_vars:
  "boot_vars sample_loaded = [(0xB8000, 4000), (0xC01F1800, 6), (0xC01F1000, 2048), (0xC01F0000, 8), (0xC01F0010, 8),
     (0xC01F2000, 283), (0xC01F0020, 8)]"
  "KERNEL_END sample_loaded = 0xC0200000" "KERNEL_START sample_loaded = 0xC0100000" "tty_wf sample_loaded"
  "screen sample_loaded = span 0xB8000 4000"
  "eflags_mask sample_loaded = 0x200000" "cpuid_leaf sample_loaded = (\<lambda>_. (0, 0x756E6547))"
  "k_irq_routines sample_loaded = replicate 16 No_Routine"
  by (simp_all add: boot_vars_def sample_loaded_def sample_boot_def sample_def tty_wf_def screen_def)

lemma sample_loaded_frames: "frame_of sample_loaded 0xC0100000 = 256" "frame_of sample_loaded 0xC0200000 = 512"
proof -
  have a: "pte_addr 0xC0100000 = 0xFFF00400" "pte_addr 0xC0200000 = 0xFFF00800" by (simp_all add: pte_addr_def)
  have "load32 (mem sample_loaded) 0xFFF00800 = 0x200003" "load32 (mem sample_loaded) 0xFFF00400 = 0x100003"
    by (simp_all add: sample_loaded_def mem_frame apart_def)
  then show "frame_of sample_loaded 0xC0100000 = 256" "frame_of sample_loaded 0xC0200000 = 512"
    by (simp_all only: frame_of_def a) simp_all
qed

lemma sample_loaded_text:
  assumes "msg \<in> set boot_texts"
  shows "message_at sample_loaded msg" "17 \<le> unat (rodata sample_loaded msg)"
    "unat (rodata sample_loaded msg) + Suc (length msg) \<le> 0xC0110900" "0xC0110000 \<le> unat (rodata sample_loaded msg)"
proof -
  have "msg \<in> fst ` set boot_table" using assms by (simp only: boot_table_facts(3) flip: set_map)
  then obtain a where m: "(msg, a) \<in> set boot_table" by auto
  then have f: "map_of boot_table msg = Some a" "length msg \<le> 80" "0xC0110000 \<le> a" "a \<le> 0xC0110800"
    "0 \<notin> (of_char ` set msg :: u8 set)" "0x25 \<notin> (of_char ` set msg :: u8 set)"
    using boot_table_facts(1) by (auto simp: list_all_iff)
  have r: "rodata sample_loaded msg = a" using f(1) by (simp add: sample_loaded_def)
  have b: "0xC0110000 \<le> unat a" "unat a \<le> 0xC0110800" using f(3,4) by (simp_all add: word_le_nat_alt)
  then show "17 \<le> unat (rodata sample_loaded msg)" "0xC0110000 \<le> unat (rodata sample_loaded msg)"
    "unat (rodata sample_loaded msg) + Suc (length msg) \<le> 0xC0110900" using f(2) by (simp_all add: r)
  let ?m = "poke_table boot_table (\<lambda>_. 0)"
  have "\<forall>(msg, a) \<in> set boot_table. length msg \<le> 80" using boot_table_facts(1) by (auto simp: list_all_iff)
  then have t: "text_at ?m a (text_bytes msg)" by (intro poke_table_text boot_table_facts(2) m)
  have "mem sample_loaded x = ?m x" if "x \<in> span a (length (text_bytes msg))" for x
  proof -
    have "unat x < 0xFFF00000" using that b f(2) by (subst (asm) span_nat_iff) (simp_all add: text_bytes_def)
    then have "x \<notin> span 0xFFF00400 4" "x \<notin> span 0xFFF00800 4" by (auto simp: span_nat_iff)
    then show ?thesis by (simp add: sample_loaded_def store32_outside)
  qed
  then have "text_at (mem sample_loaded) a (text_bytes msg)"
    by (rule text_at_cong [OF t]) (use f(2) in \<open>simp_all add: text_bytes_def\<close>)
  then have c: "cstring (mem sample_loaded) a (map of_char msg)"
    using f(5) by (simp add: cstring_text text_bytes_def)
  have "span a (Suc (length msg)) \<inter> span 0xB8000 4000 = {}"
    using separate_nat [of a "Suc (length msg)" "0xB8000" 4000] b f(2) by (simp add: separate_def)
  then show "message_at sample_loaded msg"
    using c f(2,6) by (simp add: message_at_def r sample_loaded_vars(5))
qed

lemma sample_is_loaded: "loaded sample_loaded"
proof -
  have "sorted_wrt separate (boot_vars sample_loaded)"
    unfolding sample_loaded_vars by (simp add: separate_nat)
  moreover have "\<forall>r \<in> set (boot_vars sample_loaded). in_image sample_loaded r"
    by (simp add: sample_loaded_vars in_image_def)
  moreover have "in_image sample_loaded (rodata sample_loaded msg, Suc (length msg))
      \<and> (\<forall>r \<in> set (boot_vars sample_loaded). separate (rodata sample_loaded msg, Suc (length msg)) r)"
    if "msg \<in> set boot_texts" for msg
    using sample_loaded_text [OF that] by (simp add: sample_loaded_vars in_image_def separate_nat)
  moreover have "bit (0x200000 :: u32) 21" by simp
  ultimately show ?thesis
    unfolding loaded_def using sample_loaded_text(1) by (simp add: sample_loaded_vars sample_loaded_frames)
qed

theorem main_boots_witness:
  "\<exists>s' p. main 0xC0105000 sample_loaded = Some s' \<and> procs_wf s' [p] \<and> p_pid (mem s') p = 0 \<and> pcount s' = 1"
  using main_boots [OF sample_is_loaded, where core_entry = "0xC0105000"] by blast

section \<open>The heap checker\<close>

text \<open>The two processes of the sample with an empty heap behind them.\<close>

definition sample_checker :: devices where
  "sample_checker = init_heap (sample_procs\<lparr>kernel_end := 0xC0400000\<rparr>)"

lemma sample_checker_fields:
  "current sample_checker = 0xC0300000" "proc_hd sample_checker = 0xC01F0020" "pcount sample_checker = 2"
  "kernel_preempt sample_checker = 1" "esp (cpu sample_checker) = 0xC0310000"
  "b \<notin> span 0xC01F0000 8 \<Longrightarrow> b \<notin> span 0xC01F0010 8 \<Longrightarrow> mem sample_checker b = ring2 b"
  by (simp_all add: sample_checker_def init_heap_only list_head_outside)
    (simp add: sample_procs_def list_head_outside)

lemma sample_checker_same: "unat b < 0xC01F0000 \<or> 0xC01F0020 \<le> unat b \<Longrightarrow> mem sample_checker b = ring2 b"
  by (rule sample_checker_fields(6)) (auto simp: span_nat_iff)

lemma sample_checker_ready: "kready sample_checker [0xC0300000, 0xC0300100]"
proof -
  have "procs_mem (mem sample_checker) 0xC01F0020 [0xC0300000, 0xC0300100]"
    by (rule procs_mem_cong [OF ring_procs(2)]; rule sample_checker_same) (auto simp: span_nat_iff)
  moreover have "stack_clear sample_procs [0xC0300000, 0xC0300100]" using sample_kready(2) by (simp add: kready_def)
  ultimately show ?thesis
    by (simp add: kready_def procs_wf_def stack_clear_def is_kernel_preempt_def sample_checker_fields)
qed

theorem heapchecker_round_witness:
  "\<exists>s'. heapchecker_resume sample_checker = Some s' \<and> current s' = 0xC0300100 \<and> p_state (mem s') 0xC0300000 = PROC_SLEEPING"
proof -
  have wf: "heap_wf sample_checker []"
    unfolding sample_checker_def
    by (rule init_heap_wf) (simp_all add: sample_procs_def head_clear_def apart_def)
  have v: "view (mem sample_checker) 0xC0300100 = view ring2 0xC0300100"
    by (rule view_cong_tail, rule sample_checker_same) (auto simp: span_nat_iff)
  have p: "p_state (mem sample_checker) 0xC0300100 = PROC_READY" "0 < p_ticks (mem sample_checker) 0xC0300100"
    using v sample_views(3,4) by (simp_all flip: view_sels)
  show ?thesis
    using heapchecker_round [OF wf sample_checker_ready _ _ p] by (auto simp: sample_checker_fields(1))
qed

end
