(* ===== verification/Messages.thy ===== *)
theory Messages
  imports Printf_Spec
begin

text \<open>
  The literals that the kernel prints. A format whose conversions are all plain \<^verbatim>\<open>%d\<close>, \<^verbatim>\<open>%s\<close>
  or \<^verbatim>\<open>%x\<close> is parsed here into the pieces of the specification of \<^verbatim>\<open>doprintf\<close>, so that a
  call of \<^verbatim>\<open>kprintf\<close> on a literal that lies in the read-only data prints the text one reads off.
\<close>

text \<open>The pieces of a format whose conversions are \<^verbatim>\<open>%d\<close>, \<^verbatim>\<open>%s\<close> and \<^verbatim>\<open>%x\<close>, and the
  formats that have no other.\<close>

fun pieces :: "string \<Rightarrow> piece list" where
  "pieces [] = []"
| "pieces (c # r) =
     (if c = CHR 0x25 then
        (case r of [] \<Rightarrow> [Percent]
         | d # t \<Rightarrow> Conv False False 0 Plain (if d = CHR ''d'' then C_d else if d = CHR ''s'' then C_s else C_x) # pieces t)
      else Text (of_char c) # pieces r)"

fun plain_format :: "string \<Rightarrow> bool" where
  "plain_format [] \<longleftrightarrow> True"
| "plain_format (c # r) \<longleftrightarrow>
     (if c = CHR 0x25 then (case r of [] \<Rightarrow> False | d # t \<Rightarrow> d \<in> {CHR ''d'', CHR ''s'', CHR ''x''} \<and> plain_format t)
      else plain_format r)"

lemma pieces_render: "plain_format fmt \<Longrightarrow> concat (map render (pieces fmt)) = map of_char fmt"
  by (induction fmt rule: plain_format.induct) (auto split: list.splits)

lemma of_char_percent: "(of_char c :: u8) = 0x25 \<longleftrightarrow> c = CHR 0x25"
proof
  assume "(of_char c :: u8) = 0x25"
  then have "unat (of_nat (of_char c) :: u8) = 0x25" by (simp add: of_nat_of_char)
  then have "(of_char c :: nat) = of_char (CHR 0x25)" by (simp add: unat_of_nat)
  then show "c = CHR 0x25" by (simp only: of_char_eq_iff)
qed simp

lemma pieces_ok: "plain_format fmt \<Longrightarrow> 0 \<notin> (of_char ` set fmt :: u8 set) \<Longrightarrow> list_all piece_ok (pieces fmt)"
  by (induction fmt rule: plain_format.induct) (auto simp: of_char_percent split: list.splits if_splits)

text \<open>A literal lies in memory, apart from the screen.\<close>

definition text_ready :: "'a tty_scheme \<Rightarrow> string \<Rightarrow> bool" where
  "text_ready s t \<longleftrightarrow> cstring (mem s) (rodata s t) (map of_char t)
     \<and> span (rodata s t) (Suc (length t)) \<inter> screen s = {} \<and> length t < 4294967295"

lemma kprintf_args:
  assumes "tty_wf s" "text_ready s fmt" "plain_format fmt" "\<forall>a \<in> set args. arg_ok (mem s) (screen s) a"
    and "printed (pieces fmt) args = Some out"
  shows "kprintf (rodata s fmt) (map arg_word args) s = Some (fold tty_putc out s)"
    "console_step s (fold tty_putc out s)"
proof -
  have "0 \<notin> (of_char ` set fmt :: u8 set)"
    using cstring_nonzero [of "mem s" "rodata s fmt" "map of_char fmt"] assms(2) by (simp add: text_ready_def)
  then have "format_at s (rodata s fmt) (pieces fmt) args"
    using assms(2-4) pieces_ok [OF assms(3)] by (simp add: format_at_def text_ready_def pieces_render)
  from do_printf_effect [OF assms(1) this assms(5)]
  show "kprintf (rodata s fmt) (map arg_word args) s = Some (fold tty_putc out s)" by (simp add: kprintf_def)
qed (rule console_step_fold [OF assms(1)])

lemma text_ready_frame:
  assumes "text_ready s t" "rodata s' = rodata s" "screen s' = screen s"
    and "\<And>b. b \<in> span (rodata s t) (Suc (length t)) \<Longrightarrow> mem s' b = mem s b"
  shows "text_ready s' t"
proof -
  have "cstring (mem s') (rodata s t) (map of_char t) = cstring (mem s) (rodata s t) (map of_char t)"
    using assms(1,4) by (intro cstring_cong) (simp_all add: text_ready_def)
  then show ?thesis using assms(1-3) by (simp add: text_ready_def)
qed

lemma text_ready_arg: "text_ready s t \<Longrightarrow> arg_ok (mem s) (screen s) (String (rodata s t) (map of_char t))"
  by (simp add: text_ready_def arg_ok_def)

lemma text_ready_console:
  assumes "text_ready s t" "console_step s s'"
  shows "text_ready s' t"
proof (rule text_ready_frame [OF assms(1)])
  have "span (rodata s t) (Suc (length t)) \<inter> screen s = {}" using assms(1) by (simp add: text_ready_def)
  then show "mem s' b = mem s b" if "b \<in> span (rodata s t) (Suc (length t))" for b
    using assms(2) that unfolding console_step_def by blast
qed (use console_step_screen [OF assms(2)] in simp_all)

end
