(* ===== verification/Alloc_Test.thy ===== *)
theory Alloc_Test
  imports Boot_Props Messages
begin

text \<open>
  The allocator's own test, \<^verbatim>\<open>testing/test_alloc_pages.c\<close>, and \<^verbatim>\<open>dump_stats\<close> of
  \<^verbatim>\<open>cpu/page.c\<close>. The test takes frames of a zone until there are none, counts the calls that
  succeed, and compares the zone's counter with its size. It ends, and it takes the free frames of the
  zone but its end page, which \<^verbatim>\<open>alloc_pages\<close> never hands out; since the size leaves the end page
  out as well, the counters match on a sound allocator exactly when the end page is not in use.
\<close>

section \<open>The test\<close>

partial_function (option) exhaust ::
  "u32 \<Rightarrow> u32 \<Rightarrow> u32 \<Rightarrow> 'a paging_scheme \<Rightarrow> (u32 \<times> 'a paging_scheme) option" where
  "exhaust i flags cnt s =
     Option.bind (alloc_pages i flags s) (\<lambda>(page, s).
       if page \<noteq> 0 then exhaust i flags (cnt + 1) s else Some (cnt, s))"

definition test_name :: string where "test_name = ''test_alloc_pages''"

definition calling_text :: "string \<Rightarrow> string" where
  "calling_text zone = ''%s: calling alloc_pages(%d, '' @ zone @ '') until NULL...'' @ [CHR 0x0A]"

definition done_text :: string where "done_text = ''%s: done, %d calls, ''"
definition match_text :: string where "match_text = ''counters match!'' @ [CHR 0x0A]"
definition differ_text :: string where "differ_text = ''counters *DONT* match! (%d)'' @ [CHR 0x0A]"

definition test_zone :: "nat \<Rightarrow> string \<Rightarrow> u32 \<Rightarrow> u32 \<Rightarrow> 'a paging_scheme \<Rightarrow> 'a paging_scheme option" where
  "test_zone j zone flags i s = do {
     s \<leftarrow> kprintf (rodata s (calling_text zone)) [rodata s test_name, i] s;
     (cnt, s) \<leftarrow> exhaust i flags 0 s;
     s \<leftarrow> kprintf (rodata s done_text) [rodata s test_name, cnt] s;
     (if j < length (page_zones s) then
        let z = page_zones s ! j
        in if end_page z - base_page z = usedpages z then kprintf (rodata s match_text) [] s
           else kprintf (rodata s differ_text) [(end_page z - base_page z) - usedpages z] s
      else None)
   }"

definition test_alloc_pages :: "'a paging_scheme \<Rightarrow> 'a paging_scheme option" where
  "test_alloc_pages s = do {
     let i = 1;
     s \<leftarrow> test_zone 0 ''ZONE_DMA'' ZONE_DMA i s;
     test_zone 1 ''ZONE_NORMAL'' ZONE_NORMAL i s
   }"

section \<open>Taking all frames\<close>

lemma exhaust_all:
  assumes "alloc_wf s"
  shows "\<exists>s'. exhaust 1 flags cnt s = Some (cnt + of_nat (card (free_frames flags s)), s')
    \<and> taken s (free_frames flags s) s' \<and> alloc_wf s'"
  using assms
proof (induction "card (free_frames flags s)" arbitrary: cnt s)
  case 0
  then have e: "free_frames flags s = {}" by simp
  then have "exhaust 1 flags cnt s = Some (cnt, s)"
    using alloc_one [OF "0.prems", of flags] by (simp add: exhaust.simps)
  moreover have "taken s {} s" using "0.prems" by (intro taken_empty) (simp add: alloc_wf_def counts_wf_def)
  ultimately show ?case using e "0.prems" by simp
next
  case (Suc k)
  have zwf: "zones_wf s" using Suc.prems by (simp add: alloc_wf_def counts_wf_def)
  have "free_frames flags s \<noteq> {}" using Suc.hyps(2) by auto
  then obtain c s1 where c: "c \<in> free_frames flags s" "alloc_pages 1 flags s = Some (c * 4096, s1)" "c * 4096 \<noteq> 0"
    "taken s {c} s1" "alloc_wf s1" "free_frames flags s1 = free_frames flags s - {c}"
    using alloc_one [OF Suc.prems, of flags] by auto
  have k: "card (free_frames flags s1) = k" using c(1,6) Suc.hyps(2) by simp
  obtain s2 where s2: "exhaust 1 flags (cnt + 1) s1 = Some (cnt + 1 + of_nat k, s2)"
    "taken s1 (free_frames flags s1) s2" "alloc_wf s2"
    using Suc.hyps(1) [OF k [symmetric] c(5), of "cnt + 1"] k by auto
  have "taken s ({c} \<union> (free_frames flags s - {c})) s2"
    using taken_trans [OF c(4) s2(2) _ zwf] c(6) by simp
  then have "taken s (free_frames flags s) s2" using c(1) by (simp add: insert_absorb)
  moreover have "exhaust 1 flags cnt s = exhaust 1 flags (cnt + 1) s1"
    using c(2,3) by (simp add: exhaust.simps [of 1 flags cnt s])
  ultimately show ?case using s2 Suc.hyps(2) by (simp flip: Suc.hyps(2))
qed

section \<open>The counters\<close>

text \<open>Zone \<open>j\<close>, with the flag \<open>flags\<close>, can be tested: it is the first zone for its pages, its end page
  among them as far as it is in memory, and it does not reach beyond memory.\<close>

definition zone_testable :: "'a paging_scheme \<Rightarrow> nat \<Rightarrow> u32 \<Rightarrow> bool" where
  "zone_testable s j flags \<longleftrightarrow> j < unat (num_zones s) \<and> (let z = zones s ! j in
     allocation_flag z = flags \<and> zone_bounds flags (zones s) = (base_page z, end_page z)
     \<and> base_page z \<le> end_page z \<and> end_page z \<le> total_pages s
     \<and> (\<forall>n < total_pages s. get_zone_loop n (zones s) = Some flags \<longleftrightarrow> base_page z \<le> n \<and> n \<le> end_page z))"

text \<open>The end page of zone \<open>j\<close> is in memory and in use.\<close>

definition end_in_use :: "'a paging_scheme \<Rightarrow> nat \<Rightarrow> bool" where
  "end_in_use s j \<longleftrightarrow> end_page (zones s ! j) < total_pages s \<and> page_used s (end_page (zones s ! j))"

text \<open>All free frames of a zone, as \<^verbatim>\<open>__get_zone\<close> assigns frames to zones.\<close>

definition zone_free :: "u32 \<Rightarrow> 'a paging_scheme \<Rightarrow> u32 set" where
  "zone_free flags s = {n. n < total_pages s \<and> get_zone_loop n (zones s) = Some flags \<and> \<not> page_used s n}"

text \<open>The zone of the array: \<open>page_zones\<close> and \<open>zones\<close> agree below the number of zones.\<close>

lemma zones_nth: "zones_wf s \<Longrightarrow> j < unat (num_zones s) \<Longrightarrow> zones s ! j = page_zones s ! j \<and> j < length (zones s)
    \<and> j < length (page_zones s)"
  by (auto simp: zones_def zones_wf_def)

lemma testableD:
  assumes "zone_testable s j flags"
  shows "allocation_flag (zones s ! j) = flags" "base_page (zones s ! j) \<le> end_page (zones s ! j)"
    "search_range flags s = (unat (base_page (zones s ! j)), unat (end_page (zones s ! j)))"
    "end_page (zones s ! j) \<le> total_pages s" "j < unat (num_zones s)"
    "n < total_pages s \<Longrightarrow> get_zone_loop n (zones s) = Some flags \<longleftrightarrow>
      base_page (zones s ! j) \<le> n \<and> n \<le> end_page (zones s ! j)"
  using assms by (auto simp: zone_testable_def Let_def search_range_def word_le_nat_alt min_def)

text \<open>What a request can get is the free part of the zone without the end page.\<close>

lemma free_frames_zone:
  assumes "zone_testable s j flags"
  shows "free_frames flags s = zone_free flags s - {end_page (zones s ! j)}"
proof -
  note z = testableD [OF assms]
  have f: "n \<in> free_frames flags s \<longleftrightarrow> base_page (zones s ! j) \<le> n \<and> n < end_page (zones s ! j) \<and> \<not> page_used s n" for n
    by (simp add: free_frames_def z(3) word_le_nat_alt word_less_nat_alt)
  have t: "n < end_page (zones s ! j) \<Longrightarrow> n < total_pages s" for n using z(4) by simp
  have "n \<in> free_frames flags s \<longleftrightarrow> n \<in> zone_free flags s - {end_page (zones s ! j)}" for n
  proof (cases "n < total_pages s")
    case True
    then show ?thesis using z(6) [OF True] by (auto simp: f zone_free_def less_le)
  qed (use f t in \<open>auto simp: zone_free_def\<close>)
  then show ?thesis by blast
qed

lemma zone_free_taken: "taken s N s' \<Longrightarrow> zones_wf s \<Longrightarrow> zone_free flags s' = zone_free flags s - N"
  by (auto simp: zone_free_def taken_facts)

text \<open>The counter of a zone after the zone was used up.\<close>

lemma exhausted_counter:
  assumes wf: "alloc_wf s" "alloc_wf s'" and t: "taken s (free_frames flags s) s'" and z: "zone_testable s j flags"
  shows "j < length (page_zones s') \<and> usedpages (page_zones s' ! j) =
    end_page (page_zones s' ! j) - base_page (page_zones s' ! j) + (if end_in_use s j then 1 else 0)"
proof -
  let ?z = "zones s ! j" and ?z' = "zones s' ! j"
  let ?last = "if end_in_use s j then {end_page ?z} else {}"
  have zwf: "zones_wf s" "zones_wf s'" using wf by (simp_all add: alloc_wf_def counts_wf_def)
  note zf = testableD [OF z] and tf = taken_facts [OF t zwf(1)]
  have n: "zones s' ! j = page_zones s' ! j" "j < length (zones s')" "j < length (page_zones s')"
    using zones_nth [OF zwf(2), of j] zf(5) tf(8) by simp_all
  have jl: "j < length (zones s)" using zones_nth [OF zwf(1) zf(5)] by simp
  have z': "?z' = bump (zones s) (free_frames flags s) ?z" using jl by (simp add: tf(1))
  have u: "n \<in> used_pages s' \<longleftrightarrow> n < total_pages s \<and> (n \<in> free_frames flags s \<or> page_used s n)" for n
    using tf(2,3) by (simp add: used_pages_def)
  have "{n \<in> used_pages s'. get_zone_loop n (zones s') = Some flags} = page_range (base_page ?z) (end_page ?z) \<union> ?last"
  proof (intro set_eqI iffI)
    fix n assume "n \<in> {n \<in> used_pages s'. get_zone_loop n (zones s') = Some flags}"
    then have a: "n < total_pages s" "n \<in> free_frames flags s \<or> page_used s n" "base_page ?z \<le> n" "n \<le> end_page ?z"
      using zf(6) [of n] by (simp_all add: u tf(1))
    show "n \<in> page_range (base_page ?z) (end_page ?z) \<union> ?last"
    proof (cases "n = end_page ?z")
      case True
      then have "end_in_use s j" using a(1,2) by (auto simp: end_in_use_def free_frames_def zf(3))
      then show ?thesis using True by simp
    next
      case False
      then show ?thesis using a(3,4) by (simp add: page_range_def less_le)
    qed
  next
    fix n assume "n \<in> page_range (base_page ?z) (end_page ?z) \<union> ?last"
    then have "base_page ?z \<le> n \<and> n < end_page ?z \<or> n = end_page ?z \<and> end_in_use s j" by (auto simp: page_range_def split: if_splits)
    then have "base_page ?z \<le> n \<and> n \<le> end_page ?z \<and> n < total_pages s \<and> (n \<in> free_frames flags s \<or> page_used s n)"
      using zf(2,4) by (auto simp: end_in_use_def free_frames_def zf(3) word_le_nat_alt word_less_nat_alt)
    then show "n \<in> {n \<in> used_pages s'. get_zone_loop n (zones s') = Some flags}"
      using zf(6) [of n] by (simp add: u tf(1))
  qed
  moreover have "card (page_range (base_page ?z) (end_page ?z) \<union> ?last) =
      unat (end_page ?z) - unat (base_page ?z) + (if end_in_use s j then 1 else 0)"
  proof -
    have "finite (page_range (base_page ?z) (end_page ?z))" "end_page ?z \<notin> page_range (base_page ?z) (end_page ?z)"
      by (simp_all add: page_range_def)
    then show ?thesis by (simp add: card_page_range)
  qed
  ultimately have "zone_count (zones s') (used_pages s') ?z' =
      unat (end_page ?z) - unat (base_page ?z) + (if end_in_use s j then 1 else 0)"
    by (simp add: zone_count_def z' zf(1))
  moreover have "usedpages ?z' = of_nat (zone_count (zones s') (used_pages s') ?z')"
    using wf(2) n(2) by (simp add: alloc_wf_def counts_wf_def)
  moreover have "of_nat (unat (end_page ?z) - unat (base_page ?z)) = end_page ?z - base_page ?z"
    using zf(2) by (simp add: word_le_nat_alt of_nat_diff)
  moreover have "end_page ?z' = end_page ?z" "base_page ?z' = base_page ?z" by (simp_all add: z')
  ultimately show ?thesis using n by simp
qed

text \<open>Taking the frames of one zone leaves another zone fit for the test, with its frames.\<close>

lemma free_frame_zone: "n \<in> free_frames f s \<Longrightarrow> zone_testable s k f \<Longrightarrow> get_zone_loop n (zones s) = Some f"
  using free_frames_zone [of s k f] by (simp add: zone_free_def)

lemma testable_taken:
  assumes t: "taken s (free_frames flags s) s'" and wf: "zones_wf s"
    and z: "zone_testable s i flags" "zone_testable s j flags'" and ne: "flags \<noteq> flags'"
  shows "zone_testable s' j flags'" "free_frames flags' s' = free_frames flags' s" "end_in_use s' j = end_in_use s j"
proof -
  note tf = taken_facts [OF t wf] and zf = testableD [OF z(2)]
  have j: "j < length (zones s)" using zones_nth [OF wf zf(5)] by simp
  show "zone_testable s' j flags'" using z(2) j by (simp add: zone_testable_def Let_def tf)
  have "n \<notin> free_frames flags s" if "n \<in> free_frames flags' s" for n
    using free_frame_zone [OF that z(2)] free_frame_zone [OF _ z(1), of n] ne by auto
  then show "free_frames flags' s' = free_frames flags' s" using tf(3) taken_range(1) [OF t wf] by (auto simp: free_frames_def)
  have "end_page (zones s ! j) \<notin> free_frames flags s" if "end_page (zones s ! j) < total_pages s"
    using free_frame_zone [OF _ z(1), of "end_page (zones s ! j)"] zf(6) [OF that] zf(2) ne by auto
  then show "end_in_use s' j = end_in_use s j" using j by (auto simp: end_in_use_def tf)
qed

section \<open>The whole test\<close>

definition test_texts :: "string list" where
  "test_texts = [test_name, calling_text ''ZONE_DMA'', calling_text ''ZONE_NORMAL'', done_text, match_text, differ_text]"

text \<open>The test can run: sound allocator and terminal, texts and screen apart from the bitmap.\<close>

definition test_ready :: "'a paging_scheme \<Rightarrow> bool" where
  "test_ready s \<longleftrightarrow> alloc_wf s \<and> tty_wf s \<and> screen s \<inter> bitmap_bytes (k_page_bitmap s) = {}
     \<and> (\<forall>t \<in> set test_texts. text_ready s t
          \<and> span (rodata s t) (Suc (length t)) \<inter> bitmap_bytes (k_page_bitmap s) = {})"

lemma test_ready_console:
  assumes "test_ready s" "console_step s s'"
  shows "test_ready s'" "zone_testable s' j flags = zone_testable s j flags"
    "free_frames flags s' = free_frames flags s" "used_pages s' = used_pages s" "page_zones s' = page_zones s"
    "end_in_use s' j = end_in_use s j" "zone_free flags s' = zone_free flags s" "zones s' = zones s"
proof -
  obtain m p x y where e: "s' = s\<lparr>mem := m, ports := p, tty_x := x, tty_y := y\<rparr>"
    using assms(2) unfolding console_step_def by blast
  have out: "\<And>b. b \<notin> screen s \<Longrightarrow> m b = mem s b" and wf: "tty_wf s'"
    using assms(2) by (simp_all add: console_step_def e)
  have bm: "m b = mem s b" if "b \<in> bitmap_bytes (k_page_bitmap s)" for b
    using assms(1) that by (intro out) (auto simp: test_ready_def)
  have "alloc_wf s'" by (rule alloc_wf_cong [of s]) (use assms(1) bm in \<open>simp_all add: e test_ready_def\<close>)
  moreover have "text_ready s' t" if "t \<in> set test_texts" for t
    using assms(1) that by (intro text_ready_console [OF _ assms(2)]) (simp add: test_ready_def)
  ultimately show "test_ready s'"
    using assms(1) wf by (simp add: test_ready_def e screen_def)
  have z: "zones s' = zones s" "total_pages s' = total_pages s" "num_zones s' = num_zones s" by (simp_all add: e zones_def)
  have "zones_wf s" using assms(1) by (simp add: test_ready_def alloc_wf_def counts_wf_def)
  then have u: "page_used s' n = page_used s n" if "n < total_pages s" for n
    using page_used_mem [OF bm, of n] that less_le_trans [of n "total_pages s" "bm_limit (k_page_bitmap s)"]
    by (simp add: zones_wf_def e page_used_def)
  then show "zone_testable s' j flags = zone_testable s j flags" by (auto simp: zone_testable_def z Let_def)
  have r: "search_range flags s' = search_range flags s" by (simp add: search_range_def z)
  have "page_used s' n = page_used s n" if "unat n < snd (search_range flags s)" for n
    using that by (intro u) (auto simp: search_range_def word_less_nat_alt split: prod.splits)
  then show "free_frames flags s' = free_frames flags s" by (auto simp: free_frames_def r)
  show "used_pages s' = used_pages s" using u by (auto simp: used_pages_def z)
  show "end_in_use s' j = end_in_use s j" "zone_free flags s' = zone_free flags s" using u by (auto simp: end_in_use_def zone_free_def z)
  show "zones s' = zones s" by (rule z)
  show "page_zones s' = page_zones s" by (simp add: e)
qed

lemma test_ready_taken:
  assumes "test_ready s" "taken s (free_frames flags s) s'"
  shows "test_ready s'"
proof -
  have wf: "alloc_wf s" "zones_wf s" using assms(1) by (simp_all add: test_ready_def alloc_wf_def counts_wf_def)
  note tf = taken_facts [OF assms(2) wf(2)]
  have "text_ready s' t" if "t \<in> set test_texts" for t
  proof (rule text_ready_frame [of s])
    show "text_ready s t" using assms(1) that by (simp add: test_ready_def)
    have "span (rodata s t) (Suc (length t)) \<inter> bitmap_bytes (k_page_bitmap s) = {}"
      using assms(1) that by (simp add: test_ready_def)
    then show "mem s' b = mem s b" if "b \<in> span (rodata s t) (Suc (length t))" for b
      using that tf(9) by blast
  qed (simp_all add: tf)
  then show ?thesis
    using assms(1) alloc_wf_taken [OF assms(2) wf(1) free_frames_unused] tf(10) by (simp add: test_ready_def tf)
qed

text \<open>What the test prints for a zone before it starts, and at its end: the number of calls, and that the
  counters match or that they differ, by -1.\<close>

definition calling_out :: "string \<Rightarrow> u8 list" where
  "calling_out zone = map of_char (test_name @ '': calling alloc_pages(1, '' @ zone @ '') until NULL...'' @ [CHR 0x0A])"

definition done_out :: "u32 \<Rightarrow> u8 list" where
  "done_out cnt = map of_char (test_name @ '': done, '') @ number False False 0 False 10 (sint cnt) @ map of_char '' calls, ''"

definition verdict_out :: "bool \<Rightarrow> u8 list" where
  "verdict_out differ = map of_char ((if differ then ''counters *DONT* match! (-1)'' else ''counters match!'') @ [CHR 0x0A])"

definition report_out :: "u32 \<Rightarrow> bool \<Rightarrow> u8 list" where
  "report_out cnt differ = done_out cnt @ verdict_out differ"

lemma test_formats:
  "zone \<in> {''ZONE_DMA'', ''ZONE_NORMAL''} \<Longrightarrow> plain_format (calling_text zone)
    \<and> printed (pieces (calling_text zone)) [String a (map of_char test_name), Word 1] = Some (calling_out zone)"
  "plain_format done_text" "plain_format match_text" "plain_format differ_text"
  "printed (pieces done_text) [String a (map of_char test_name), Word cnt] = Some (done_out cnt)"
  "printed (pieces match_text) [] = Some (verdict_out False)"
  "printed (pieces differ_text) [Word (- 1)] = Some (verdict_out True)"
proof -
  have one: "signed_of Plain 1 = 1" "signed_of Plain (- 1) = - 1" by (simp_all add: signed_of_def)
  show "plain_format (calling_text zone)
      \<and> printed (pieces (calling_text zone)) [String a (map of_char test_name), Word 1] = Some (calling_out zone)"
    if "zone \<in> {''ZONE_DMA'', ''ZONE_NORMAL''}"
    using that by (auto simp: calling_text_def calling_out_def justify_def number_def one digits.simps digit_char_def)
  show "plain_format done_text" "plain_format match_text" "plain_format differ_text"
    by (simp_all add: done_text_def match_text_def differ_text_def)
  show "printed (pieces done_text) [String a (map of_char test_name), Word cnt] = Some (done_out cnt)"
    by (simp add: done_text_def done_out_def justify_def signed_of_def)
  show "printed (pieces match_text) [] = Some (verdict_out False)" by (simp add: match_text_def verdict_out_def)
  show "printed (pieces differ_text) [Word (- 1)] = Some (verdict_out True)"
    by (simp add: differ_text_def verdict_out_def number_def justify_def one digits.simps digit_char_def)
qed

text \<open>The verdict on zone \<open>j\<close>.\<close>

lemma verdict_run:
  assumes r: "test_ready s" and u: "usedpages z = end_page z - base_page z + (if differ then 1 else 0)"
  shows "(if end_page z - base_page z = usedpages z then kprintf (rodata s match_text) [] s
      else kprintf (rodata s differ_text) [(end_page z - base_page z) - usedpages z] s) =
      Some (fold tty_putc (verdict_out differ) s)" "console_step s (fold tty_putc (verdict_out differ) s)"
proof -
  have t: "tty_wf s" "text_ready s match_text" "text_ready s differ_text" using r by (simp_all add: test_ready_def test_texts_def)
  note k = kprintf_args [OF t(1,2) test_formats(3) _ test_formats(6)]
    kprintf_args [OF t(1,3) test_formats(4) _ test_formats(7)]
  show "(if end_page z - base_page z = usedpages z then kprintf (rodata s match_text) [] s
      else kprintf (rodata s differ_text) [(end_page z - base_page z) - usedpages z] s) =
      Some (fold tty_putc (verdict_out differ) s)"
    using k(1,3) u by (cases differ) (simp_all add: arg_ok_def)
  show "console_step s (fold tty_putc (verdict_out differ) s)" by (rule console_step_fold [OF t(1)])
qed

text \<open>The test of one zone: it prints, takes every frame that can be had, and prints the verdict.\<close>

lemma test_zone_effect:
  assumes r: "test_ready s" and z: "zone_testable s j flags" and n: "zone \<in> {''ZONE_DMA'', ''ZONE_NORMAL''}"
  shows "\<exists>s2 s3. taken (fold tty_putc (calling_out zone) s) (free_frames flags s) s2
    \<and> test_zone j zone flags 1 s = Some s3
    \<and> s3 = fold tty_putc (report_out (of_nat (card (free_frames flags s))) (end_in_use s j)) s2
    \<and> console_step s (fold tty_putc (calling_out zone) s) \<and> test_ready s2 \<and> console_step s2 s3"
proof -
  let ?s1 = "fold tty_putc (calling_out zone) s" and ?cnt = "of_nat (card (free_frames flags s)) :: u32"
  have texts: "text_ready t test_name" "text_ready t (calling_text zone)" "text_ready t done_text"
    "tty_wf t" "alloc_wf t" if "test_ready t" for t :: "'a paging_scheme"
    using that n by (auto simp: test_ready_def test_texts_def)
  have args: "\<forall>a \<in> set [String (rodata t test_name) (map of_char test_name), Word w]. arg_ok (mem t) (screen t) a"
    if "test_ready t" for t :: "'a paging_scheme" and w
    using text_ready_arg [OF texts(1) [OF that]] by (simp add: arg_ok_def)
  have k1: "kprintf (rodata s (calling_text zone)) [rodata s test_name, 1] s = Some ?s1" "console_step s ?s1"
    using kprintf_args [OF texts(4,2) [OF r] _ args [OF r, of 1]] test_formats(1) [OF n] by simp_all
  note c1 = test_ready_console [OF r k1(2)]
  obtain s2 where s2: "exhaust 1 flags 0 ?s1 = Some (?cnt, s2)" "taken ?s1 (free_frames flags s) s2" "alloc_wf s2"
    using exhaust_all [OF texts(5) [OF c1(1)], of flags 0] by (auto simp: c1(3))
  have r2: "test_ready s2" using test_ready_taken [OF c1(1)] s2(2) by (simp add: c1(3))
  define s3 where "s3 = fold tty_putc (done_out ?cnt) s2"
  have k3: "kprintf (rodata s2 done_text) [rodata s2 test_name, ?cnt] s2 = Some s3" "console_step s2 s3"
    using kprintf_args [OF texts(4,3) [OF r2] test_formats(2) args [OF r2, of ?cnt] test_formats(5)] by (simp_all add: s3_def)
  note c3 = test_ready_console [OF r2 k3(2)]
  define s4 where "s4 = fold tty_putc (verdict_out (end_in_use s j)) s3"
  have m: "j < length (page_zones s2)"
    "usedpages (page_zones s2 ! j) = end_page (page_zones s2 ! j) - base_page (page_zones s2 ! j) + (if end_in_use s j then 1 else 0)"
    using exhausted_counter [OF texts(5) [OF c1(1)] s2(3)] s2(2) z by (simp_all add: c1(2,3,6))
  note k4 = verdict_run [OF c3(1) m(2), folded s4_def]
  have "test_zone j zone flags 1 s = Some s4"
    using k1(1) s2(1) k3(1) k4(1) m(1) by (simp add: test_zone_def Let_def c3(5))
  moreover have "s4 = fold tty_putc (report_out ?cnt (end_in_use s j)) s2"
    by (simp only: s4_def s3_def report_out_def fold_append comp_apply)
  ultimately show ?thesis
    using s2(2) k1(2) r2 console_step_trans [OF k3(2) k4(2)] by (intro exI [of _ s2] exI [of _ s4]) simp
qed

text \<open>C12: The allocator's own test, \<^verbatim>\<open>test_alloc_pages\<close>, on a sound allocator with two testable
  zones: it ends, having handed out all free frames of the two zones except the zones' end pages. Of the free
  frames that \<^verbatim>\<open>__get_zone\<close> assigns to a zone the end page alone is left free, if it was. It reports
  for each zone the number of frames it got, and that the counters match, unless the zone's end page
  is in use: then it reports that they differ by -1, the end page being counted among the used frames
  and not in the size. The allocator's invariant still holds.\<close>

theorem test_alloc_pages_matches:
  assumes "test_ready s" "zone_testable s 0 ZONE_DMA" "zone_testable s 1 ZONE_NORMAL"
  shows "\<exists>s1 s2 s'. taken (fold tty_putc (calling_out ''ZONE_DMA'') s) (zone_free ZONE_DMA s - {end_page (zones s ! 0)}) s1
    \<and> taken (fold tty_putc (report_out (of_nat (card (zone_free ZONE_DMA s - {end_page (zones s ! 0)}))) (end_in_use s 0)
          @ calling_out ''ZONE_NORMAL'') s1)
        (zone_free ZONE_NORMAL s - {end_page (zones s ! 1)}) s2
    \<and> s' = fold tty_putc (report_out (of_nat (card (zone_free ZONE_NORMAL s - {end_page (zones s ! 1)}))) (end_in_use s 1)) s2
    \<and> test_alloc_pages s = Some s' \<and> alloc_wf s'
    \<and> zone_free ZONE_DMA s' = zone_free ZONE_DMA s \<inter> {end_page (zones s ! 0)}
    \<and> zone_free ZONE_NORMAL s' = zone_free ZONE_NORMAL s \<inter> {end_page (zones s ! 1)}"
proof -
  let ?c0 = "fold tty_putc (calling_out ''ZONE_DMA'') s"
  let ?D = "zone_free ZONE_DMA s - {end_page (zones s ! 0)}" and ?N = "zone_free ZONE_NORMAL s - {end_page (zones s ! 1)}"
  have ne: "ZONE_DMA \<noteq> ZONE_NORMAL" by (simp add: zone_defs)
  have D: "free_frames ZONE_DMA s = ?D" and N: "free_frames ZONE_NORMAL s = ?N"
    by (rule free_frames_zone [OF assms(2)], rule free_frames_zone [OF assms(3)])
  obtain s1 s1' where z0: "taken ?c0 ?D s1" "test_zone 0 ''ZONE_DMA'' ZONE_DMA 1 s = Some s1'"
    "s1' = fold tty_putc (report_out (of_nat (card ?D)) (end_in_use s 0)) s1" "console_step s ?c0" "test_ready s1" "console_step s1 s1'"
    using test_zone_effect [OF assms(1,2), of "''ZONE_DMA''"] unfolding D by blast
  note c = test_ready_console [OF assms(1) z0(4)] and d = test_ready_console [OF z0(5,6)]
  have wf: "zones_wf ?c0" using c(1) by (simp add: test_ready_def alloc_wf_def counts_wf_def)
  have t: "taken ?c0 (free_frames ZONE_DMA ?c0) s1" using z0(1) by (simp only: c(3) D)
  have zt: "zone_testable ?c0 0 ZONE_DMA" "zone_testable ?c0 1 ZONE_NORMAL" using assms(2,3) by (simp_all only: c(2))
  note tt = testable_taken [OF t wf zt ne]
  have z: "zone_testable s1' 1 ZONE_NORMAL" using tt(1) by (simp only: d(2))
  have f: "free_frames ZONE_NORMAL s1' = ?N" using tt(2) by (simp only: d(3) c(3) N)
  have e: "end_in_use s1' 1 = end_in_use s 1" using tt(3) by (simp only: d(6) c(6))
  let ?c1 = "fold tty_putc (calling_out ''ZONE_NORMAL'') s1'"
  obtain s2 s2' where z1: "taken ?c1 ?N s2" "test_zone 1 ''ZONE_NORMAL'' ZONE_NORMAL 1 s1' = Some s2'"
    "s2' = fold tty_putc (report_out (of_nat (card ?N)) (end_in_use s 1)) s2" "console_step s1' ?c1" "test_ready s2" "console_step s2 s2'"
    using test_zone_effect [OF d(1) z, of "''ZONE_NORMAL''"] by (auto simp only: f e insert_iff)
  note c1 = test_ready_console [OF d(1) z1(4)] and d1 = test_ready_console [OF z1(5,6)]
  have "zones_wf ?c1" using c1(1) by (simp add: test_ready_def alloc_wf_def counts_wf_def)
  then have left: "zone_free g s2' = zone_free g s - ?D - ?N" for g
    by (simp only: d1(7) zone_free_taken [OF z1(1)] c1(7) d(7) zone_free_taken [OF z0(1) wf] c(7))
  have other: "zone_free ZONE_DMA s \<inter> zone_free ZONE_NORMAL s = {}" using ne by (auto simp: zone_free_def)
  have "zone_free ZONE_DMA s2' = zone_free ZONE_DMA s \<inter> {end_page (zones s ! 0)}"
    "zone_free ZONE_NORMAL s2' = zone_free ZONE_NORMAL s \<inter> {end_page (zones s ! 1)}"
    unfolding left using other by blast+
  moreover have "alloc_wf s2'" using d1(1) by (simp add: test_ready_def)
  moreover have "?c1 = fold tty_putc (report_out (of_nat (card ?D)) (end_in_use s 0) @ calling_out ''ZONE_NORMAL'') s1"
    by (simp only: z0(3) fold_append comp_apply)
  moreover have "test_alloc_pages s = Some s2'" using z0(2) z1(2) by (simp add: test_alloc_pages_def)
  ultimately show ?thesis
    using z0(1) z1(1,3) by (intro exI [of _ s1] exI [of _ s2] exI [of _ s2']) simp
qed

section \<open>\<^verbatim>\<open>dump_stats\<close>\<close>

definition memory_text :: string where
  "memory_text = ''Memory: %d kbytes total, %d pages, %d available'' @ [CHR 0x0A]"

definition zone_text :: string where
  "zone_text = ''Zone Used Pages: [0x%x] %d '' @ [CHR 0x0A]"

fun dump_zones :: "page_zone list \<Rightarrow> 'a paging_scheme \<Rightarrow> 'a paging_scheme option" where
  "dump_zones [] s = Some s"
| "dump_zones (z # zs) s = do {
     s \<leftarrow> kprintf (rodata s zone_text) [allocation_flag z, usedpages z] s;
     dump_zones zs s
   }"

definition dump_stats :: "'a paging_scheme \<Rightarrow> 'a paging_scheme option" where
  "dump_stats s = do {
     s \<leftarrow> kprintf (rodata s memory_text) [kb_installed s, total_pages s, free_pages s] s;
     s \<leftarrow> dump_zones (take (unat (num_zones s)) (page_zones s)) s;
     kprintf (rodata s [CHR 0x0A]) [] s
   }"

definition dec :: "u32 \<Rightarrow> u8 list" where
  "dec w = number False False 0 False 10 (sint w)"

definition memory_out :: "'a paging_scheme \<Rightarrow> u8 list" where
  "memory_out s = map of_char ''Memory: '' @ dec (kb_installed s) @ map of_char '' kbytes total, '' @ dec (total_pages s)
     @ map of_char '' pages, '' @ dec (free_pages s) @ map of_char ('' available'' @ [CHR 0x0A])"

definition zone_out :: "page_zone \<Rightarrow> u8 list" where
  "zone_out z = map of_char ''Zone Used Pages: [0x'' @ number False False 0 False 16 (uint (allocation_flag z))
     @ map of_char ''] '' @ dec (usedpages z) @ map of_char ('' '' @ [CHR 0x0A])"

lemma stats_formats:
  "plain_format memory_text" "plain_format zone_text" "plain_format [CHR 0x0A]"
  "printed (pieces memory_text) [Word a, Word b, Word c] = Some (map of_char ''Memory: '' @ dec a
     @ map of_char '' kbytes total, '' @ dec b @ map of_char '' pages, '' @ dec c @ map of_char ('' available'' @ [CHR 0x0A]))"
  "printed (pieces zone_text) [Word (allocation_flag z), Word (usedpages z)] = Some (zone_out z)"
  "printed (pieces [CHR 0x0A]) [] = Some [0x0A]"
  by (simp_all add: memory_text_def zone_text_def zone_out_def dec_def signed_of_def unsigned_of_def)

lemma dump_zones_out:
  "tty_wf s \<Longrightarrow> text_ready s zone_text \<Longrightarrow>
    dump_zones zs s = Some (fold tty_putc (concat (map zone_out zs)) s)
    \<and> console_step s (fold tty_putc (concat (map zone_out zs)) s)"
proof (induction zs arbitrary: s)
  case (Cons z zs)
  let ?s = "fold tty_putc (zone_out z) s"
  have k: "kprintf (rodata s zone_text) [allocation_flag z, usedpages z] s = Some ?s" "console_step s ?s"
    using kprintf_args [OF Cons.prems stats_formats(2) _ stats_formats(5)] by (simp_all add: arg_ok_def)
  have "tty_wf ?s" "text_ready ?s zone_text"
    using k(2) text_ready_console [OF Cons.prems(2) k(2)] by (simp_all add: console_step_def)
  from Cons.IH [OF this] show ?case using k console_step_trans [OF k(2)] by simp
qed (simp add: console_step_fold [of _ "[]", simplified])

text \<open>\<^verbatim>\<open>dump_stats\<close> prints the allocator's counters and nothing else; when its invariant holds, the
  number of available pages it prints is that of the pages not in use.\<close>

theorem dump_stats_prints:
  assumes "tty_wf s" "text_ready s memory_text" "text_ready s zone_text" "text_ready s [CHR 0x0A]"
  shows "dump_stats s = Some (fold tty_putc (memory_out s @ concat (map zone_out (zones s)) @ [0x0A]) s)
    \<and> (alloc_wf s \<longrightarrow> unat (free_pages s) = card {n. n < total_pages s \<and> \<not> page_used s n})"
proof -
  let ?s1 = "fold tty_putc (memory_out s) s"
  have k1: "kprintf (rodata s memory_text) [kb_installed s, total_pages s, free_pages s] s = Some ?s1" "console_step s ?s1"
    using kprintf_args [OF assms(1,2) stats_formats(1) _ stats_formats(4)] by (simp_all add: arg_ok_def memory_out_def)
  have z: "take (unat (num_zones ?s1)) (page_zones ?s1) = zones s"
    using k1(2) by (auto simp: console_step_def zones_def)
  let ?s2 = "fold tty_putc (concat (map zone_out (zones s))) ?s1"
  have "tty_wf ?s1" "text_ready ?s1 zone_text"
    using k1(2) text_ready_console [OF assms(3) k1(2)] by (simp_all add: console_step_def)
  note k2 = dump_zones_out [OF this, of "zones s"]
  then have "tty_wf ?s2" "text_ready ?s2 [CHR 0x0A]"
    using text_ready_console [OF assms(4) console_step_trans [OF k1(2)]] by (simp_all add: console_step_def)
  from kprintf_args(1) [OF this stats_formats(3) _ stats_formats(6)]
  have "dump_stats s = Some (fold tty_putc (memory_out s @ concat (map zone_out (zones s)) @ [0x0A]) s)"
    using k1 k2 z by (simp add: dump_stats_def)
  moreover have "unat (free_pages s) = card {n. n < total_pages s \<and> \<not> page_used s n}" if wf: "alloc_wf s"
  proof -
    have u: "used_pages s \<subseteq> {n. n < total_pages s}" by (auto simp: used_pages_def)
    have t: "card {n. n < total_pages s} = unat (total_pages s)"
      using card_page_range [of 0 "total_pages s"] by (simp add: page_range_def)
    then have le: "card (used_pages s) \<le> unat (total_pages s)" using card_mono [OF _ u] by simp
    have "{n. n < total_pages s \<and> \<not> page_used s n} = {n. n < total_pages s} - used_pages s"
      by (auto simp: used_pages_def)
    then have c: "card {n. n < total_pages s \<and> \<not> page_used s n} = unat (total_pages s) - card (used_pages s)"
      using card_Diff_subset [OF _ u] t by simp
    have "free_pages s = of_nat (unat (total_pages s)) - of_nat (card (used_pages s))"
      using wf by (simp add: alloc_wf_def counts_wf_def)
    then have "free_pages s = of_nat (unat (total_pages s) - card (used_pages s))" using le by (simp only: of_nat_diff)
    then show ?thesis using c unat_less_2p32 [of "total_pages s"] by (simp add: unat_of_nat)
  qed
  ultimately show ?thesis by blast
qed

end
