(* ===== verification/Sample_Test.thy ===== *)
theory Sample_Test
  imports Sample_Boot Alloc_Test
begin

text \<open>
  The allocator's test on the sample machine, with its texts in the read-only data: page 0 is the only
  one in use, so the test takes 4094 frames of the first zone and 4096 of the second.
\<close>

definition all_texts :: "string list" where
  "all_texts = test_texts @ [memory_text, zone_text, [CHR 0x0A]]"

definition test_table :: "(string \<times> u32) list" where
  "test_table = zip all_texts [0xC0120000, 0xC0120100, 0xC0120200, 0xC0120300, 0xC0120400, 0xC0120500, 0xC0120600, 0xC0120700, 0xC0120800]"

definition sample_test :: devices where
  "sample_test = sample\<lparr>rodata := (\<lambda>t. case map_of test_table t of None \<Rightarrow> 0 | Some a \<Rightarrow> a),
     mem := poke_table test_table (mem sample)\<rparr>"

lemma test_table_facts:
  "list_all (\<lambda>(t, a). map_of test_table t = Some a \<and> length t \<le> 80 \<and> 0xC0120000 \<le> a \<and> a \<le> 0xC0120800
     \<and> 0 \<notin> (of_char ` set t :: u8 set)) test_table"
  "sorted_wrt (\<lambda>(_, a) (_, b). apart a 81 b 81) test_table" "map fst test_table = all_texts"
  by (simp_all add: test_table_def all_texts_def memory_text_def zone_text_def test_texts_def test_name_def calling_text_def done_text_def match_text_def differ_text_def apart_def)

lemma poke_table_outside:
  "\<forall>(t, a) \<in> set ts. b \<notin> span a (Suc (length t)) \<Longrightarrow> poke_table ts m b = m b"
  by (induction ts) (auto simp: poke_def text_bytes_def)

lemma sample_test_text:
  assumes "t \<in> set all_texts"
  obtains a where "rodata sample_test t = a" "text_ready sample_test t" "0xC0120000 \<le> unat a"
    "unat a + Suc (length t) \<le> 0xC0120900"
proof -
  have t: "t \<in> fst ` set test_table" using assms by (simp only: test_table_facts(3) flip: set_map)
  have "list_all (\<lambda>(t, a). map_of test_table t = Some a \<and> length t \<le> 80 \<and> 0 \<notin> (of_char ` set t :: u8 set)) test_table"
    using test_table_facts(1) by (auto simp: list_all_iff)
  from poke_table_cstring [OF this test_table_facts(2) t, of "mem sample"] obtain a where m: "(t, a) \<in> set test_table"
    and f: "map_of test_table t = Some a" "length t \<le> 80" and c: "cstring (poke_table test_table (mem sample)) a (map of_char t)" .
  have r: "rodata sample_test t = a" using f(1) by (simp add: sample_test_def)
  have b: "0xC0120000 \<le> unat a" "unat a + Suc (length t) \<le> 0xC0120900"
    using m f(2) test_table_facts(1) by (auto simp: list_all_iff word_le_nat_alt)
  have c: "cstring (mem sample_test) a (map of_char t)" using c by (simp add: sample_test_def)
  have "span a (Suc (length t)) \<inter> span 0xB8000 4000 = {}"
    using separate_nat [of a "Suc (length t)" "0xB8000" 4000] b by (simp add: separate_def)
  then have "text_ready sample_test t"
    using c f(2) by (simp add: text_ready_def r) (simp add: screen_def sample_test_def sample_def)
  with r b show ?thesis by (intro that [of a])
qed

lemma sample_test_bitmap: "b \<in> bitmap_bytes (k_page_bitmap sample) \<Longrightarrow> mem sample_test b = mem sample b"
proof -
  assume "b \<in> bitmap_bytes (k_page_bitmap sample)"
  then have b: "0xC0200000 \<le> unat b" by (simp add: bitmap_bytes_def span_nat_iff)
  have "b \<notin> span a (Suc (length t))" if "(t, a) \<in> set test_table" for t a
  proof -
    have "length t \<le> 80" "unat a \<le> 0xC0120800" using that test_table_facts(1) by (auto simp: list_all_iff word_le_nat_alt)
    then show ?thesis using b by (subst span_nat_iff) simp_all
  qed
  then have "poke_table test_table (mem sample) b = mem sample b" by (intro poke_table_outside) blast
  then show ?thesis by (simp only: sample_test_def) simp
qed

lemma sample_test_used: "n < 8192 \<Longrightarrow> page_used sample_test n \<longleftrightarrow> n = 0"
proof -
  assume n: "n < 8192"
  have "page_used (sample\<lparr>mem := mem sample_test\<rparr>) n = page_used sample n"
    using n by (intro page_used_mem sample_test_bitmap) simp_all
  then show ?thesis using sample_page_used [OF n] by (simp add: page_used_def sample_test_def)
qed

lemma sample_test_fields:
  "zones sample_test = [\<lparr>allocation_flag = 1, base_page = 0, end_page = 0xFFF, usedpages = 1\<rparr>,
     \<lparr>allocation_flag = 2, base_page = 0x1000, end_page = 0x2000, usedpages = 0\<rparr>]"
  "total_pages sample_test = 8192" "num_zones sample_test = 2"
  using sample_zones by (simp_all add: sample_test_def zones_def)

lemma sample_test_ready: "test_ready sample_test"
proof -
  have scr: "screen sample_test = span 0xB8000 4000" "tty_wf sample_test"
    by (simp_all add: screen_def tty_wf_def sample_test_def sample_def)
  have bm: "k_page_bitmap sample_test = k_page_bitmap sample" by (simp add: sample_test_def)
  have "alloc_wf sample_test"
    by (rule alloc_wf_cong [OF sample_alloc_wf]) (simp_all add: sample_test_bitmap, simp_all add: sample_test_def)
  moreover have "screen sample_test \<inter> bitmap_bytes (k_page_bitmap sample_test) = {}"
    by (auto simp: scr bm bitmap_bytes_def span_nat_iff)
  moreover have "text_ready sample_test t
      \<and> span (rodata sample_test t) (Suc (length t)) \<inter> bitmap_bytes (k_page_bitmap sample_test) = {}"
    if t: "t \<in> set test_texts" for t
  proof -
    obtain a where a: "rodata sample_test t = a" "text_ready sample_test t" "0xC0120000 \<le> unat a"
      "unat a + Suc (length t) \<le> 0xC0120900" using sample_test_text [of t] t by (auto simp: all_texts_def)
    have "span a (Suc (length t)) \<inter> span 0xC0200000 1024 = {}"
      using separate_nat [of a "Suc (length t)" "0xC0200000" 1024] a by (simp add: separate_def)
    then show ?thesis using a(1,2) by (simp add: bm bitmap_bytes_def)
  qed
  ultimately show ?thesis using scr(2) by (simp add: test_ready_def)
qed

lemma sample_testable: "zone_testable sample_test 0 ZONE_DMA" "zone_testable sample_test 1 ZONE_NORMAL"
  "\<not> end_in_use sample_test 0" "\<not> end_in_use sample_test 1"
proof -
  have "n \<le> 0xFFF \<or> \<not> (0x1000 \<le> n \<and> n \<le> 0x2000) \<or> 0xFFF < n" for n :: u32 by (auto simp: word_le_nat_alt word_less_nat_alt)
  then show "zone_testable sample_test 0 ZONE_DMA" "zone_testable sample_test 1 ZONE_NORMAL"
    by (auto simp: zone_testable_def sample_test_fields zone_defs Let_def word_le_nat_alt word_less_nat_alt)
  show "\<not> end_in_use sample_test 0" "\<not> end_in_use sample_test 1"
    using sample_test_used [of "0xFFF"] by (simp_all add: end_in_use_def sample_test_fields)
qed

theorem test_alloc_pages_matches_witness:
  "\<exists>s2 s' n. test_alloc_pages sample_test = Some s' \<and> alloc_wf s' \<and> zone_free ZONE_DMA s' = {0xFFF}
    \<and> s' = fold tty_putc (report_out n False) s2"
proof -
  have "0xFFF \<in> zone_free ZONE_DMA sample_test"
    using sample_test_used [of "0xFFF"] by (simp add: zone_free_def sample_test_fields zone_defs)
  then show ?thesis
    using test_alloc_pages_matches [OF sample_test_ready sample_testable(1,2)] sample_testable(3,4)
    by (auto simp: sample_test_fields)
qed

theorem dump_stats_prints_witness:
  "dump_stats sample_test = Some (fold tty_putc (memory_out sample_test @ concat (map zone_out (zones sample_test)) @ [0x0A])
    sample_test)"
proof -
  have "text_ready sample_test t" if "t \<in> {memory_text, zone_text, [CHR 0x0A]}" for t
    using sample_test_text [of t] that by (auto simp: all_texts_def)
  moreover have "tty_wf sample_test" using sample_test_ready by (simp add: test_ready_def)
  ultimately show ?thesis using dump_stats_prints [of sample_test] by simp
qed

end
