(* ===== verification/Heap_Client.thy ===== *)
theory Heap_Client
  imports Create
begin

text \<open>
  The heap as its clients see it: a client may write its own blocks and what lies off the heap, and the
  heap's invariant does not see it. Over any sequence of allocations, releases of blocks in use and
  stores into blocks in use the heap stays sound, every operation returns, and a block keeps its place
  and its contents until its owner writes to it or releases it.
\<close>

section \<open>Writes and allocations of a client\<close>

lemma header_in_heap:
  assumes "heap_wf s xs" "x \<in> set xs" "b \<in> span x 20"
  shows "unat (heap_base s) \<le> unat b" "unat b < unat (brk_max s)"
proof -
  have sh: "heap_shape s xs" using assms(1) by (simp add: heap_wf_def)
  have lb: "unat (heap_base s) \<le> unat x" "unat x + 20 + unat (mh_size (mem s) x) \<le> unat (heap_brk s)"
    "unat (heap_brk s) \<le> unat (brk_max s)"
    using sh laid_out_bounds [OF _ assms(2)] by (auto simp: heap_shape_def)
  then have "unat x + 20 \<le> 4294967296" using unat_less_2p32 [of "heap_brk s"] by linarith
  then show "unat (heap_base s) \<le> unat b" "unat b < unat (brk_max s)"
    using assms(3) lb span_nat_iff [of x 20 b] by auto
qed

lemma owned_in_heap:
  assumes "heap_wf s xs" "(q, j) \<in> heap_owned s" "b \<in> span q j"
  shows "\<not> off_heap s {b}" "b \<notin> span (chain_hd s) 8" "x \<in> set xs \<Longrightarrow> b \<notin> span x 20"
proof -
  have sh: "heap_shape s xs" using assms(1) by (simp add: heap_wf_def)
  obtain y where y: "y \<in> set xs" "b \<in> span (y + 20) (unat (mh_size (mem s) y))"
    using assms(2,3) unfolding heap_owned_eq [OF assms(1)] by auto
  show "b \<notin> span (chain_hd s) 8" "x \<in> set xs \<Longrightarrow> b \<notin> span x 20" using payload_frame [OF sh y] by blast+
  have "unat (heap_base s) \<le> unat y" "unat y + 20 + unat (mh_size (mem s) y) \<le> unat (heap_brk s)"
    "unat (heap_brk s) \<le> unat (brk_max s)"
    using sh laid_out_bounds [OF _ y(1)] by (auto simp: heap_shape_def)
  then show "\<not> off_heap s {b}" using payload_byte [OF sh y] by (auto simp: off_heap_def extent_def)
qed

lemma heap_client_write:
  assumes wf: "heap_wf s xs"
    and w: "\<And>b. m' b \<noteq> mem s b \<Longrightarrow> off_heap s {b} \<or> (\<exists>(q, j) \<in> heap_owned s. b \<in> span q j)"
  shows "heap_wf (s\<lparr>mem := m'\<rparr>) xs" "heap_owned (s\<lparr>mem := m'\<rparr>) = heap_owned s"
proof -
  have same: "m' b = mem s b" if "b \<in> span (chain_hd s) 8 \<or> (\<exists>x \<in> set xs. b \<in> span x 20)" for b
  proof (rule ccontr)
    assume "m' b \<noteq> mem s b"
    then show False
      using w [of b] that header_in_heap [OF wf, of _ b] owned_in_heap [OF wf, of _ _ b] by (fastforce simp: off_heap_def)
  qed
  show wf': "heap_wf (s\<lparr>mem := m'\<rparr>) xs" by (rule heap_wf_frame [OF wf same]) simp_all
  have "mh_size m' x = mh_size (mem s) x" "mh_used m' x = mh_used (mem s) x" if "x \<in> set xs" for x
    using fields_cong [of x m' "mem s"] same that fields_in_header by blast+
  then show "heap_owned (s\<lparr>mem := m'\<rparr>) = heap_owned s"
    unfolding heap_owned_eq [OF wf] heap_owned_eq [OF wf'] by (auto simp: image_iff)
qed

lemma alloc_result_brk:
  assumes "alloc_result n s xs p s' xs'"
  shows "unat (heap_brk s') \<le> unat (heap_brk s) + 20 + unat n"
proof -
  have "heap_brk s' = heap_brk s \<or> heap_brk s' = heap_brk s + 20 + n"
    using assms unfolding alloc_result_def by (cases "find (fits (mem s) n) xs") auto
  then show ?thesis
    using unat_plus_le [of "heap_brk s + 20" n] unat_plus_le [of "heap_brk s" 20] by auto
qed

text \<open>An allocation for a client: a block apart from everything off the heap and from the other blocks,
  whose contents stay.\<close>

lemma kmalloc_client:
  assumes wf: "heap_wf s xs" and n: "n \<noteq> 0" and room: "heap_room n s"
  obtains p k s' xs' where "kmalloc n 0 s = Some (p, s')" "p \<noteq> 0" "heap_wf s' xs'" "unat n \<le> k"
    "(p, k) \<notin> heap_owned s" "heap_owned s' = insert (p, k) (heap_owned s)"
    "\<And>q j b. (q, j) \<in> heap_owned s \<Longrightarrow> b \<in> span q j \<Longrightarrow> mem s' b = mem s b"
    "\<And>b. off_heap s {b} \<Longrightarrow> mem s' b = mem s b"
    "unat (heap_brk s') \<le> unat (heap_brk s) + 20 + unat n"
    "s' = s\<lparr>heap_brk := heap_brk s', mem := mem s', total_blocks := total_blocks s', used_blocks := used_blocks s'\<rparr>"
proof -
  have "\<exists>xs. heap_wf s xs" using wf by blast
  from kh.alloc_ok [OF this n room] obtain p k s' where a: "kmalloc n 0 s = Some (p, s')" "unat n \<le> k"
    "(p, k) \<notin> heap_owned s" "heap_owned s' = insert (p, k) (heap_owned s)"
    "\<forall>(q, j) \<in> heap_owned s. \<forall>b \<in> span q j. mem s' b = mem s b" by blast
  obtain xs' where r: "alloc_result n s xs (p - 20) s' xs'"
    using kmalloc_result [OF wf n, of 0] room a(1) unfolding heap_room_def by fastforce
  have wf': "heap_wf s' xs'" and fr: "chain_frame (chain_hd s) xs' (mem s) (mem s')" and px: "p - 20 \<in> set xs'"
    and same: "s' = s\<lparr>heap_brk := heap_brk s', mem := mem s', total_blocks := total_blocks s', used_blocks := used_blocks s'\<rparr>"
    using r by (simp_all add: alloc_result_def)
  have eq: "heap_base s' = heap_base s" "brk_max s' = brk_max s"
    using arg_cong [OF same, of heap_base] arg_cong [OF same, of brk_max] by simp_all
  have "mem s' b = mem s b" if "off_heap s {b}" for b
    using fr header_in_heap [OF wf', of _ b] that unfolding chain_frame_def off_heap_def eq by blast
  moreover have "p \<noteq> 0" using block_bounds(4) [of s' xs' "p - 20"] wf' px by (simp add: heap_wf_def)
  ultimately show ?thesis using a wf' alloc_result_brk [OF r] same by (intro that [of p s' xs' k]) auto
qed

section \<open>Sequences of operations\<close>

datatype heap_op = Alloc u32 | Free u32 | Store u32 u8

fun client_op :: "heap_op \<Rightarrow> 'a heap_scheme \<Rightarrow> 'a heap_scheme option" where
  "client_op (Alloc n) s = map_option snd (kmalloc n 0 s)"
| "client_op (Free p) s = kfree p s"
| "client_op (Store b v) s = Some (s\<lparr>mem := (mem s)(b := v)\<rparr>)"

fun client_run :: "heap_op list \<Rightarrow> 'a heap_scheme \<Rightarrow> 'a heap_scheme option" where
  "client_run [] s = Some s"
| "client_run (x # ops) s = Option.bind (client_op x s) (client_run ops)"

text \<open>A well-behaved client asks for more than no bytes and only while the heap can grow, releases
  blocks in use and writes into blocks in use.\<close>

fun allowed :: "heap_op \<Rightarrow> 'a heap_scheme \<Rightarrow> bool" where
  "allowed (Alloc n) s \<longleftrightarrow> n \<noteq> 0 \<and> heap_room n s"
| "allowed (Free p) s \<longleftrightarrow> (\<exists>k. (p, k) \<in> heap_owned s)"
| "allowed (Store b v) s \<longleftrightarrow> (\<exists>(q, j) \<in> heap_owned s. b \<in> span q j)"

fun well_behaved :: "heap_op list \<Rightarrow> 'a heap_scheme \<Rightarrow> bool" where
  "well_behaved [] s \<longleftrightarrow> True"
| "well_behaved (x # ops) s \<longleftrightarrow> allowed x s \<and> (\<forall>s'. client_op x s = Some s' \<longrightarrow> well_behaved ops s')"

text \<open>What a sequence of operations leaves alone.\<close>

definition spares :: "heap_op list \<Rightarrow> 'a heap_scheme \<Rightarrow> 'a heap_scheme \<Rightarrow> bool" where
  "spares ops s s' \<longleftrightarrow> (\<forall>(q, j) \<in> heap_owned s. Free q \<notin> set ops \<longrightarrow> (q, j) \<in> heap_owned s'
     \<and> (\<forall>b \<in> span q j. (\<forall>v. Store b v \<notin> set ops) \<longrightarrow> mem s' b = mem s b))"

lemma spares_trans: "spares [x] s t \<Longrightarrow> spares ops t s' \<Longrightarrow> spares (x # ops) s s'"
  unfolding spares_def by (fastforce split: prod.splits)

lemma client_op_ok:
  assumes wf: "\<exists>xs. heap_wf s xs" and ok: "allowed x s"
  shows "\<exists>s'. client_op x s = Some s' \<and> (\<exists>xs. heap_wf s' xs) \<and> spares [x] s s'"
proof (cases x)
  case (Alloc n)
  then show ?thesis using kh.alloc_ok [OF wf, of n] ok by (fastforce simp: spares_def)
next
  case (Free p)
  then obtain k where "(p, k) \<in> heap_owned s" using ok by auto
  from kh.release_ok [OF wf this] Free show ?thesis by (fastforce simp: spares_def)
next
  case (Store b v)
  obtain xs where w: "heap_wf s xs" using wf by blast
  have c: "off_heap s {c} \<or> (\<exists>(q, j) \<in> heap_owned s. c \<in> span q j)" if "((mem s)(b := v)) c \<noteq> mem s c" for c
    using ok Store that by (auto split: if_splits)
  from heap_client_write [where m' = "(mem s)(b := v)", OF w c]
  have "heap_wf (s\<lparr>mem := (mem s)(b := v)\<rparr>) xs" "heap_owned (s\<lparr>mem := (mem s)(b := v)\<rparr>) = heap_owned s" by simp_all
  then show ?thesis using Store by (auto simp: spares_def)
qed

text \<open>C7: Under a well-behaved client every operation of the heap returns, the heap's invariant holds at
  the end, the blocks in use never overlap, and a block that was in use at the start and is not
  released keeps its place, with every byte that the client does not write.\<close>

theorem heap_runs_sound:
  assumes "\<exists>xs. heap_wf s xs" "well_behaved ops s"
  shows "\<exists>s'. client_run ops s = Some s' \<and> (\<exists>xs. heap_wf s' xs) \<and> spares ops s s'
    \<and> (\<forall>(p, k) \<in> heap_owned s'. \<forall>(q, j) \<in> heap_owned s'. (p, k) \<noteq> (q, j) \<longrightarrow> span p k \<inter> span q j = {})"
  using assms
proof (induction ops arbitrary: s)
  case Nil
  have "span p k \<inter> span q j = {}" if "(p, k) \<in> heap_owned s" "(q, j) \<in> heap_owned s" "(p, k) \<noteq> (q, j)" for p k q j
    using kh.owned_disjoint [OF Nil.prems(1) that] .
  then show ?case using Nil.prems(1) by (simp add: spares_def) blast
next
  case (Cons x ops)
  obtain t where t: "client_op x s = Some t" "\<exists>xs. heap_wf t xs" "spares [x] s t"
    using client_op_ok [OF Cons.prems(1), of x] Cons.prems(2) by auto
  from Cons.IH [OF t(2)] Cons.prems(2) t(1) obtain s' where "client_run ops t = Some s'" "\<exists>xs. heap_wf s' xs"
    "spares ops t s'"
    "\<forall>(p, k) \<in> heap_owned s'. \<forall>(q, j) \<in> heap_owned s'. (p, k) \<noteq> (q, j) \<longrightarrow> span p k \<inter> span q j = {}" by auto
  with t spares_trans [OF t(3)] show ?case by (intro exI [of _ s']) simp
qed

end
