(* ===== verification/Dev_Props.thy ===== *)
theory Dev_Props
  imports Devmgr Heap_Client Messages
begin

text \<open>
  The device list of \<^verbatim>\<open>drv/devmgr.c\<close>: the devices lie in blocks of the heap, linked from
  \<^verbatim>\<open>k_devs\<close>, the last registered first. A client of the heap may write its own blocks and what lies
  off the heap: the heap's invariant does not see it (\<open>Heap_Client\<close>). Registering puts a new device in front and keeps
  the others; \<^verbatim>\<open>foreachdevice\<close> runs its function on the devices of one major number, in that order.
\<close>

section \<open>The device list\<close>

record device =
  dv_name :: u32
  dv_major :: u16
  dv_minor :: u16
  dv_info :: u32
  dv_size :: u32

definition device_at :: "bytes \<Rightarrow> u32 \<Rightarrow> device" where
  "device_at m d = \<lparr>dv_name = d_name m d, dv_major = d_major m d, dv_minor = d_minor m d, dv_info = d_devinfo m d,
     dv_size = d_devinfo_size m d\<rparr>"

definition devs_wf :: "'a devices_scheme \<Rightarrow> u32 list \<Rightarrow> bool" where
  "devs_wf s dl \<longleftrightarrow> (\<exists>xs. heap_wf s xs) \<and> dlist (mem s) (k_devs s) dl \<and> off_heap s (span (k_devs s) 8)
     \<and> (\<forall>d \<in> set dl. \<exists>k \<ge> 24. (d, k) \<in> heap_owned s)"

text \<open>\<^verbatim>\<open>init_devices\<close> on a sound heap leaves an empty list.\<close>

lemma init_devices_wf:
  assumes "heap_wf s xs" "off_heap s (span (k_devs s) 8)"
  shows "devs_wf (init_devices s) []" "heap_room n (init_devices s) = heap_room n s"
proof -
  let ?m = "INIT_LIST_HEAD (k_devs s) (mem s)"
  have w: "off_heap s {b} \<or> (\<exists>(q, j) \<in> heap_owned s. b \<in> span q j)" if "?m b \<noteq> mem s b" for b
    using list_head_outside [of b "k_devs s" "mem s"] assms(2) that by (auto simp: off_heap_def)
  have "heap_wf (s\<lparr>mem := ?m\<rparr>) xs" by (rule heap_client_write(1) [OF assms(1) w])
  then show "devs_wf (init_devices s) []"
    using assms(2) dlist_init by (auto simp: devs_wf_def init_devices_def off_heap_def)
qed (simp add: heap_room_def init_devices_def)

lemma device_cong:
  assumes "\<And>b. b \<in> span (d + 8) 16 \<Longrightarrow> m' b = m b"
  shows "device_at m' d = device_at m d"
proof -
  have s: "m' b = m b" if "b \<in> span (d + i) n" "unat (i - 8) + n \<le> 16" for b i n
    using span_offset [of b "d + 8" "i - 8" n 16] that assms by simp
  have "d_name m' d = d_name m d" "d_devinfo m' d = d_devinfo m d" "d_devinfo_size m' d = d_devinfo_size m d"
    unfolding d_field_defs by (rule load32_cong; use s in simp)+
  moreover have "d_major m' d = d_major m d" "d_minor m' d = d_minor m d"
    unfolding d_field_defs by (rule load16_cong; use s in simp)+
  ultimately show ?thesis by (simp add: device_at_def)
qed

text \<open>The stores of \<^verbatim>\<open>register_device\<close> before the device is linked.\<close>

definition device_stores :: "u32 \<Rightarrow> device \<Rightarrow> bytes \<Rightarrow> bytes" where
  "device_stores d v m = store32 (store32 (store16 (store16 (store32 m (d + 8) (dv_name v)) (d + 12) (dv_major v))
     (d + 14) (dv_minor v)) (d + 16) (dv_info v)) (d + 20) (dv_size v)"

lemma device_stores:
  "device_at (device_stores d v m) d = v" "b \<notin> span d 24 \<Longrightarrow> device_stores d v m b = m b"
proof -
  show "device_at (device_stores d v m) d = v"
    by (simp add: device_at_def device_stores_def d_field_defs mem_frame apart_def)
  assume "b \<notin> span d 24"
  then have "b \<notin> span (d + i) n" if "unat i + n \<le> 24" for i n using span_offset [of b d i n 24] that by auto
  from this [of 8 4] this [of 12 2] this [of 14 2] this [of 16 4] this [of 20 4]
  show "device_stores d v m b = m b" by (simp add: device_stores_def store32_outside store16_outside)
qed

lemma register_device_run:
  assumes "kmalloc 24 0 s = Some (p, s1)" "p \<noteq> 0"
  shows "register_device nm maj mnr info sz s = Some (s1\<lparr>mem := list_add p (k_devs s1)
    (device_stores p \<lparr>dv_name = nm, dv_major = maj, dv_minor = mnr, dv_info = info, dv_size = sz\<rparr> (mem s1))\<rparr>)"
  using assms by (simp add: register_device_def SIZEOF_DEV_def device_stores_def Let_def)

lemma link_in_device: "b \<in> span d 8 \<Longrightarrow> b \<in> span d 24"
  using span_mono [of b d 8 24] by simp

lemma device_body: "b \<in> span (d + 8) 16 \<Longrightarrow> b \<in> span d 24 \<and> b \<notin> span d 8"
  using span_offset [of b d 8 16 24] span_after [of b d 8 16] by simp

text \<open>The fields of a device are apart from the head and the links of all devices.\<close>

lemma devices_apart:
  assumes "devs_wf s dl" "d \<in> set dl" "b \<in> span (d + 8) 16" "x \<in> set (k_devs s # dl)"
  shows "b \<notin> span x 8"
proof (cases "x = d")
  case True
  then show ?thesis using device_body [OF assms(3)] by simp
next
  case False
  obtain xs where wf: "heap_wf s xs" using assms(1) by (auto simp: devs_wf_def)
  have own: "\<And>d. d \<in> set dl \<Longrightarrow> \<exists>k \<ge> 24. (d, k) \<in> heap_owned s" using assms(1) by (simp add: devs_wf_def)
  obtain j where j: "24 \<le> j" "(d, j) \<in> heap_owned s" using own [OF assms(2)] by blast
  have bj: "b \<in> span d j" using span_mono [OF _ j(1)] device_body [OF assms(3)] by blast
  show ?thesis
  proof (cases "x = k_devs s")
    case True
    then show ?thesis using owned_in_heap(1) [OF wf j(2) bj] assms(1) by (auto simp: devs_wf_def off_heap_def)
  next
    case nh: False
    then have "x \<in> set dl" using assms(4) by simp
    then obtain i where i: "24 \<le> i" "(x, i) \<in> heap_owned s" using own by blast
    have "\<exists>xs. heap_wf s xs" using wf by blast
    from kh.owned_disjoint [OF this j(2) i(2)] False bj show ?thesis
      using span_mono [OF link_in_device i(1), of b x] by blast
  qed
qed

text \<open>A block that the heap has added to those in use is apart from the head and the devices.\<close>

lemma new_block_apart:
  assumes "devs_wf s dl" "heap_wf s1 xs1" "heap_owned s1 = insert (p, k) (heap_owned s)" "(p, k) \<notin> heap_owned s"
    and "off_heap s1 = off_heap s" "b \<in> span p k"
  shows "b \<notin> span (k_devs s) 8" "d \<in> set dl \<Longrightarrow> b \<notin> span d 24"
proof -
  have "(p, k) \<in> heap_owned s1" using assms(3) by simp
  from owned_in_heap(1) [OF assms(2) this assms(6)] show "b \<notin> span (k_devs s) 8"
    using assms(1) unfolding assms(5) by (auto simp: devs_wf_def off_heap_def)
  show "b \<notin> span d 24" if d: "d \<in> set dl"
  proof -
    obtain j where j: "24 \<le> j" "(d, j) \<in> heap_owned s" using assms(1) d by (auto simp: devs_wf_def)
    have "\<exists>xs. heap_wf s1 xs" using assms(2) by blast
    then have "span p k \<inter> span d j = {}" using kh.owned_disjoint [of s1 p k d j] j(2) assms(3,4) by auto
    then show ?thesis using assms(6) span_mono [OF _ j(1), of b d] by blast
  qed
qed

text \<open>Linking a device that is apart from the others.\<close>

lemma link_device:
  assumes d: "dlist m h dl" and new: "\<And>b. b \<in> span p 24 \<Longrightarrow> b \<notin> span h 8 \<and> (\<forall>d \<in> set dl. b \<notin> span d 24)"
    and old: "\<And>d b x. d \<in> set dl \<Longrightarrow> b \<in> span (d + 8) 16 \<Longrightarrow> x \<in> set (h # dl) \<Longrightarrow> b \<notin> span x 8"
  shows "dlist (list_add p h m) h (p # dl)"
    and "d \<in> set (p # dl) \<Longrightarrow> device_at (list_add p h m) d = device_at m d"
    and "list_add p h m b \<noteq> m b \<Longrightarrow> \<exists>x \<in> set (h # p # dl). b \<in> span x 8"
proof -
  have pin: "p \<in> span p 24" by (intro self_in_span) simp
  have "apart p 8 x 8" if "x \<in> set (h # dl)" for x
  proof (rule apartI)
    show "x \<notin> span p 8"
      using that new [OF link_in_device, of x] self_in_span [of 8 x] self_in_span [of 24 x] by auto
    show "p \<notin> span x 8" using that new [OF pin] link_in_device by auto
  qed
  moreover have "p \<notin> set (h # dl)" using new [OF pin] self_in_span [of 8 h] self_in_span [of 24 p] by auto
  ultimately show "dlist (list_add p h m) h (p # dl)" by (intro dl.seq_push [OF d]) (simp add: fresh_node_def)
  have out: "list_add p h m b = m b" if "b \<notin> span p 8" "\<And>x. x \<in> set (h # dl) \<Longrightarrow> b \<notin> span x 8" for b
    using list_add_outside [OF d that(1)] that(2) by blast
  then show "list_add p h m b \<noteq> m b \<Longrightarrow> \<exists>x \<in> set (h # p # dl). b \<in> span x 8" by fastforce
  show "device_at (list_add p h m) d = device_at m d" if "d \<in> set (p # dl)"
  proof (rule device_cong, rule out)
    fix b x assume b: "b \<in> span (d + 8) 16"
    note bd = device_body [OF b]
    show "b \<notin> span p 8" using bd that new [OF link_in_device, of b] by auto
    show "b \<notin> span x 8" if x: "x \<in> set (h # dl)"
      using bd \<open>d \<in> set (p # dl)\<close> x old [OF _ b] new [of b] link_in_device [of b x] by auto
  qed
qed

text \<open>What an operation of the device manager leaves alone while the devices \<open>dl\<close> are in the list: blocks
  in use stay in use, no client's byte and no byte off the heap changes outside the links, the heap
  grows by at most \<open>n\<close> bytes.\<close>

definition device_step :: "nat \<Rightarrow> 'a devices_scheme \<Rightarrow> u32 list \<Rightarrow> 'a devices_scheme \<Rightarrow> bool" where
  "device_step n s dl s' \<longleftrightarrow> heap_owned s \<subseteq> heap_owned s'
     \<and> (\<forall>(q, j) \<in> heap_owned s. \<forall>b \<in> span q j. (\<forall>x \<in> set (k_devs s # dl). b \<notin> span x 8) \<longrightarrow> mem s' b = mem s b)
     \<and> (\<forall>b. off_heap s {b} \<longrightarrow> b \<notin> span (k_devs s) 8 \<longrightarrow> mem s' b = mem s b)
     \<and> unat (heap_brk s') \<le> unat (heap_brk s) + n
     \<and> s' = s\<lparr>heap_brk := heap_brk s', mem := mem s', total_blocks := total_blocks s', used_blocks := used_blocks s'\<rparr>"

text \<open>The outcome of a registration: the device in front, in a new block of its own, the others as they
  were.\<close>

definition registered :: "'a devices_scheme \<Rightarrow> u32 list \<Rightarrow> device \<Rightarrow> u32 \<Rightarrow> 'a devices_scheme \<Rightarrow> bool" where
  "registered s dl v p s' \<longleftrightarrow> devs_wf s' (p # dl) \<and> device_at (mem s') p = v
     \<and> (\<forall>d \<in> set dl. device_at (mem s') d = device_at (mem s) d)
     \<and> (\<exists>k \<ge> 24. (p, k) \<in> heap_owned s' \<and> (p, k) \<notin> heap_owned s) \<and> device_step 44 s dl s'"

lemma heap_step_facts:
  fixes s s' :: "'a devices_scheme"
  assumes "s' = s\<lparr>heap_brk := heap_brk s', mem := mem s', total_blocks := total_blocks s', used_blocks := used_blocks s'\<rparr>"
  shows "k_devs s' = k_devs s" "off_heap s' = off_heap s" "brk_max s' = brk_max s" "rodata s' = rodata s"
    "floppydev_types s' = floppydev_types s"
  using arg_cong [OF assms, of k_devs] arg_cong [OF assms, of chain_hd] arg_cong [OF assms, of heap_base]
    arg_cong [OF assms, of brk_max] arg_cong [OF assms, of rodata] arg_cong [OF assms, of floppydev_types]
  by (simp_all add: off_heap_def fun_eq_iff)

lemma device_step_facts:
  assumes "device_step n s dl s'"
  shows "k_devs s' = k_devs s" "off_heap s' = off_heap s" "brk_max s' = brk_max s" "rodata s' = rodata s"
    "floppydev_types s' = floppydev_types s"
proof -
  have "s' = s\<lparr>heap_brk := heap_brk s', mem := mem s', total_blocks := total_blocks s', used_blocks := used_blocks s'\<rparr>"
    using assms by (simp only: device_step_def)
  from heap_step_facts [OF this]
  show "k_devs s' = k_devs s" "off_heap s' = off_heap s" "brk_max s' = brk_max s" "rodata s' = rodata s"
    "floppydev_types s' = floppydev_types s" .
qed

lemma device_step_keeps:
  assumes "device_step n s dl s'"
  shows "heap_owned s \<subseteq> heap_owned s'" "unat (heap_brk s') \<le> unat (heap_brk s) + n"
    "(q, j) \<in> heap_owned s \<Longrightarrow> b \<in> span q j \<Longrightarrow> \<forall>x \<in> set (k_devs s # dl). b \<notin> span x 8 \<Longrightarrow> mem s' b = mem s b"
    "off_heap s {b} \<Longrightarrow> b \<notin> span (k_devs s) 8 \<Longrightarrow> mem s' b = mem s b"
  using assms unfolding device_step_def by blast+

lemma device_step_trans:
  assumes 1: "device_step n s dl s1" and 2: "device_step m s1 dl' s2" and dl: "set dl \<subseteq> set dl'"
    and new: "\<And>d q j b. d \<in> set dl' - set dl \<Longrightarrow> (q, j) \<in> heap_owned s \<Longrightarrow> b \<in> span q j \<Longrightarrow> b \<notin> span d 8"
  shows "device_step (n + m) s dl s2"
proof -
  note eq = device_step_facts [OF 1]
  have "mem s2 b = mem s b" if "(q, j) \<in> heap_owned s" "b \<in> span q j" "\<forall>x \<in> set (k_devs s # dl). b \<notin> span x 8" for q j b
  proof -
    have "mem s1 b = mem s b" by (rule device_step_keeps(3) [OF 1 that])
    moreover have "b \<notin> span x 8" if "x \<in> set (k_devs s1 # dl')" for x
      using that \<open>\<forall>x \<in> set (k_devs s # dl). b \<notin> span x 8\<close> new [OF _ \<open>(q, j) \<in> heap_owned s\<close> \<open>b \<in> span q j\<close>]
      unfolding eq by (cases "x \<in> set dl") auto
    then have "mem s2 b = mem s1 b"
      using device_step_keeps(1) [OF 1] that(1,2) by (intro device_step_keeps(3) [OF 2, of q j]) blast+
    ultimately show ?thesis by simp
  qed
  moreover have "mem s2 b = mem s b" if "off_heap s {b}" "b \<notin> span (k_devs s) 8" for b
    using device_step_keeps(4) [OF 1, of b] device_step_keeps(4) [OF 2, of b] that by (simp add: eq)
  moreover have "s2 = s\<lparr>heap_brk := heap_brk s2, mem := mem s2, total_blocks := total_blocks s2, used_blocks := used_blocks s2\<rparr>"
  proof -
    obtain b m t u where "s1 = s\<lparr>heap_brk := b, mem := m, total_blocks := t, used_blocks := u\<rparr>"
      using 1 by (simp only: device_step_def) blast
    moreover obtain b m t u where "s2 = s1\<lparr>heap_brk := b, mem := m, total_blocks := t, used_blocks := u\<rparr>"
      using 2 by (simp only: device_step_def) blast
    ultimately show ?thesis by simp
  qed
  moreover have "heap_owned s \<subseteq> heap_owned s2" "unat (heap_brk s2) \<le> unat (heap_brk s) + (n + m)"
    using device_step_keeps(1,2) [OF 1] device_step_keeps(1,2) [OF 2] by auto
  ultimately show ?thesis unfolding device_step_def by blast
qed

lemma off_heap_mem: "off_heap (s\<lparr>mem := m\<rparr>) = off_heap s"
  by (simp add: off_heap_def fun_eq_iff)

lemma devs_wf_frame:
  assumes "devs_wf s dl" "heap_wf s' xs" "heap_owned s \<subseteq> heap_owned s'" "k_devs s' = k_devs s" "off_heap s' = off_heap s"
    and same: "\<And>x b. x \<in> set (k_devs s # dl) \<Longrightarrow> b \<in> span x 8 \<Longrightarrow> mem s' b = mem s b"
  shows "devs_wf s' dl"
proof -
  have "dlist (mem s') (k_devs s) dl" by (rule dlist_frame [of "mem s"]) (use assms(1) same in \<open>auto simp: devs_wf_def\<close>)
  then show ?thesis using assms(1-5) unfolding devs_wf_def by (auto 4 3)
qed

text \<open>A block in use, apart from the head and the devices, becomes the first device of the list.\<close>

lemma new_device:
  fixes v :: device
  assumes dwf: "devs_wf s dl" and wf: "heap_wf s xs" and k: "(p, k) \<in> heap_owned s" "24 \<le> k"
    and apart: "\<forall>b \<in> span p 24. b \<notin> span (k_devs s) 8 \<and> (\<forall>d \<in> set dl. b \<notin> span d 24)"
  defines "m \<equiv> list_add p (k_devs s) (device_stores p v (mem s))"
  shows "devs_wf (s\<lparr>mem := m\<rparr>) (p # dl)" "heap_owned (s\<lparr>mem := m\<rparr>) = heap_owned s" "device_at m p = v"
    and "d \<in> set dl \<Longrightarrow> device_at m d = device_at (mem s) d"
    and "m b \<noteq> mem s b \<Longrightarrow> b \<in> span p 24 \<or> (\<exists>x \<in> set (k_devs s # dl). b \<in> span x 8)"
proof -
  let ?h = "k_devs s" and ?m1 = "device_stores p v (mem s)"
  have new: "b \<notin> span ?h 8 \<and> (\<forall>d \<in> set dl. b \<notin> span d 24)" if "b \<in> span p 24" for b using apart that by blast
  have d: "dlist (mem s) ?h dl" and off: "off_heap s (span ?h 8)" and own: "\<And>d. d \<in> set dl \<Longrightarrow> \<exists>k \<ge> 24. (d, k) \<in> heap_owned s"
    using dwf by (auto simp: devs_wf_def)
  have st: "?m1 b = mem s b" if "b \<notin> span p 24" for b using that by (rule device_stores(2))
  have d1: "dlist ?m1 ?h dl"
  proof (rule dlist_frame [OF d])
    show "?m1 b = mem s b" if "x \<in> set (?h # dl)" "b \<in> span x 8" for x b
      using that new [of b] link_in_device [of b x] by (intro st) auto
  qed
  have body: "b \<notin> span x 8" if "d \<in> set dl" "b \<in> span (d + 8) 16" "x \<in> set (?h # dl)" for d b x
    using devices_apart [OF dwf] that by blast
  have l: "dlist m ?h (p # dl)" "\<And>d. d \<in> set (p # dl) \<Longrightarrow> device_at m d = device_at ?m1 d"
    "\<And>b. m b \<noteq> ?m1 b \<Longrightarrow> \<exists>x \<in> set (?h # p # dl). b \<in> span x 8"
    unfolding m_def by (rule link_device [OF d1]; use new body in blast)+
  show out: "b \<in> span p 24 \<or> (\<exists>x \<in> set (?h # dl). b \<in> span x 8)" if "m b \<noteq> mem s b" for b
    using that l(3) [of b] link_in_device st [of b] by (cases "b \<in> span p 24") auto
  have hb: "off_heap s {b}" if "b \<in> span ?h 8" for b using off that by (simp add: off_heap_def)
  have w: "off_heap s {b} \<or> (\<exists>(q, j) \<in> heap_owned s. b \<in> span q j)" if "m b \<noteq> mem s b" for b
    using out [OF that] hb k own link_in_device span_mono by fastforce
  note cw = heap_client_write [OF wf, of m, OF w]
  show "devs_wf (s\<lparr>mem := m\<rparr>) (p # dl)" "heap_owned (s\<lparr>mem := m\<rparr>) = heap_owned s"
    using cw(1) dwf k l(1) by (auto simp: devs_wf_def cw(2) off_heap_mem)
  show "device_at m p = v" using l(2) [of p] device_stores(1) by simp
  show "device_at m d = device_at (mem s) d" if d: "d \<in> set dl" for d
  proof -
    have "?m1 b = mem s b" if "b \<in> span (d + 8) 16" for b
      using st [of b] device_body [OF that] new [of b] d by blast
    then show ?thesis using l(2) [of d] d device_cong [of d ?m1 "mem s"] by simp
  qed
qed

lemma register_device_effect:
  assumes "devs_wf s dl" "heap_room 24 s"
  shows "\<exists>p s'. register_device nm maj mnr info sz s = Some s'
    \<and> registered s dl \<lparr>dv_name = nm, dv_major = maj, dv_minor = mnr, dv_info = info, dv_size = sz\<rparr> p s'"
proof -
  let ?v = "\<lparr>dv_name = nm, dv_major = maj, dv_minor = mnr, dv_info = info, dv_size = sz\<rparr>" and ?h = "k_devs s"
  obtain xs where wf: "heap_wf s xs" using assms(1) by (auto simp: devs_wf_def)
  have off: "off_heap s (span ?h 8)" and own: "\<And>d. d \<in> set dl \<Longrightarrow> \<exists>k \<ge> 24. (d, k) \<in> heap_owned s"
    using assms(1) by (auto simp: devs_wf_def)
  have n0: "(24 :: u32) \<noteq> 0" by simp
  obtain p k s1 xs1 where km: "kmalloc 24 0 s = Some (p, s1)" "p \<noteq> 0" and wf1: "heap_wf s1 xs1"
    and k: "24 \<le> k" "(p, k) \<notin> heap_owned s" and ow: "heap_owned s1 = insert (p, k) (heap_owned s)"
    and keep: "\<And>q j b. (q, j) \<in> heap_owned s \<Longrightarrow> b \<in> span q j \<Longrightarrow> mem s1 b = mem s b"
    and offb: "\<And>b. off_heap s {b} \<Longrightarrow> mem s1 b = mem s b" and brk: "unat (heap_brk s1) \<le> unat (heap_brk s) + 44"
    and same: "s1 = s\<lparr>heap_brk := heap_brk s1, mem := mem s1, total_blocks := total_blocks s1, used_blocks := used_blocks s1\<rparr>"
    by (rule kmalloc_client [OF wf n0 assms(2)]) (rule that; simp)
  note eq = heap_step_facts [OF same]
  have hb: "off_heap s {b}" if "b \<in> span ?h 8" for b using off that by (simp add: off_heap_def)
  have link: "mem s1 b = mem s b" if "x \<in> set (?h # dl)" "b \<in> span x 8" for x b
    using that offb [OF hb] keep own span_mono [of b x 8] by fastforce
  have dwf: "devs_wf s1 dl" by (rule devs_wf_frame [OF assms(1) wf1]) (use ow eq link in auto)
  have new: "\<forall>b \<in> span p 24. b \<notin> span ?h 8 \<and> (\<forall>d \<in> set dl. b \<notin> span d 24)"
    using new_block_apart [OF assms(1) wf1 ow k(2) eq(2) span_mono [OF _ k(1)]] by blast
  let ?m = "list_add p ?h (device_stores p ?v (mem s1))"
  have pk: "(p, k) \<in> heap_owned s1" by (simp add: ow)
  note nd = new_device [OF dwf wf1 pk k(1), unfolded eq(1), OF new, where v = ?v]
  have upd: "t = s\<lparr>heap_brk := heap_brk t, mem := mem t, total_blocks := total_blocks t, used_blocks := used_blocks t\<rparr>"
    if "t = s1\<lparr>mem := ?m\<rparr>" for t unfolding that by (subst same) simp
  have "device_at ?m d = device_at (mem s) d" if d: "d \<in> set dl" for d
  proof -
    have "mem s1 b = mem s b" if "b \<in> span (d + 8) 16" for b
      using own [OF d] device_body [OF that] keep span_mono [of b d 24] by blast
    then show ?thesis using nd(4) [OF d] device_cong [of d "mem s1" "mem s"] by simp
  qed
  moreover have "?m b = mem s b" if "(q, j) \<in> heap_owned s" "b \<in> span q j" "\<forall>x \<in> set (?h # dl). b \<notin> span x 8" for q j b
  proof -
    have "span p k \<inter> span q j = {}" using kh.owned_disjoint [of s1 p k q j] that(1) k(2) ow wf1 by auto
    then have "b \<notin> span p 24" using that(2) span_mono [OF _ k(1)] by blast
    then show ?thesis using nd(5) [of b] that keep by metis
  qed
  moreover have "?m b = mem s b" if b: "off_heap s {b}" "b \<notin> span ?h 8" for b
  proof -
    have "b \<notin> span q j" if "(q, j) \<in> heap_owned s1" for q j
      using owned_in_heap(1) [OF wf1 that] b(1) by (auto simp: eq)
    then have "b \<notin> span p 24" "\<forall>x \<in> set dl. b \<notin> span x 8"
      using span_mono [OF _ k(1)] own span_mono [of b _ 8] pk ow by fastforce+
    then show ?thesis using nd(5) [of b] b offb by auto
  qed
  ultimately have "registered s dl ?v p (s1\<lparr>mem := ?m\<rparr>)"
    unfolding registered_def device_step_def using brk nd(1,3) k by (intro conjI upd [OF refl]) (auto simp: nd(2) ow)
  then show ?thesis using register_device_run [OF km, of nm maj mnr info sz] by (auto simp: eq)
qed

text \<open>\<^verbatim>\<open>register_device\<close>, when the heap has room, puts a new device with the given fields in front
  of the device list; the other devices stay in the list and as they were, the list is well formed and
  every device in a heap block of its own.\<close>

theorem register_device_pushes:
  assumes "devs_wf s dl" "heap_room 24 s"
  shows "\<exists>p s'. register_device nm maj mnr info sz s = Some s' \<and> devs_wf s' (p # dl)
    \<and> device_at (mem s') p = \<lparr>dv_name = nm, dv_major = maj, dv_minor = mnr, dv_info = info, dv_size = sz\<rparr>
    \<and> (\<forall>d \<in> set dl. device_at (mem s') d = device_at (mem s) d)"
  using register_device_effect [OF assms, of nm maj mnr info sz] unfolding registered_def by blast

section \<open>The floppy drives\<close>

text \<open>The info block of a drive: a fresh block of the heap that holds the type and the type's name.\<close>

definition info_stores :: "u32 \<Rightarrow> u8 \<Rightarrow> u32 \<Rightarrow> bytes \<Rightarrow> bytes" where
  "info_stores di t nm m = store32 (store8 m di t) (di + 4) nm"

lemma info_stores:
  "info_stores di t nm m di = t" "load32 (info_stores di t nm m) (di + 4) = nm"
  "b \<notin> span di 8 \<Longrightarrow> info_stores di t nm m b = m b"
proof -
  show "info_stores di t nm m di = t" "load32 (info_stores di t nm m) (di + 4) = nm"
    by (simp_all add: info_stores_def mem_frame apart_def)
  assume "b \<notin> span di 8"
  then have "b \<noteq> di" "b \<notin> span (di + 4) 4" using self_in_span [of 8 di] span_offset [of b di 4 4 8] by auto
  then show "info_stores di t nm m b = m b" by (simp add: info_stores_def store32_outside store8_def)
qed

lemma floppy_info:
  assumes wf: "devs_wf s dl" and room: "heap_room 52 s"
  obtains di k s1 s2 where "kmalloc 8 0 s = Some (di, s1)" "di \<noteq> 0" "s2 = s1\<lparr>mem := info_stores di t nm (mem s1)\<rparr>"
    "devs_wf s2 dl" "device_step 28 s dl s2" "(di, k) \<in> heap_owned s2" "(di, k) \<notin> heap_owned s" "8 \<le> k"
    "\<And>d. d \<in> set dl \<Longrightarrow> device_at (mem s2) d = device_at (mem s) d"
proof -
  have n0: "(8 :: u32) \<noteq> 0" by simp
  have r8: "heap_room 8 s" using room by (simp add: heap_room_def)
  obtain xs where hw: "heap_wf s xs" using wf by (auto simp: devs_wf_def)
  obtain di k s1 xs1 where km: "kmalloc 8 0 s = Some (di, s1)" "di \<noteq> 0" and wf1: "heap_wf s1 xs1"
    and k: "8 \<le> k" "(di, k) \<notin> heap_owned s" and ow: "heap_owned s1 = insert (di, k) (heap_owned s)"
    and keep: "\<And>q j b. (q, j) \<in> heap_owned s \<Longrightarrow> b \<in> span q j \<Longrightarrow> mem s1 b = mem s b"
    and offb: "\<And>b. off_heap s {b} \<Longrightarrow> mem s1 b = mem s b" and brk: "unat (heap_brk s1) \<le> unat (heap_brk s) + 28"
    and same: "s1 = s\<lparr>heap_brk := heap_brk s1, mem := mem s1, total_blocks := total_blocks s1, used_blocks := used_blocks s1\<rparr>"
    by (rule kmalloc_client [OF hw n0 r8]) (rule that; simp)
  note eq = heap_step_facts [OF same]
  note ap = new_block_apart [OF wf wf1 ow k(2) eq(2) span_mono [OF _ k(1)]]
  have dk: "(di, k) \<in> heap_owned s1" by (simp add: ow)
  let ?m = "info_stores di t nm (mem s1)"
  have w: "off_heap s1 {b} \<or> (\<exists>(q, j) \<in> heap_owned s1. b \<in> span q j)" if "?m b \<noteq> mem s1 b" for b
    using info_stores(3) [of b di t nm "mem s1"] that span_mono [OF _ k(1), of b di] ow by blast
  note cw = heap_client_write [OF wf1, of ?m, OF w]
  have dl: "\<exists>j \<ge> 24. (d, j) \<in> heap_owned s" if "d \<in> set dl" for d using wf that by (auto simp: devs_wf_def)
  have off: "?m b = mem s b" if "off_heap s {b}" for b
  proof -
    have "b \<notin> span di k" using owned_in_heap(1) [OF wf1 dk] that by (auto simp: eq)
    then show ?thesis using info_stores(3) [of b di] span_mono [OF _ k(1)] offb [OF that] by metis
  qed
  have owned: "?m b = mem s b" if "(q, j) \<in> heap_owned s" "b \<in> span q j" for q j b
  proof -
    have "span di k \<inter> span q j = {}" using kh.owned_disjoint [of s1 di k q j] that(1) k(2) ow wf1 by auto
    then show ?thesis using info_stores(3) [of b di] span_mono [OF _ k(1)] keep [OF that] that(2) by fastforce
  qed
  have old: "?m b = mem s b" if "b \<in> span (k_devs s) 8 \<or> (\<exists>d \<in> set dl. b \<in> span d 24)" for b
    using that off [of b] owned [of _ _ b] dl span_mono [of b _ 24] wf by (fastforce simp: devs_wf_def off_heap_def)
  have "?m b = mem s b" if "x \<in> set (k_devs s # dl)" "b \<in> span x 8" for x b
    using old [of b] that link_in_device [of b x] by auto
  then have "devs_wf (s1\<lparr>mem := ?m\<rparr>) dl"
    by (intro devs_wf_frame [OF wf cw(1)]) (use cw(2) ow eq in \<open>auto simp: off_heap_mem\<close>)
  moreover have "t = s\<lparr>heap_brk := heap_brk t, mem := mem t, total_blocks := total_blocks t, used_blocks := used_blocks t\<rparr>"
    if "t = s1\<lparr>mem := ?m\<rparr>" for t unfolding that by (subst same) simp
  then have "device_step 28 s dl (s1\<lparr>mem := ?m\<rparr>)"
    unfolding device_step_def using cw(2) ow brk owned off by (intro conjI) auto
  moreover have "device_at ?m d = device_at (mem s) d" if "d \<in> set dl" for d
    using old that device_body by (intro device_cong) blast
  ultimately show ?thesis
    using km k ow cw(2) by (intro that [of di s1 "s1\<lparr>mem := ?m\<rparr>" k]) auto
qed

text \<open>A drive in the list: the device, and its info block in use and apart from the devices.\<close>

definition drive_at :: "'a devices_scheme \<Rightarrow> u32 list \<Rightarrow> u32 \<Rightarrow> u16 \<Rightarrow> string \<Rightarrow> u16 \<Rightarrow> bool" where
  "drive_at s dl d f name minor \<longleftrightarrow>
     (\<exists>di k. device_at (mem s) d = \<lparr>dv_name = rodata s name, dv_major = DEV_FLOPPY_MAJOR, dv_minor = minor, dv_info = di,
        dv_size = 8\<rparr>
      \<and> mem s di = ucast f \<and> load32 (mem s) (di + 4) = floppydev_types s ! unat f \<and> di \<notin> set dl
      \<and> (di, k) \<in> heap_owned s \<and> 8 \<le> k)"

lemma info_apart:
  assumes "devs_wf s dl" "(di, k) \<in> heap_owned s" "di \<notin> set dl" "b \<in> span di k" "x \<in> set (k_devs s # dl)"
  shows "b \<notin> span x 8"
proof (cases "x = k_devs s")
  case True
  obtain xs where "heap_wf s xs" using assms(1) by (auto simp: devs_wf_def)
  from owned_in_heap(1) [OF this assms(2,4)] True show ?thesis using assms(1) by (auto simp: devs_wf_def off_heap_def)
next
  case False
  then have x: "x \<in> set dl" using assms(5) by simp
  then obtain j where j: "24 \<le> j" "(x, j) \<in> heap_owned s" using assms(1) by (auto simp: devs_wf_def)
  have "span di k \<inter> span x j = {}"
    using kh.owned_disjoint [OF _ assms(2) j(2)] assms(1,3) x by (auto simp: devs_wf_def)
  then show ?thesis using assms(4) span_mono [of b x 8 j] j(1) by auto
qed

text \<open>A block in use and a block not in use before start at different addresses.\<close>

lemma new_block_start:
  assumes "devs_wf s dl" "(p, k) \<in> heap_owned s" "(q, j) \<in> heap_owned s" "(p, k) \<noteq> (q, j)" "0 < k" "0 < j"
  shows "p \<noteq> q"
proof -
  have "span p k \<inter> span q j = {}" using kh.owned_disjoint [OF _ assms(2-4)] assms(1) by (auto simp: devs_wf_def)
  then show ?thesis using self_in_span [OF assms(5), of p] self_in_span [OF assms(6), of q] by auto
qed

lemma info_kept:
  assumes wf: "devs_wf s dl" and st: "device_step n s dl s'" and di: "(di, k) \<in> heap_owned s" "di \<notin> set dl" "8 \<le> k"
  shows "mem s' di = mem s di" "load32 (mem s') (di + 4) = load32 (mem s) (di + 4)"
proof -
  have "mem s' b = mem s b" if b: "b \<in> span di 8" for b
  proof (rule device_step_keeps(3) [OF st di(1)])
    show "b \<in> span di k" using span_mono [OF b di(3)] .
    then show "\<forall>x \<in> set (k_devs s # dl). b \<notin> span x 8" using info_apart [OF wf di(1,2)] by blast
  qed
  then show "mem s' di = mem s di" "load32 (mem s') (di + 4) = load32 (mem s) (di + 4)"
    using self_in_span [of 8 di] span_offset [of _ di 4 4 8] by (auto intro!: load32_cong)
qed

lemma drive_at_step:
  assumes dr: "drive_at s dl d f name minor" and wf: "devs_wf s dl" and st: "device_step n s dl s'"
    and d: "device_at (mem s') d = device_at (mem s) d" and wf': "devs_wf s' (p # dl)"
    and p: "(p, j) \<in> heap_owned s'" "(p, j) \<notin> heap_owned s" "24 \<le> j"
  shows "drive_at s' (p # dl) d f name minor"
proof -
  obtain di k where di: "device_at (mem s) d = \<lparr>dv_name = rodata s name, dv_major = DEV_FLOPPY_MAJOR, dv_minor = minor,
      dv_info = di, dv_size = 8\<rparr>" "mem s di = ucast f" "load32 (mem s) (di + 4) = floppydev_types s ! unat f"
      "di \<notin> set dl" "(di, k) \<in> heap_owned s" "8 \<le> k" using dr by (auto simp: drive_at_def)
  have own: "(di, k) \<in> heap_owned s'" using di(5) device_step_keeps(1) [OF st] by blast
  have "di \<noteq> p" by (rule new_block_start [OF wf' own p(1)]) (use di p in auto)
  show ?thesis
    using info_kept [OF wf st di(5,4,6)] di own \<open>di \<noteq> p\<close> d device_step_facts(4,5) [OF st] unfolding drive_at_def by auto
qed

text \<open>The outcome of \<^verbatim>\<open>add_floppy\<close> for a drive that is there.\<close>

lemma add_floppy_effect:
  assumes wf: "devs_wf s dl" and room: "heap_room 52 s" and f: "f \<noteq> 0" "unat f < length (floppydev_types s)"
  obtains p j s' where "add_floppy f name minor s = Some s'" "devs_wf s' (p # dl)" "drive_at s' (p # dl) p f name minor"
    "device_step 72 s dl s'" "\<forall>d \<in> set dl. device_at (mem s') d = device_at (mem s) d"
    "(p, j) \<in> heap_owned s'" "(p, j) \<notin> heap_owned s" "24 \<le> j"
proof -
  obtain di k s1 s2 where km: "kmalloc 8 0 s = Some (di, s1)" "di \<noteq> 0"
    and s2: "s2 = s1\<lparr>mem := info_stores di (ucast f) (floppydev_types s ! unat f) (mem s1)\<rparr>" "devs_wf s2 dl"
    and st: "device_step 28 s dl s2" and own: "(di, k) \<in> heap_owned s2" "(di, k) \<notin> heap_owned s" "8 \<le> k"
    and devs: "\<And>d. d \<in> set dl \<Longrightarrow> device_at (mem s2) d = device_at (mem s) d"
    by (rule floppy_info [OF wf room, of "ucast f" "floppydev_types s ! unat f"]) (rule that; assumption)
  note eq = device_step_facts [OF st]
  have e1: "rodata s1 = rodata s" "floppydev_types s1 = floppydev_types s" using eq(4,5) by (simp_all add: s2(1))
  have r2: "heap_room 24 s2" using room device_step_keeps(2) [OF st] eq(3) by (simp add: heap_room_def)
  let ?v = "\<lparr>dv_name = rodata s name, dv_major = DEV_FLOPPY_MAJOR, dv_minor = minor, dv_info = di, dv_size = SIZEOF_FLOPPYDEV\<rparr>"
  obtain p s' where reg: "register_device (rodata s name) DEV_FLOPPY_MAJOR minor di SIZEOF_FLOPPYDEV s2 = Some s'"
    and rd: "registered s2 dl ?v p s'"
    using register_device_effect [OF s2(2) r2] by blast
  obtain j where j: "24 \<le> j" "(p, j) \<in> heap_owned s'" "(p, j) \<notin> heap_owned s2" using rd by (auto simp: registered_def)
  have st2: "device_step 44 s2 dl s'" and wf': "devs_wf s' (p # dl)" using rd by (simp_all add: registered_def)
  have dnew: "di \<notin> set dl"
  proof
    assume "di \<in> set dl"
    then obtain i where i: "24 \<le> i" "(di, i) \<in> heap_owned s" using wf by (auto simp: devs_wf_def)
    then have "(di, i) \<in> heap_owned s2" using device_step_keeps(1) [OF st] by blast
    from new_block_start [OF s2(2) own(1) this] show False using own i by auto
  qed
  have run: "add_floppy f name minor s = Some s'"
    using f km reg by (simp add: add_floppy_def SIZEOF_FLOPPYDEV_def Let_def e1 s2(1) info_stores_def)
  have own': "(di, k) \<in> heap_owned s'" using own(1) device_step_keeps(1) [OF st2] by blast
  have dp: "di \<noteq> p" by (rule new_block_start [OF wf' own' j(2)]) (use own j in auto)
  have "drive_at s' (p # dl) p f name minor"
    using info_kept [OF s2(2) st2 own(1) dnew own(3)] rd own' own(3) dnew dp device_step_facts(4,5) [OF st2] eq(4,5)
    by (auto simp: drive_at_def registered_def SIZEOF_FLOPPYDEV_def s2(1) info_stores)
  moreover have "device_step 72 s dl s'" using device_step_trans [OF st st2] by simp
  moreover have "\<forall>d \<in> set dl. device_at (mem s') d = device_at (mem s) d" using rd devs by (simp add: registered_def)
  moreover have "(p, j) \<notin> heap_owned s" using j(3) device_step_keeps(1) [OF st] by blast
  ultimately show ?thesis using run wf' j by (intro that) auto
qed

text \<open>A drive that the CMOS reports, of a type the table of names has, gets a device in front of the
  list, with the driver's major number and the given name and minor number; its info block, in the
  heap, holds the type and the type's name when the device is linked. The devices that were there
  stay as they were. No drive, no change.\<close>

theorem add_floppy_registers:
  assumes wf: "devs_wf s dl" and room: "heap_room 52 s" and f: "unat f < length (floppydev_types s)"
  shows "if f = 0 then add_floppy f name minor s = Some s
    else \<exists>p di s'. add_floppy f name minor s = Some s' \<and> devs_wf s' (p # dl)
      \<and> device_at (mem s') p = \<lparr>dv_name = rodata s name, dv_major = DEV_FLOPPY_MAJOR, dv_minor = minor, dv_info = di, dv_size = 8\<rparr>
      \<and> mem s' di = ucast f \<and> load32 (mem s') (di + 4) = floppydev_types s ! unat f
      \<and> (\<forall>d \<in> set dl. device_at (mem s') d = device_at (mem s) d)"
proof (cases "f = 0")
  case False
  obtain p j s' where a: "add_floppy f name minor s = Some s'" "devs_wf s' (p # dl)" "drive_at s' (p # dl) p f name minor"
    "device_step 72 s dl s'" "\<forall>d \<in> set dl. device_at (mem s') d = device_at (mem s) d"
    by (rule add_floppy_effect [OF wf room False f, of name minor]) (rule that; assumption)
  show ?thesis using False a device_step_facts(4,5) [OF a(4)] by (auto simp: drive_at_def)
qed (simp add: add_floppy_def)

section \<open>Walking the devices\<close>

text \<open>A function run on one device after another.\<close>

fun each_device :: "(u32 \<Rightarrow> 's \<Rightarrow> 's option) \<Rightarrow> u32 list \<Rightarrow> 's \<Rightarrow> 's option" where
  "each_device f [] s = Some s" |
  "each_device f (d # rest) s = Option.bind (f d s) (each_device f rest)"

text \<open>What a function handed to \<^verbatim>\<open>foreachdevice\<close> may not touch: the list and the major numbers.\<close>

definition same_devices :: "u32 list \<Rightarrow> 'a devices_scheme \<Rightarrow> 'a devices_scheme \<Rightarrow> bool" where
  "same_devices dl s s' \<longleftrightarrow> k_devs s' = k_devs s \<and> dlist (mem s') (k_devs s) dl
     \<and> (\<forall>d \<in> set dl. d_major (mem s') d = d_major (mem s) d)"

lemma run_body_devices:
  assumes "set rest \<subseteq> set dl" "P t" and same: "\<And>u. P u \<Longrightarrow> same_devices dl s u"
    and "\<And>d u u'. d \<in> set dl \<Longrightarrow> P u \<Longrightarrow> f d u = Some u' \<Longrightarrow> P u'"
  shows "run_body (\<lambda>d u. Option.bind (if d_major (mem u) d = major then f d u else Some u) (\<lambda>u. Some (u, False))) rest t
    = each_device f (filter (\<lambda>d. d_major (mem s) d = major) rest) t"
  using assms(1,2)
proof (induction rest arbitrary: t)
  case (Cons d rest)
  have "d_major (mem t) d = d_major (mem s) d" using Cons.prems same [of t] by (simp add: same_devices_def)
  then show ?case using Cons assms(4) [of d t] by (cases "f d t") auto
qed simp

lemma foreachdevice_walk:
  assumes start: "P s" and same: "\<And>u. P u \<Longrightarrow> same_devices dl s u"
    and keep: "\<And>d u u'. d \<in> set dl \<Longrightarrow> P u \<Longrightarrow> f d u = Some u' \<Longrightarrow> P u'"
  shows "foreachdevice major f s = each_device f (filter (\<lambda>d. d_major (mem s) d = major) dl) s"
proof -
  let ?body = "\<lambda>d u. Option.bind (if d_major (mem u) d = major then f d u else Some u) (\<lambda>u. Some (u, False))"
  have step: "P u'" if "d \<in> set dl" "P u" "?body d u = Some (u', False)" for d u u'
    using that keep [OF that(1,2)] by (auto simp: bind_eq_Some_conv split: if_splits)
  have list: "dlist (mem u) (k_devs s) dl" if "P u" for u using same [OF that] by (simp add: same_devices_def)
  have "foreachdevice major f s = run_body ?body dl s"
    unfolding foreachdevice_def by (rule for_each_run [of P, OF start step list])
  then show ?thesis using run_body_devices [where P = P, OF _ start same keep] by simp
qed

text \<open>C25: \<^verbatim>\<open>foreachdevice\<close> is the walk over the registered devices of the major number, in the order of
  the list, each handed to the function once, for every function that keeps some property of the state
  under which the device list and the major numbers are as they were; when a call does not return,
  neither does the walk.\<close>

theorem foreachdevice_filter:
  assumes "P s" "\<And>u. P u \<Longrightarrow> same_devices dl s u"
    and "\<And>d u u'. d \<in> set dl \<Longrightarrow> P u \<Longrightarrow> f d u = Some u' \<Longrightarrow> P u'"
  shows "foreachdevice major f s = each_device f (filter (\<lambda>d. d_major (mem s) d = major) dl) s"
  by (rule foreachdevice_walk [where P = P]) (fact assms)+

section \<open>Printing the devices\<close>

definition device_text :: string where "device_text = ''Device Registered %d,%d %s'' @ [CHR 0x0A]"

definition device_line :: "bytes \<Rightarrow> (u32 \<Rightarrow> u8 list) \<Rightarrow> u32 \<Rightarrow> u8 list" where
  "device_line m nm d = map of_char ''Device Registered '' @ number False False 0 False 10 (uint (d_major m d))
     @ [0x2C] @ number False False 0 False 10 (uint (d_minor m d)) @ [0x20] @ nm d @ [0x0A]"

text \<open>The device's fields and its name, a C string, lie off the screen.\<close>

definition device_ready :: "'a tty_scheme \<Rightarrow> (u32 \<Rightarrow> u8 list) \<Rightarrow> u32 \<Rightarrow> bool" where
  "device_ready s nm d \<longleftrightarrow> span d 24 \<inter> screen s = {} \<and> length (nm d) < 4294967295
     \<and> arg_ok (mem s) (screen s) (String (d_name (mem s) d) (nm d))"

lemma device_ready_console:
  assumes "console_step s t" "device_ready s nm d"
  shows "device_at (mem t) d = device_at (mem s) d" "device_ready t nm d"
proof -
  have out: "\<And>b. b \<notin> screen s \<Longrightarrow> mem t b = mem s b" using assms(1) by (simp add: console_step_def)
  show eq: "device_at (mem t) d = device_at (mem s) d"
    using assms(2) device_body by (intro device_cong out) (auto simp: device_ready_def)
  have "cstring (mem t) (d_name (mem s) d) (nm d) = cstring (mem s) (d_name (mem s) d) (nm d)"
    using assms(2) by (intro cstring_cong out) (auto simp: device_ready_def arg_ok_def)
  moreover have "d_name (mem t) d = d_name (mem s) d" using eq by (simp add: device_at_def)
  ultimately show "device_ready t nm d"
    using assms(2) console_step_screen [OF assms(1)] by (simp add: device_ready_def arg_ok_def)
qed

lemma device_line_printed:
  "plain_format device_text"
  "printed (pieces device_text) [Word (ucast (d_major m d)), Word (ucast (d_minor m d)), String a (nm d)]
    = Some (device_line m nm d)"
proof -
  have s: "signed_of Plain (ucast w :: u32) = uint w" for w :: u16
  proof -
    have "uint w < 65536" using uint_lt2p [of w] by simp
    then show ?thesis by (simp add: signed_of_def sint_uint signed_take_bit_int_eq_self take_bit_int_eq_self unsigned_ucast_eq
        order.trans [of "- 2147483648" 0])
  qed
  show "plain_format device_text" by (simp add: device_text_def)
  show "printed (pieces device_text) [Word (ucast (d_major m d)), Word (ucast (d_minor m d)), String a (nm d)]
    = Some (device_line m nm d)"
    by (simp add: device_text_def device_line_def justify_def s)
qed

text \<open>One line of \<^verbatim>\<open>dump_devices\<close>, printed when the earlier ones are on the screen.\<close>

lemma dump_device_line:
  assumes t: "console_step s t" and literal: "text_ready s device_text" and ready: "device_ready s nm d"
  shows "kprintf (rodata t device_text) [ucast (d_major (mem t) d), ucast (d_minor (mem t) d), d_name (mem t) d] t
      = Some (fold tty_putc (device_line (mem s) nm d) t)"
    "console_step s (fold tty_putc (device_line (mem s) nm d) t)"
proof -
  note rt = device_ready_console [OF t ready]
  have e: "device_line (mem t) nm d = device_line (mem s) nm d" using rt(1) by (simp add: device_line_def device_at_def)
  have a: "\<forall>a \<in> set [Word (ucast (d_major (mem t) d)), Word (ucast (d_minor (mem t) d)), String (d_name (mem t) d) (nm d)].
      arg_ok (mem t) (screen t) a" using rt(2) by (simp add: device_ready_def) (simp add: arg_ok_def)
  have w: "tty_wf t" using t by (simp add: console_step_def)
  note k = kprintf_args [OF w text_ready_console [OF literal t] device_line_printed(1) a device_line_printed(2) [of "mem t" d _ nm]]
  show "kprintf (rodata t device_text) [ucast (d_major (mem t) d), ucast (d_minor (mem t) d), d_name (mem t) d] t
      = Some (fold tty_putc (device_line (mem s) nm d) t)" using k(1) by (simp add: e)
  show "console_step s (fold tty_putc (device_line (mem s) nm d) t)"
    using console_step_trans [OF t k(2)] by (simp add: e)
qed

text \<open>C26: \<^verbatim>\<open>dump_devices\<close> prints one line per registered device, in the order of the list, with its
  major and minor numbers in decimal and its name, and returns; only screen and cursor change.\<close>

theorem dump_devices_prints:
  assumes wf: "tty_wf s" "text_ready s device_text" and d: "dlist (mem s) (k_devs s) dl" "span (k_devs s) 8 \<inter> screen s = {}"
    and r: "\<forall>d \<in> set dl. device_ready s nm d"
  shows "dump_devices s = Some (fold tty_putc (concat (map (device_line (mem s) nm) dl)) s)"
proof -
  let ?body = "\<lambda>d t. Option.bind (kprintf (rodata t device_text) [ucast (d_major (mem t) d), ucast (d_minor (mem t) d),
    d_name (mem t) d] t) (\<lambda>t. Some (t, False))"
  note line = dump_device_line [OF _ wf(2)]
  have start: "console_step s s" using console_step_fold [OF wf(1), of "[]"] by simp
  have step: "console_step s u'" if "d \<in> set dl" "console_step s u" "?body d u = Some (u', False)" for d u u'
    using that line [OF that(2), of nm d] r by simp
  have list: "dlist (mem u) (k_devs s) dl" if "console_step s u" for u
    using that d(2) r link_in_device
    by (intro dlist_frame [OF d(1)]) (fastforce simp: console_step_def device_ready_def)
  have "run_body ?body dl' t = Some (fold tty_putc (concat (map (device_line (mem s) nm) dl')) t)"
    if "set dl' \<subseteq> set dl" "console_step s t" for dl' t
    using that
  proof (induction dl' arbitrary: t)
    case (Cons d dl')
    then have "device_ready s nm d" using r by simp
    with line [OF Cons.prems(2) this] Cons show ?case by simp
  qed simp
  from this [of dl s] start have run: "run_body ?body dl s = Some (fold tty_putc (concat (map (device_line (mem s) nm) dl)) s)" by simp
  have "dump_devices s = run_body ?body dl s"
    unfolding dump_devices_def device_text_def [symmetric]
    by (rule for_each_run [of "console_step s", OF start step list])
  with run show ?thesis by simp
qed

end
