(* ===== verification/Printf_Safe.thy ===== *)
theory Printf_Safe
  imports Printf_Spec
begin

text \<open>
  What the format interpreter may do to the state, whatever the format and the arguments: it calls its
  output function, and nothing else of it changes the state. A property that the output function keeps
  is kept by every run that returns; with \<^verbatim>\<open>tty_putc\<close> only screen and cursor can change.
\<close>

lemma pr_emit_mem_keeps:
  "pr_emit_mem fn p count s = Some r \<Longrightarrow> \<forall>s c. keep s \<longrightarrow> keep (fn c s) \<Longrightarrow> keep s \<Longrightarrow> keep (snd r)"
proof (induction rule: pr_emit_mem.raw_induct [rotated, consumes 1])
  case (1 emit fn p count s r)
  show ?case
  proof (cases "mem s p = 0")
    case True
    with 1 show ?thesis by auto
  next
    case False
    then have "emit fn (p + 1) (count + 1) (fn (mem s p) s) = Some r" using 1(2) by simp
    then show ?thesis using 1(1) 1(3) 1(4) by blast
  qed
qed

lemma pr_loop_keeps:
  "pr_loop fn fmt L s = Some r \<Longrightarrow>
    \<forall>f L s f' L' s'. pr_switch fn f L s = Some (f', L', s') \<longrightarrow> keep s \<longrightarrow> keep s' \<Longrightarrow> keep s \<Longrightarrow> keep (snd r)"
proof (induction rule: pr_loop.raw_induct [rotated, consumes 1])
  case (1 loop fn fmt L s r)
  show ?case
  proof (cases "mem s fmt = 0")
    case True
    with 1 show ?thesis by auto
  next
    case False
    then obtain f' L' s' where "pr_switch fn fmt L s = Some (f', L', s')" "loop fn (f' + 1) L' s' = Some r"
      using 1(2) by (auto simp: bind_eq_Some_conv)
    then show ?thesis using 1(1) 1(3) 1(4) by blast
  qed
qed

locale output_invariant =
  fixes fn :: "u8 \<Rightarrow> 'a machine_scheme \<Rightarrow> 'a machine_scheme" and keep :: "'a machine_scheme \<Rightarrow> bool"
  assumes keeps: "keep s \<Longrightarrow> keep (fn c s)"
begin

lemma fold_keeps: "keep s \<Longrightarrow> keep (fold fn bs s)"
  by (induction bs arbitrary: s) (simp_all add: keeps)

lemma repeat_keeps: "keep s \<Longrightarrow> keep ((fn c ^^ n) s)"
  by (induction n) (simp_all add: keeps)

lemma emit_buf_keeps: "keep s \<Longrightarrow> keep (snd (pr_emit_buf fn bs count s))"
  by (induction bs arbitrary: count s) (simp_all add: keeps)

lemma emit_mem_keeps: "pr_emit_mem fn p count s = Some r \<Longrightarrow> keep s \<Longrightarrow> keep (snd r)"
  by (erule pr_emit_mem_keeps) (auto intro: keeps)

lemma emit_keeps: "pr_emit fn src count s = Some r \<Longrightarrow> keep s \<Longrightarrow> keep (snd r)"
  using emit_buf_keeps emit_mem_keeps by (cases src) auto

lemma EMIT2_keeps: "pr_EMIT2 fn src aw L s = Some (L', s') \<Longrightarrow> keep s \<Longrightarrow> keep s'"
  unfolding pr_EMIT2_def padl_fold padr_fold
  by (auto simp: Let_def bind_eq_Some_conv keeps repeat_keeps split: if_splits prod.splits dest!: emit_keeps)

lemma EMIT_keeps: "pr_EMIT fn src L s = Some (L', s') \<Longrightarrow> keep s \<Longrightarrow> keep s'"
  unfolding pr_EMIT_def
  by (auto simp: Let_def bind_eq_Some_conv keeps split: if_splits dest!: EMIT2_keeps)

lemma DO_NUM_keeps: "pr_DO_NUM fn r L s = Some (L', s') \<Longrightarrow> keep s \<Longrightarrow> keep s'"
  unfolding pr_DO_NUM_def
  by (auto simp: Let_def split: list.splits if_splits dest!: EMIT_keeps)

lemma case4_keeps: "pr_case4 fn fmt L s = Some (L', s') \<Longrightarrow> keep s \<Longrightarrow> keep s'"
  unfolding pr_case4_def
  by (auto simp: Let_def split: list.splits if_splits dest: EMIT_keeps EMIT2_keeps DO_NUM_keeps)

lemma case3_keeps: "pr_case3 fn fmt L s = Some (L', s') \<Longrightarrow> keep s \<Longrightarrow> keep s'"
  unfolding pr_case3_def by (auto simp: Let_def split: if_splits dest: case4_keeps)

lemma case2_keeps: "pr_case2 fn fmt L s = Some (L', s') \<Longrightarrow> keep s \<Longrightarrow> keep s'"
  unfolding pr_case2_def by (auto simp: Let_def split: if_splits dest: case3_keeps)

lemma case1_keeps: "pr_case1 fn fmt L s = Some (fmt', L', s') \<Longrightarrow> keep s \<Longrightarrow> keep s'"
  unfolding pr_case1_def by (auto simp: Let_def keeps split: if_splits dest: case2_keeps)

lemma case0_keeps: "pr_case0 fn fmt L s = Some (fmt', L', s') \<Longrightarrow> keep s \<Longrightarrow> keep s'"
  unfolding pr_case0_def by (auto simp: Let_def keeps split: if_splits dest: case1_keeps)

lemma switch_keeps: "pr_switch fn fmt L s = Some (fmt', L', s') \<Longrightarrow> keep s \<Longrightarrow> keep s'"
  unfolding pr_switch_def
  by (auto split: if_splits dest: case0_keeps case1_keeps case2_keeps case3_keeps case4_keeps)

lemma loop_keeps: "pr_loop fn fmt L s = Some r \<Longrightarrow> keep s \<Longrightarrow> keep (snd r)"
  by (erule pr_loop_keeps) (auto dest: switch_keeps)

lemma do_printf_keeps: "do_printf fmt args fn s = Some r \<Longrightarrow> keep s \<Longrightarrow> keep (snd r)"
  unfolding do_printf_def by (rule loop_keeps)

end

lemma console_step_putc: "console_step s t \<Longrightarrow> console_step s (tty_putc c t)"
  using console_step_trans [of s t "tty_putc c t"] console_step_fold [of t "[c]"] by (simp add: console_step_def)

interpretation on_console: output_invariant tty_putc "console_step s" for s :: "'a tty_scheme"
  by unfold_locales (rule console_step_putc)

lemma kprintf_console:
  assumes "tty_wf s" "kprintf fmt args s = Some s'"
  shows "console_step s s'"
proof -
  have "console_step s s" using console_step_fold [OF assms(1), of "[]"] by simp
  moreover obtain n where "do_printf fmt args tty_putc s = Some (n, s')" using assms(2) by (auto simp: kprintf_def)
  ultimately show ?thesis using on_console.do_printf_keeps [of fmt args s] by fastforce
qed

text \<open>C31: A call of \<^verbatim>\<open>kprintf\<close> that returns, whatever its format and its arguments (malformed formats,
  arguments that are no strings), has written no byte outside the screen, and has changed nothing else
  of the machine than the cursor, which stays on the screen, and the ports.\<close>

theorem kprintf_touches_screen_only:
  assumes "tty_wf s" "kprintf fmt args s = Some s'"
  shows "tty_wf s' \<and> (\<forall>b. b \<notin> screen s \<longrightarrow> mem s' b = mem s b)
    \<and> s' = s\<lparr>mem := mem s', ports := ports s', tty_x := tty_x s', tty_y := tty_y s'\<rparr>"
  using kprintf_console [OF assms] unfolding console_step_def by auto

text \<open>A malformed format: \<^verbatim>\<open>"50%"\<close> with more text behind its terminator.\<close>

theorem kprintf_touches_screen_only_witness:
  "\<exists>s'. kprintf 0x100 [7] trailing_state = Some s' \<and> tty_wf s' \<and> mem s' 0x102 = 0x25"
proof -
  have w: "0x102 \<notin> screen trailing_state" by (simp add: screen_def trailing_state_def printf_state_def span_iff)
  obtain s' where k: "kprintf 0x100 [7] trailing_state = Some s'" using trailing_percent_run(2) [OF trailing_sample] by simp
  from kprintf_touches_screen_only [OF trailing_sample(1) k] w have "mem s' 0x102 = 0x25" "tty_wf s'"
    by (simp_all add: trailing_state_def)
  with k show ?thesis by blast
qed

end
