(* ===== verification/Hardware.thy ===== *)
theory Hardware
  imports Boot_Props Dev_Props Printf_Safe
begin

text \<open>
  The first process, \<^verbatim>\<open>core\<close> of \<^verbatim>\<open>main.c\<close>: it starts the device manager and looks for
  hardware. Terminal, heap, device list, floppy driver and page allocator meet here; each step changes
  its own part of memory and leaves the other parts' invariants alone.
\<close>

section \<open>Changes that the devices do not see\<close>

text \<open>Bytes that neither the heap nor the terminal nor the device manager uses.\<close>

definition apart_byte :: "'a devices_scheme \<Rightarrow> u32 \<Rightarrow> bool" where
  "apart_byte s b \<longleftrightarrow> off_heap s {b} \<and> b \<notin> screen s \<and> b \<notin> span (k_devs s) 8"

text \<open>A step of the hardware detection: apart bytes stay, and so do the other components' variables.\<close>

definition around :: "'a devices_scheme \<Rightarrow> 'a devices_scheme \<Rightarrow> bool" where
  "around s t \<longleftrightarrow> k_devs t = k_devs s \<and> rodata t = rodata s \<and> floppydev_types t = floppydev_types s
     \<and> screen t = screen s \<and> off_heap t = off_heap s \<and> page_zones t = page_zones s \<and> num_zones t = num_zones s
     \<and> total_pages t = total_pages s \<and> free_pages t = free_pages s \<and> k_page_bitmap t = k_page_bitmap s
     \<and> port_in t = port_in s \<and> panics t = panics s \<and> brk_max t = brk_max s
     \<and> (tty_wf s \<longrightarrow> tty_wf t) \<and> (\<forall>b. apart_byte s b \<longrightarrow> mem t b = mem s b)"

lemma around_trans [trans]: "around s t \<Longrightarrow> around t u \<Longrightarrow> around s u"
  by (simp add: around_def apart_byte_def)

lemma around_console: "console_step s t \<Longrightarrow> around s t"
  unfolding console_step_def around_def apart_byte_def by (auto simp: screen_def off_heap_def fun_eq_iff)

lemma around_device: "device_step n s dl t \<Longrightarrow> around s t"
proof -
  assume st: "device_step n s dl t"
  have e: "t = s\<lparr>heap_brk := heap_brk t, mem := mem t, total_blocks := total_blocks t, used_blocks := used_blocks t\<rparr>"
    using st by (simp only: device_step_def)
  have "page_zones t = page_zones s" "num_zones t = num_zones s" "total_pages t = total_pages s"
    "free_pages t = free_pages s" "k_page_bitmap t = k_page_bitmap s" "port_in t = port_in s" "panics t = panics s"
    "screen t = screen s" "tty_wf t = tty_wf s"
    by (subst e; simp add: screen_def tty_wf_def)+
  then show ?thesis
    using device_step_facts [OF st] device_step_keeps(4) [OF st] by (simp add: around_def apart_byte_def)
qed

text \<open>The parts of memory that the detection uses lie apart: screen, list head, page bitmap.\<close>

definition parts_apart :: "'a devices_scheme \<Rightarrow> bool" where
  "parts_apart s \<longleftrightarrow> off_heap s (span (k_devs s) 8) \<and> off_heap s (screen s) \<and> screen s \<inter> span (k_devs s) 8 = {}
     \<and> (\<forall>b \<in> bitmap_bytes (k_page_bitmap s). apart_byte s b)"

lemma parts_apart_around: "around s t \<Longrightarrow> parts_apart s \<Longrightarrow> parts_apart t"
  by (simp add: around_def parts_apart_def apart_byte_def)

text \<open>Steps that the heap and the devices do not see at all.\<close>

definition unseen :: "'a devices_scheme \<Rightarrow> 'a devices_scheme \<Rightarrow> bool" where
  "unseen s t \<longleftrightarrow> heap_base t = heap_base s \<and> heap_brk t = heap_brk s \<and> brk_max t = brk_max s
     \<and> chain_hd t = chain_hd s \<and> total_blocks t = total_blocks s \<and> used_blocks t = used_blocks s
     \<and> k_devs t = k_devs s \<and> rodata t = rodata s \<and> floppydev_types t = floppydev_types s
     \<and> (\<forall>b. mem t b \<noteq> mem s b \<longrightarrow> off_heap s {b} \<and> b \<notin> span (k_devs s) 8)"

lemma unseen_console: "console_step s t \<Longrightarrow> parts_apart s \<Longrightarrow> unseen s t"
  unfolding console_step_def unseen_def parts_apart_def by (auto simp: off_heap_def)

lemma unseen_heap:
  assumes "unseen s t" "heap_wf s xs"
  shows "heap_wf t xs" "heap_owned t = heap_owned s" "heap_room n t = heap_room n s" "off_heap t = off_heap s"
proof -
  have w: "off_heap s {b} \<or> (\<exists>(q, j) \<in> heap_owned s. b \<in> span q j)" if "mem t b \<noteq> mem s b" for b
    using assms(1) that by (simp add: unseen_def)
  note cw = heap_client_write [OF assms(2), of "mem t", OF w]
  have e: "heap_wf t ys = heap_wf (s\<lparr>mem := mem t\<rparr>) ys" for ys
    using assms(1) by (simp add: unseen_def heap_wf_def heap_shape_def)
  show "heap_wf t xs" using cw(1) by (simp add: e)
  have "heap_owned t = heap_owned (s\<lparr>mem := mem t\<rparr>)" by (simp add: heap_owned_def e)
  then show "heap_owned t = heap_owned s" using cw(2) by simp
  show "heap_room n t = heap_room n s" "off_heap t = off_heap s"
    using assms(1) by (simp_all add: unseen_def heap_room_def off_heap_def fun_eq_iff)
qed

lemma unseen_owned:
  assumes "unseen s t" "heap_wf s xs" "(q, j) \<in> heap_owned s" "b \<in> span q j"
  shows "mem t b = mem s b"
  using assms(1) owned_in_heap(1) [OF assms(2-4)] by (auto simp: unseen_def)

lemma unseen_devices:
  assumes u: "unseen s t" and wf: "devs_wf s dl"
  shows "devs_wf t dl" "d \<in> set dl \<Longrightarrow> device_at (mem t) d = device_at (mem s) d"
proof -
  obtain xs where hw: "heap_wf s xs" using wf by (auto simp: devs_wf_def)
  note h = unseen_heap [OF u hw] and o = unseen_owned [OF u hw]
  have own: "\<And>d. d \<in> set dl \<Longrightarrow> \<exists>k \<ge> 24. (d, k) \<in> heap_owned s" using wf by (simp add: devs_wf_def)
  have dev: "mem t b = mem s b" if "d \<in> set dl" "b \<in> span d 24" for d b
    using own [OF that(1)] o span_mono [OF that(2)] by blast
  have k: "k_devs t = k_devs s" and head: "\<And>b. b \<in> span (k_devs s) 8 \<Longrightarrow> mem t b = mem s b"
    using u by (auto simp: unseen_def)
  show "devs_wf t dl"
    by (rule devs_wf_frame [OF wf h(1) _ k h(4)]) (use dev head link_in_device h(2) in auto)
  show "device_at (mem t) d = device_at (mem s) d" if "d \<in> set dl"
    using dev [OF that] device_body by (intro device_cong) blast
qed

lemma unseen_drive:
  assumes u: "unseen s t" and wf: "devs_wf s dl" and d: "d \<in> set dl" and dr: "drive_at s dl d f name minor"
  shows "drive_at t dl d f name minor"
proof -
  obtain xs where hw: "heap_wf s xs" using wf by (auto simp: devs_wf_def)
  obtain di k where di: "device_at (mem s) d = \<lparr>dv_name = rodata s name, dv_major = DEV_FLOPPY_MAJOR, dv_minor = minor,
      dv_info = di, dv_size = 8\<rparr>" "mem s di = ucast f" "load32 (mem s) (di + 4) = floppydev_types s ! unat f"
      "di \<notin> set dl" "(di, k) \<in> heap_owned s" "8 \<le> k" using dr by (auto simp: drive_at_def)
  have same: "mem t b = mem s b" if "b \<in> span di 8" for b
    using unseen_owned [OF u hw di(5)] span_mono [OF that di(6)] .
  then have "mem t di = mem s di" "load32 (mem t) (di + 4) = load32 (mem s) (di + 4)"
    using self_in_span [of 8 di] span_offset [of _ di 4 4 8] by (auto intro!: load32_cong)
  then show ?thesis
    using di unseen_devices(2) [OF u wf d] unseen_heap(2) [OF u hw] u by (auto simp: drive_at_def unseen_def)
qed

section \<open>Literals\<close>

text \<open>A C string that lies apart from everything the detection changes.\<close>

definition literal :: "'a devices_scheme \<Rightarrow> u32 \<Rightarrow> u8 list \<Rightarrow> bool" where
  "literal s p bs \<longleftrightarrow> cstring (mem s) p bs \<and> length bs < 4294967295 \<and> (\<forall>b \<in> span p (Suc (length bs)). apart_byte s b)"

lemma literal_around:
  assumes "literal s p bs" "around s t"
  shows "literal t p bs"
proof -
  have "cstring (mem t) p bs = cstring (mem s) p bs"
    using assms by (intro cstring_cong) (simp_all add: literal_def around_def)
  then show ?thesis using assms by (simp add: literal_def around_def apart_byte_def)
qed

lemma literal_text: "literal s (rodata s t) (map of_char t) \<Longrightarrow> text_ready s t"
  by (auto simp: literal_def text_ready_def apart_byte_def)

lemma literal_arg: "literal s p bs \<Longrightarrow> arg_ok (mem s) (screen s) (String p bs)"
  by (auto simp: literal_def arg_ok_def apart_byte_def)

section \<open>The drives in the list\<close>

type_synonym drive = "u16 \<times> string \<times> u16"

definition drives_at :: "'a devices_scheme \<Rightarrow> u32 list \<Rightarrow> drive list \<Rightarrow> bool" where
  "drives_at s dl drs \<longleftrightarrow> list_all2 (\<lambda>d (f, name, minor). drive_at s dl d f name minor) dl drs"

definition found :: "u16 \<Rightarrow> string \<Rightarrow> u16 \<Rightarrow> drive list" where
  "found f name minor = (if f = 0 then [] else [(f, name, minor)])"

lemma add_floppy_found:
  assumes wf: "devs_wf s dl" and drs: "drives_at s dl drs" and room: "heap_room 52 s" and f: "f = 0 \<or> unat f < length (floppydev_types s)"
  obtains s' dl' where "add_floppy f name minor s = Some s'" "devs_wf s' dl'" "drives_at s' dl' (found f name minor @ drs)"
    "around s s'" "unat (heap_brk s') \<le> unat (heap_brk s) + 72"
proof (cases "f = 0")
  case True
  then show ?thesis using wf drs by (intro that [of s dl]) (simp_all add: add_floppy_def found_def around_def)
next
  case False
  obtain p j s' where a: "add_floppy f name minor s = Some s'" "devs_wf s' (p # dl)" "drive_at s' (p # dl) p f name minor"
    "device_step 72 s dl s'" "\<forall>d \<in> set dl. device_at (mem s') d = device_at (mem s) d"
    "(p, j) \<in> heap_owned s'" "(p, j) \<notin> heap_owned s" "24 \<le> j"
    using add_floppy_effect [OF wf room False, of name minor] f False by metis
  have "drive_at s' (p # dl) d f' n' m'" if "d \<in> set dl" "drive_at s dl d f' n' m'" for d f' n' m'
    using drive_at_step [OF that(2) wf a(4) _ a(2,6,7,8)] a(5) that(1) by blast
  then have "list_all2 (\<lambda>d (f, name, minor). drive_at s' (p # dl) d f name minor) dl drs"
    using drs unfolding drives_at_def by (elim list.rel_mono_strong) auto
  then have "drives_at s' (p # dl) (found f name minor @ drs)" using False a(3) by (simp add: drives_at_def found_def)
  then show ?thesis using a by (intro that [OF a(1,2)] around_device [OF a(4)] device_step_keeps(2) [OF a(4)])
qed

section \<open>Printing the drives\<close>

definition floppy_text :: string where "floppy_text = ''DEV0: %s %d %s'' @ [CHR 0x0A]"

text \<open>\<open>ty f\<close> is the name of the drive type \<open>f\<close>.\<close>

definition floppy_line :: "(u16 \<Rightarrow> u8 list) \<Rightarrow> drive \<Rightarrow> u8 list" where
  "floppy_line ty x = (case x of (f, name, minor) \<Rightarrow>
     map of_char ''DEV0: '' @ map of_char name @ [0x20] @ number False False 0 False 10 (uint (ucast f :: u8))
     @ [0x20] @ ty f @ [0x0A])"

definition names_ready :: "'a devices_scheme \<Rightarrow> (u16 \<Rightarrow> u8 list) \<Rightarrow> drive \<Rightarrow> bool" where
  "names_ready s ty x \<longleftrightarrow> (case x of (f, name, minor) \<Rightarrow>
     literal s (rodata s name) (map of_char name) \<and> literal s (floppydev_types s ! unat f) (ty f))"

lemma names_ready_around: "names_ready s ty x \<Longrightarrow> around s t \<Longrightarrow> names_ready t ty x"
  using literal_around [of s _ _ t] by (auto simp: names_ready_def around_def)

lemma floppy_line_printed:
  "plain_format floppy_text"
  "printed (pieces floppy_text) [String a (map of_char name), Word (ucast (ucast f :: u8)), String b (ty f)]
    = Some (floppy_line ty (f, name, minor))"
proof -
  have s: "signed_of Plain (ucast w :: u32) = uint w" for w :: u8
  proof -
    have "uint w < 256" using uint_lt2p [of w] by simp
    then show ?thesis by (simp add: signed_of_def sint_uint signed_take_bit_int_eq_self take_bit_int_eq_self unsigned_ucast_eq
        order.trans [of "- 2147483648" 0])
  qed
  show "plain_format floppy_text" by (simp add: floppy_text_def)
  show "printed (pieces floppy_text) [String a (map of_char name), Word (ucast (ucast f :: u8)), String b (ty f)]
    = Some (floppy_line ty (f, name, minor))"
    by (simp add: floppy_text_def floppy_line_def justify_def s)
qed

lemma dump_floppies_prints:
  assumes "tty_wf s" "literal s (rodata s floppy_text) (map of_char floppy_text)" "drive_at s dl d f name minor"
    and "names_ready s ty (f, name, minor)"
  shows "dump_floppies d s = Some (fold tty_putc (floppy_line ty (f, name, minor)) s)"
    "console_step s (fold tty_putc (floppy_line ty (f, name, minor)) s)"
proof -
  obtain di where di: "device_at (mem s) d = \<lparr>dv_name = rodata s name, dv_major = DEV_FLOPPY_MAJOR, dv_minor = minor,
      dv_info = di, dv_size = 8\<rparr>" "mem s di = ucast f" "load32 (mem s) (di + 4) = floppydev_types s ! unat f"
    using assms(3) by (auto simp: drive_at_def)
  have fl: "d_name (mem s) d = rodata s name" "d_devinfo (mem s) d = di" using di(1) by (simp_all add: device_at_def)
  have a: "\<forall>a \<in> set [String (rodata s name) (map of_char name), Word (ucast (ucast f :: u8)),
      String (floppydev_types s ! unat f) (ty f)]. arg_ok (mem s) (screen s) a"
    using assms(4) literal_arg [of s "rodata s name" "map of_char name"] literal_arg [of s "floppydev_types s ! unat f" "ty f"]
    by (simp add: names_ready_def arg_ok_def)
  note k = kprintf_args [OF assms(1) literal_text [OF assms(2)] floppy_line_printed(1) a
      floppy_line_printed(2) [where name = name and f = f and ty = ty and minor = minor]]
  show "dump_floppies d s = Some (fold tty_putc (floppy_line ty (f, name, minor)) s)"
    unfolding dump_floppies_def floppy_text_def [symmetric] Let_def fl di using k(1) by simp
  show "console_step s (fold tty_putc (floppy_line ty (f, name, minor)) s)" by (rule k(2))
qed

lemma drives_at_major:
  assumes "drives_at s dl drs" "d \<in> set dl"
  shows "d_major (mem s) d = DEV_FLOPPY_MAJOR"
proof -
  obtain i where i: "i < length dl" "dl ! i = d" using assms(2) by (auto simp: in_set_conv_nth)
  obtain f name minor where "drs ! i = (f, name, minor)" using prod_cases3 by blast
  then have "drive_at s dl d f name minor"
    using assms(1) i unfolding drives_at_def by (auto dest: list_all2_nthD)
  then show ?thesis by (auto simp: drive_at_def device_at_def)
qed

lemma drives_at_unseen:
  assumes "unseen s t" "devs_wf s dl" "drives_at s dl drs"
  shows "drives_at t dl drs"
  using assms(3) unseen_drive [OF assms(1,2)] unfolding drives_at_def by (elim list.rel_mono_strong) auto

text \<open>The walk over the drives prints a line for each of them, the last found first.\<close>

lemma dump_drives:
  assumes wf: "tty_wf s" "parts_apart s" "devs_wf s dl" and drs: "drives_at s dl drs"
    and lit: "literal s (rodata s floppy_text) (map of_char floppy_text)" and names: "\<forall>x \<in> set drs. names_ready s ty x"
  shows "foreachdevice DEV_FLOPPY_MAJOR dump_floppies s = Some (fold tty_putc (concat (map (floppy_line ty) drs)) s)"
proof -
  have start: "console_step s s" using console_step_fold [OF wf(1), of "[]"] by simp
  have un: "unseen s u" if "console_step s u" for u using that wf(2) by (rule unseen_console)
  have same: "same_devices dl s u" if "console_step s u" for u
    using unseen_devices [OF un [OF that] wf(3)] un [OF that]
    by (auto simp: same_devices_def devs_wf_def unseen_def device_at_def)
  have keep: "console_step s u'" if "console_step s u" "dump_floppies d u = Some u'" for d u u'
  proof -
    have "console_step u u'"
      using that by (intro kprintf_console [of u]) (auto simp: dump_floppies_def Let_def console_step_def)
    then show ?thesis by (rule console_step_trans [OF that(1)])
  qed
  have "foreachdevice DEV_FLOPPY_MAJOR dump_floppies s =
      each_device dump_floppies (filter (\<lambda>d. d_major (mem s) d = DEV_FLOPPY_MAJOR) dl) s"
    by (rule foreachdevice_walk [where P = "console_step s", OF start same keep])
  also have "filter (\<lambda>d. d_major (mem s) d = DEV_FLOPPY_MAJOR) dl = dl"
    using drives_at_major [OF drs] by (simp add: filter_id_conv)
  also have "each_device dump_floppies rest t = Some (fold tty_putc (concat (map (floppy_line ty) xs)) t)"
    if "list_all2 (\<lambda>d (f, name, minor). drive_at s dl d f name minor) rest xs" "set rest \<subseteq> set dl" "set xs \<subseteq> set drs"
      "console_step s t" for rest xs t
    using that
  proof (induction rest arbitrary: xs t)
    case (Cons d rest)
    then obtain f name minor ys where xs: "xs = (f, name, minor) # ys" and dr: "drive_at s dl d f name minor"
      and rest: "list_all2 (\<lambda>d (f, name, minor). drive_at s dl d f name minor) rest ys"
      by (auto simp: list_all2_Cons1)
    have ar: "around s t" using Cons.prems(4) by (rule around_console)
    have tx: "literal t (rodata t floppy_text) (map of_char floppy_text)"
      using literal_around [OF lit ar] ar by (simp add: around_def)
    have nr: "names_ready t ty (f, name, minor)" using names_ready_around [OF _ ar] names xs Cons.prems(3) by simp
    have dt: "drive_at t dl d f name minor"
      using unseen_drive [OF un [OF Cons.prems(4)] wf(3) _ dr] Cons.prems(2) by simp
    have tw: "tty_wf t" using Cons.prems(4) by (simp add: console_step_def)
    note p = dump_floppies_prints [OF tw tx dt nr]
    show ?case
      using Cons.IH [OF rest _ _ console_step_trans [OF Cons.prems(4) p(2)]] Cons.prems(2,3) p(1) by (simp add: xs)
  qed simp
  then have "each_device dump_floppies dl s = Some (fold tty_putc (concat (map (floppy_line ty) drs)) s)"
    using drs start by (simp add: drives_at_def)
  finally show ?thesis .
qed

section \<open>A frame for the transfers\<close>

lemma dma_frame:
  assumes "alloc_wf s" "parts_apart s"
  obtains p t where "alloc_pages 1 ZONE_DMA s = Some (p, t)" "alloc_wf t" "unseen s t" "parts_apart t"
    "tty_wf t = tty_wf s" "screen t = screen s" "panics t = panics s" "k_page_bitmap t = k_page_bitmap s"
    "\<And>b. b \<notin> bitmap_bytes (k_page_bitmap s) \<Longrightarrow> mem t b = mem s b"
proof -
  have zwf: "zones_wf s" using assms(1) by (simp add: alloc_wf_def counts_wf_def)
  have one: "(1 :: u32) \<noteq> 0" by simp
  have "\<exists>p m z n. alloc_pages 1 ZONE_DMA s = Some (p, s\<lparr>mem := m, page_zones := z, free_pages := n\<rparr>)
      \<and> (\<forall>b. b \<notin> bitmap_bytes (k_page_bitmap s) \<longrightarrow> m b = mem s b)"
    using alloc_pages_cases [OF zwf one, of ZONE_DMA]
  proof (elim disjE exE conjE)
    assume "alloc_pages 1 ZONE_DMA s = Some (0, s)"
    then show ?thesis
      by (intro exI [of _ 0] exI [of _ "mem s"] exI [of _ "page_zones s"] exI [of _ "free_pages s"]) simp
  next
    fix c t
    assume al: "alloc_pages 1 ZONE_DMA s = Some (c * 4096, t\<lparr>free_pages := free_pages s - 1\<rparr>)"
      and "marked s (page_range c (c + 1)) t"
    then obtain m z where "t = s\<lparr>mem := m, page_zones := z\<rparr>" "\<forall>x. x \<notin> bitmap_bytes (k_page_bitmap s) \<longrightarrow> m x = mem s x"
      by (auto simp: marked_def)
    then show ?thesis using al
      by (intro exI [of _ "c * 4096"] exI [of _ m] exI [of _ z] exI [of _ "free_pages s - 1"]) simp
  qed
  then obtain p m z n where al: "alloc_pages 1 ZONE_DMA s = Some (p, s\<lparr>mem := m, page_zones := z, free_pages := n\<rparr>)"
    and m: "\<forall>b. b \<notin> bitmap_bytes (k_page_bitmap s) \<longrightarrow> m b = mem s b" by blast
  let ?t = "s\<lparr>mem := m, page_zones := z, free_pages := n\<rparr>"
  have o: "off_heap ?t = off_heap s" by (simp add: off_heap_def fun_eq_iff)
  have "unseen s ?t" using m assms(2) by (auto simp: unseen_def parts_apart_def apart_byte_def)
  moreover have "screen ?t = screen s" "tty_wf ?t = tty_wf s" by (simp_all add: screen_def tty_wf_def)
  ultimately show ?thesis
    using alloc_wf_alloc_pages [OF assms(1) al] assms(2) m
    by (intro that [OF al]) (simp_all add: parts_apart_def apart_byte_def o)
qed

section \<open>The first process\<close>

definition core_text :: string where "core_text = ''   * Core process starting'' @ [CHR 0x0A]"
definition devmgr_text :: string where "devmgr_text = ''   * Initialising device manager...'' @ [CHR 0x0A]"
definition detect_text :: string where "detect_text = ''   * Detecting hardware...'' @ [CHR 0x0A]"
definition brk_text :: string where "brk_text = '' * max_brk is at: 0x%x'' @ [CHR 0x0A]"
definition new_brk_text :: string where "new_brk_text = '' * new max_brk will be 0x%x'' @ [CHR 0x0A]"

text \<open>A text with at most plain number conversions is printed, and only screen and cursor change.\<close>

lemma literal_prints:
  assumes "tty_wf s" "literal s (rodata s t) (map of_char t)" "plain_format t" "printed (pieces t) (map Word ws) \<noteq> None"
  obtains s' where "kprintf (rodata s t) ws s = Some s'" "console_step s s'"
proof -
  obtain out where out: "printed (pieces t) (map Word ws) = Some out" using assms(4) by blast
  have a: "\<forall>a \<in> set (map Word ws). arg_ok (mem s) (screen s) a" by (simp add: arg_ok_def)
  have w: "map arg_word (map Word ws) = ws" by (induction ws) simp_all
  note k = kprintf_args [OF assms(1) literal_text [OF assms(2)] assms(3) a out]
  show ?thesis by (rule that [OF k(1) [unfolded w] k(2)])
qed

lemma core_texts:
  "plain_format core_text" "plain_format devmgr_text" "plain_format detect_text" "plain_format brk_text" "plain_format new_brk_text"
  "printed (pieces core_text) (map Word []) \<noteq> None" "printed (pieces devmgr_text) (map Word []) \<noteq> None"
  "printed (pieces detect_text) (map Word []) \<noteq> None" "printed (pieces brk_text) (map Word [w]) \<noteq> None"
  "printed (pieces new_brk_text) (map Word [w]) \<noteq> None"
  by (simp_all add: core_text_def devmgr_text_def detect_text_def brk_text_def new_brk_text_def)

lemma alloc_wf_around:
  assumes "alloc_wf s" "parts_apart s" "around s t"
  shows "alloc_wf t"
  by (rule alloc_wf_cong [OF assms(1)]) (use assms(2,3) in \<open>auto simp: around_def parts_apart_def\<close>)

lemma map_temp_prints:
  assumes wf: "tty_wf s" and lit: "\<forall>t \<in> {brk_text, new_brk_text}. literal s (rodata s t) (map of_char t)"
  obtains s' where "map_temp p n s = Some s'" "console_step s s'"
proof -
  have l: "literal s (rodata s brk_text) (map of_char brk_text)" using lit by simp
  obtain s1 where 1: "kprintf (rodata s brk_text) [brk_max s] s = Some s1" "console_step s s1"
    by (rule literal_prints [OF wf l core_texts(4,9)])
  note ar = around_console [OF 1(2)]
  have l1: "literal s1 (rodata s1 new_brk_text) (map of_char new_brk_text)"
    using literal_around [OF _ ar] lit ar by (simp add: around_def)
  have w1: "tty_wf s1" using 1(2) by (simp add: console_step_def)
  obtain s2 where 2: "kprintf (rodata s1 new_brk_text) [brk_max s1 - n * ucast (page_size s1)] s1 = Some s2" "console_step s1 s2"
    by (rule literal_prints [OF w1 l1 core_texts(5,10)])
  show ?thesis
    by (rule that [OF _ console_step_trans [OF 1(2) 2(2)]])
      (simp add: map_temp_def brk_text_def [symmetric] new_brk_text_def [symmetric] 1(1) 2(1) Let_def del: append.simps)
qed

text \<open>What the CMOS byte stands for: the drives, the one found last in front.\<close>

definition detected :: "u8 \<Rightarrow> drive list" where
  "detected b = (let i = ucast b :: u16 in found (i AND 0xF) ''floppy1'' 1 @ found (drop_bit 4 i) ''floppy0'' 0)"

text \<open>What the detection needs besides a sound heap, allocator and terminal: room for the blocks of two
  drives, types that the table of names has, and the literals it prints.\<close>

definition detection_ready :: "'a devices_scheme \<Rightarrow> (u16 \<Rightarrow> u8 list) \<Rightarrow> bool" where
  "detection_ready s ty \<longleftrightarrow> tty_wf s \<and> alloc_wf s \<and> parts_apart s \<and> heap_room 124 s
     \<and> (\<forall>t \<in> {core_text, devmgr_text, detect_text, floppy_text, brk_text, new_brk_text}. literal s (rodata s t) (map of_char t))
     \<and> (\<forall>x \<in> set (detected (port_in s 0x71)). names_ready s ty x \<and> unat (fst x) < length (floppydev_types s))
     \<and> (\<forall>t \<in> {brk_text, new_brk_text}. span (rodata s t) (Suc (length t)) \<inter> bitmap_bytes (k_page_bitmap s) = {})"

lemma detection_ready_around:
  assumes "detection_ready s ty" "around s t" "heap_room 124 t"
  shows "detection_ready t ty"
proof -
  have "literal t (rodata t x) (map of_char x)" if "x \<in> {core_text, devmgr_text, detect_text, floppy_text, brk_text, new_brk_text}" for x
  proof -
    have "literal s (rodata s x) (map of_char x)" using assms(1) that unfolding detection_ready_def by blast
    then show ?thesis using literal_around [OF _ assms(2)] assms(2) by (simp add: around_def)
  qed
  moreover have "names_ready t ty x" if "x \<in> set (detected (port_in s 0x71))" for x
    using names_ready_around [OF _ assms(2)] assms(1) that by (simp add: detection_ready_def)
  ultimately show ?thesis
    using assms parts_apart_around [OF assms(2)] alloc_wf_around [OF _ _ assms(2)]
    by (simp add: detection_ready_def around_def)
qed

lemma floppy_io_runs:
  assumes wf: "tty_wf s" "alloc_wf s" "parts_apart s"
    and lit: "\<forall>t \<in> {brk_text, new_brk_text}. literal s (rodata s t) (map of_char t)
      \<and> span (rodata s t) (Suc (length t)) \<inter> bitmap_bytes (k_page_bitmap s) = {}"
  obtains t s' where "floppy_io s = Some s'" "unseen s t" "parts_apart t" "console_step t s'" "alloc_wf s'" "panics s' = panics s"
proof -
  obtain p t where al: "alloc_pages 1 ZONE_DMA s = Some (p, t)" and t: "alloc_wf t" "unseen s t" "parts_apart t"
    "tty_wf t = tty_wf s" "screen t = screen s" "panics t = panics s" "k_page_bitmap t = k_page_bitmap s"
    and out: "\<And>b. b \<notin> bitmap_bytes (k_page_bitmap s) \<Longrightarrow> mem t b = mem s b"
    by (rule dma_frame [OF wf(2,3)]) (rule that; assumption)
  have e: "rodata t = rodata s" "k_devs t = k_devs s" "off_heap t = off_heap s"
    using t(2) by (simp_all add: unseen_def off_heap_def fun_eq_iff)
  have "literal t (rodata t x) (map of_char x)" if "x \<in> {brk_text, new_brk_text}" for x
  proof -
    have l: "literal s (rodata s x) (map of_char x)" and d: "span (rodata s x) (Suc (length x)) \<inter> bitmap_bytes (k_page_bitmap s) = {}"
      using lit that by blast+
    have "cstring (mem t) (rodata s x) (map of_char x) = cstring (mem s) (rodata s x) (map of_char x)"
      using l d by (intro cstring_cong out) (auto simp: literal_def)
    then show ?thesis using l by (simp add: literal_def apart_byte_def e t(5))
  qed
  then have tl: "\<forall>x \<in> {brk_text, new_brk_text}. literal t (rodata t x) (map of_char x)" by blast
  have tw: "tty_wf t" using wf(1) t(4) by simp
  obtain s' where m: "map_temp p 1 t = Some s'" "console_step t s'" by (rule map_temp_prints [OF tw tl])
  have "alloc_wf s'" by (rule alloc_wf_around [OF t(1,3) around_console [OF m(2)]])
  moreover have "panics s' = panics s" using around_console [OF m(2)] t(6) by (simp add: around_def)
  ultimately show ?thesis using al m t by (intro that [of s' t]) (simp_all add: floppy_io_def)
qed

text \<open>The drives are found and listed.\<close>

lemma floppies_registered:
  assumes ready: "detection_ready s ty" and wf: "devs_wf s []"
  obtains s1 s2 dl where "add_floppy (drop_bit 4 (ucast (port_in s 0x71))) ''floppy0'' 0 s = Some s1"
    "add_floppy (ucast (port_in s 0x71) AND 0xF) ''floppy1'' 1 s1 = Some s2" "devs_wf s2 dl"
    "drives_at s2 dl (detected (port_in s 0x71))" "around s s2"
proof -
  let ?i = "ucast (port_in s 0x71) :: u16"
  let ?f0 = "drop_bit 4 ?i" and ?f1 = "?i AND 0xF"
  have ty: "?f0 = 0 \<or> unat ?f0 < length (floppydev_types s)" "?f1 = 0 \<or> unat ?f1 < length (floppydev_types s)"
    using ready by (auto simp: detection_ready_def detected_def found_def Let_def split: if_splits)
  have room: "heap_room 124 s" using ready by (simp add: detection_ready_def)
  then have r0: "heap_room 52 s" by (simp add: heap_room_def)
  have d0: "drives_at s [] []" by (simp add: drives_at_def)
  obtain s1 dl1 where 1: "add_floppy ?f0 ''floppy0'' 0 s = Some s1" "devs_wf s1 dl1"
    "drives_at s1 dl1 (found ?f0 ''floppy0'' 0 @ [])" "around s s1" "unat (heap_brk s1) \<le> unat (heap_brk s) + 72"
    by (rule add_floppy_found [OF wf d0 r0 ty(1), of "''floppy0''" 0])
  have r1: "heap_room 52 s1" and ty1: "?f1 = 0 \<or> unat ?f1 < length (floppydev_types s1)"
    using 1(4,5) room ty(2) by (simp_all add: heap_room_def around_def)
  obtain s2 dl2 where 2: "add_floppy ?f1 ''floppy1'' 1 s1 = Some s2" "devs_wf s2 dl2"
    "drives_at s2 dl2 (found ?f1 ''floppy1'' 1 @ found ?f0 ''floppy0'' 0 @ [])" "around s1 s2"
    by (rule add_floppy_found [OF 1(2,3) r1 ty1, of "''floppy1''" 1])
  show ?thesis
    by (rule that [OF 1(1) 2(1,2) _ around_trans [OF 1(4) 2(4)]]) (use 2(3) in \<open>simp add: detected_def Let_def\<close>)
qed

lemma init_floppy_runs:
  assumes ready: "detection_ready s ty" and wf: "devs_wf s []"
  obtains s' dl where "init_floppy s = Some s'" "devs_wf s' dl" "drives_at s' dl (detected (port_in s 0x71))" "alloc_wf s'"
    "tty_wf s'" "panics s' = panics s"
proof -
  let ?s = "outportb 0x70 0x10 s" and ?b = "port_in s 0x71"
  have tw: "tty_wf s" and pa: "parts_apart s" using ready by (simp_all add: detection_ready_def)
  have "\<exists>m p x y. ?s = s\<lparr>mem := m, ports := p, tty_x := x, tty_y := y\<rparr>"
    by (intro exI [of _ "mem s"] exI [of _ "ports ?s"] exI [of _ "tty_x s"] exI [of _ "tty_y s"]) (simp add: outportb_def)
  then have c0: "console_step s ?s" using tw by (simp add: console_step_def outportb_def tty_wf_def)
  note u0 = unseen_console [OF c0 pa]
  obtain xs where hw: "heap_wf s xs" using wf by (auto simp: devs_wf_def)
  have "heap_room 124 ?s" using ready unseen_heap(3) [OF u0 hw] by (simp add: detection_ready_def)
  from detection_ready_around [OF ready around_console [OF c0] this] have r0: "detection_ready ?s ty" .
  have b: "port_in ?s 0x71 = ?b" by (simp add: outportb_def)
  obtain s1 s2 dl where 1: "add_floppy (drop_bit 4 (ucast ?b)) ''floppy0'' 0 ?s = Some s1"
    "add_floppy (ucast ?b AND 0xF) ''floppy1'' 1 s1 = Some s2" and d2: "devs_wf s2 dl" "drives_at s2 dl (detected ?b)"
    and a2: "around ?s s2" by (rule floppies_registered [OF r0 unseen_devices(1) [OF u0 wf], unfolded b])
  have t2: "tty_wf s2" "parts_apart s2" "alloc_wf s2"
    using a2 r0 parts_apart_around [OF a2] alloc_wf_around [OF _ _ a2] by (simp_all add: detection_ready_def around_def)
  have lit: "literal s2 (rodata s2 x) (map of_char x)" if "x \<in> {floppy_text, brk_text, new_brk_text}" for x
  proof -
    have "literal ?s (rodata ?s x) (map of_char x)" using r0 that unfolding detection_ready_def by blast
    then show ?thesis using literal_around [OF _ a2] a2 by (simp add: around_def)
  qed
  have names: "\<forall>x \<in> set (detected ?b). names_ready s2 ty x"
    using r0 names_ready_around [OF _ a2] unfolding detection_ready_def b by blast
  let ?t = "fold tty_putc (concat (map (floppy_line ty) (detected ?b))) s2"
  have dump: "foreachdevice DEV_FLOPPY_MAJOR dump_floppies s2 = Some ?t"
    by (rule dump_drives [OF t2(1,2) d2 lit names]) simp
  have ct: "console_step s2 ?t" by (rule console_step_fold [OF t2(1)])
  note ut = unseen_console [OF ct t2(2)] and at = around_console [OF ct]
  have tt: "tty_wf ?t" "parts_apart ?t" "alloc_wf ?t"
    using at t2 parts_apart_around [OF at] alloc_wf_around [OF _ _ at] by (simp_all add: around_def)
  have "rodata s2 = rodata s" "k_page_bitmap s2 = k_page_bitmap s" using a2 by (simp_all add: around_def outportb_def)
  then have lt: "\<forall>x \<in> {brk_text, new_brk_text}. literal ?t (rodata ?t x) (map of_char x)
      \<and> span (rodata ?t x) (Suc (length x)) \<inter> bitmap_bytes (k_page_bitmap ?t) = {}"
    using literal_around [OF lit at] at ready by (auto simp: around_def detection_ready_def)
  obtain u s' where io: "floppy_io ?t = Some s'" "unseen ?t u" "parts_apart u" "console_step u s'" "alloc_wf s'"
    "panics s' = panics ?t" by (rule floppy_io_runs [OF tt(1,3,2) lt])
  note uu = unseen_console [OF io(4,3)]
  note dt = unseen_devices(1) [OF ut d2(1)] drives_at_unseen [OF ut d2]
  note du = unseen_devices(1) [OF io(2) dt(1)] drives_at_unseen [OF io(2) dt]
  have "init_floppy s = Some s'"
    using 1 dump io(1) by (simp add: init_floppy_def Let_def inportb_def b)
  moreover have "tty_wf s'" using io(4) by (simp add: console_step_def)
  moreover have "panics s' = panics s" using io(6) at a2 by (simp add: around_def outportb_def)
  ultimately show ?thesis
    using unseen_devices(1) [OF uu du(1)] drives_at_unseen [OF uu du] io(5) by (intro that)
qed

text \<open>\<^verbatim>\<open>init_devices\<close> changes nothing but the list head.\<close>

lemma around_init_devices: "parts_apart s \<Longrightarrow> around s (init_devices s)"
  using list_head_outside [of _ "k_devs s" "mem s"]
  by (auto simp: around_def init_devices_def apart_byte_def off_heap_mem screen_def tty_wf_def)

lemma core_runs:
  assumes ready: "detection_ready s ty" and heap: "heap_wf s xs"
  obtains s' dl where "core s = Some s'" "devs_wf s' dl" "drives_at s' dl (detected (port_in s 0x71))" "alloc_wf s'"
    "tty_wf s'" "panics s' = panics s"
proof -
  have tw: "tty_wf s" and pa: "parts_apart s" and lit: "literal s (rodata s core_text) (map of_char core_text)"
    using ready by (simp_all add: detection_ready_def)
  have next_ready: "detection_ready u ty \<and> heap_wf u xs"
    if "console_step t u" "detection_ready t ty" "heap_wf t xs" for t u
  proof -
    have "unseen t u" using that(1,2) by (intro unseen_console) (simp_all add: detection_ready_def)
    note h = unseen_heap [OF this that(3)]
    show ?thesis
      using h detection_ready_around [OF that(2) around_console [OF that(1)]] that(2) by (simp add: detection_ready_def)
  qed
  obtain s1 where 1: "kprintf (rodata s core_text) [] s = Some s1" "console_step s s1"
    by (rule literal_prints [OF tw lit core_texts(1,6)])
  have r1: "detection_ready s1 ty" "heap_wf s1 xs" using next_ready [OF 1(2) ready heap] by simp_all
  then have tw1: "tty_wf s1" and lit1: "literal s1 (rodata s1 devmgr_text) (map of_char devmgr_text)"
    by (simp_all add: detection_ready_def)
  obtain s2 where 2: "kprintf (rodata s1 devmgr_text) [] s1 = Some s2" "console_step s1 s2"
    by (rule literal_prints [OF tw1 lit1 core_texts(2,7)])
  have r2: "detection_ready s2 ty" "heap_wf s2 xs" using next_ready [OF 2(2) r1] by simp_all
  let ?s3 = "init_devices s2"
  have pa2: "parts_apart s2" using r2(1) by (simp add: detection_ready_def)
  then have off: "off_heap s2 (span (k_devs s2) 8)" by (simp add: parts_apart_def)
  note d3 = init_devices_wf [OF r2(2) off] and a3 = around_init_devices [OF pa2]
  have r3: "detection_ready ?s3 ty"
    using detection_ready_around [OF r2(1) a3] d3(2) [of 124] r2(1) by (simp add: detection_ready_def)
  then have tw3: "tty_wf ?s3" and pa3: "parts_apart ?s3"
    and lit3: "literal ?s3 (rodata ?s3 detect_text) (map of_char detect_text)" by (simp_all add: detection_ready_def)
  obtain s4 where 4: "kprintf (rodata ?s3 detect_text) [] ?s3 = Some s4" "console_step ?s3 s4"
    by (rule literal_prints [OF tw3 lit3 core_texts(3,8)])
  have u4: "unseen ?s3 s4" by (rule unseen_console [OF 4(2) pa3])
  obtain xs3 where hw3: "heap_wf ?s3 xs3" using d3(1) by (auto simp: devs_wf_def)
  have "heap_room 124 s4" using r3 unseen_heap(3) [OF u4 hw3] by (simp add: detection_ready_def)
  from detection_ready_around [OF r3 around_console [OF 4(2)] this] have r4: "detection_ready s4 ty" .
  have same: "port_in s4 = port_in s" "panics s4 = panics s"
    using around_console [OF 1(2)] around_console [OF 2(2)] a3 around_console [OF 4(2)] by (simp_all add: around_def)
  obtain s' dl where s': "init_floppy s4 = Some s'" "devs_wf s' dl" "drives_at s' dl (detected (port_in s4 0x71))"
    "alloc_wf s'" "tty_wf s'" "panics s' = panics s4"
    by (rule init_floppy_runs [OF r4 unseen_devices(1) [OF u4 d3(1)]])
  have "core s = Some s'"
    unfolding core_def core_text_def [symmetric] devmgr_text_def [symmetric] detect_text_def [symmetric]
    using 1(1) 2(1) 4(1) s'(1) by (simp add: Let_def)
  then show ?thesis using s' by (intro that [of s' dl]) (simp_all add: same)
qed

text \<open>C4: The first process, once the kernel is up: it prints, makes the device list, asks the CMOS for
  the floppy drives and reaches its final loop without a panic. Then the list holds exactly one device for
  each drive that the CMOS byte reports, in reverse order, each with its info block, and the
  invariants of heap, device list, page allocator and terminal hold.\<close>

theorem core_detects_floppies:
  assumes ready: "detection_ready s ty" and heap: "heap_wf s xs"
  shows "\<exists>s' dl. core s = Some s' \<and> devs_wf s' dl
    \<and> list_all2 (\<lambda>d (f, name, minor). drive_at s' dl d f name minor) dl (detected (port_in s 0x71))
    \<and> alloc_wf s' \<and> tty_wf s' \<and> panics s' = panics s"
  by (rule core_runs [OF assms]) (auto simp: drives_at_def)

end
