(* ===== verification/Sample_Hardware.thy ===== *)
theory Sample_Hardware
  imports Sample_Test Hardware
begin

text \<open>
  The first process on the sample machine: the heap is empty, the CMOS reports a 1.44 MB drive and no
  second one, and the literals lie in the read-only data.
\<close>

definition drive_name :: string where "drive_name = ''1.44mb 3.5in''"

definition hardware_texts :: "string list" where
  "hardware_texts = [core_text, devmgr_text, detect_text, floppy_text, brk_text, new_brk_text, ''floppy0'', drive_name]"

definition hardware_table :: "(string \<times> u32) list" where
  "hardware_table = zip hardware_texts
     [0xC0120000, 0xC0120100, 0xC0120200, 0xC0120300, 0xC0120400, 0xC0120500, 0xC0120600, 0xC0120700]"

definition sample_hardware :: devices where
  "sample_hardware = sample_heap\<lparr>rodata := (\<lambda>t. case map_of hardware_table t of None \<Rightarrow> 0 | Some a \<Rightarrow> a),
     mem := poke_table hardware_table (mem sample_heap), port_in := \<lambda>_. 0x40, floppydev_types := replicate 5 0xC0120700\<rparr>"

lemma hardware_table_facts:
  "list_all (\<lambda>(t, a). map_of hardware_table t = Some a \<and> length t \<le> 80 \<and> 0 \<notin> (of_char ` set t :: u8 set)) hardware_table"
  "list_all (\<lambda>(t, a). 0xC0120000 \<le> a \<and> a \<le> 0xC0120700 \<and> length t \<le> 80) hardware_table"
  "sorted_wrt (\<lambda>(_, a) (_, b). apart a 81 b 81) hardware_table" "map fst hardware_table = hardware_texts"
  by (simp_all add: hardware_table_def hardware_texts_def core_text_def devmgr_text_def detect_text_def floppy_text_def
      brk_text_def new_brk_text_def drive_name_def apart_def)

lemma hardware_table_bytes:
  assumes "(t, a) \<in> set hardware_table" "b \<in> span a (Suc (length t))"
  shows "0xC0120000 \<le> unat b" "unat b < 0xC0120800"
proof -
  have "length t \<le> 80" "0xC0120000 \<le> unat a" "unat a \<le> 0xC0120700"
    using assms(1) hardware_table_facts(2) by (auto simp: list_all_iff word_le_nat_alt)
  then show "0xC0120000 \<le> unat b" "unat b < 0xC0120800" using assms(2) span_nat_iff [of a "Suc (length t)" b] by simp_all
qed

lemma sample_hardware_fields:
  "screen sample_hardware = span 0xB8000 4000" "tty_wf sample_hardware" "k_devs sample_hardware = 0xC01F0030"
  "heap_base sample_hardware = 0xC0201000" "heap_brk sample_hardware = 0xC0201000" "brk_max sample_hardware = 0xFFBFC000"
  "chain_hd sample_hardware = 0xC01F0000" "k_page_bitmap sample_hardware = \<lparr>bm_base = 0xC0200000, bm_limit = 8192\<rparr>"
  "port_in sample_hardware 0x71 = 0x40" "floppydev_types sample_hardware = replicate 5 0xC0120700"
  by (simp_all add: screen_def tty_wf_def sample_hardware_def sample_heap_def init_heap_only sample_def)

lemma sample_apart_byte:
  "apart_byte sample_hardware b \<longleftrightarrow> b \<notin> span 0xC01F0000 8 \<and> b \<noteq> 16 \<and> \<not> (0xC0201000 \<le> unat b \<and> unat b < 0xFFBFC000)
     \<and> b \<notin> span 0xB8000 4000 \<and> b \<notin> span 0xC01F0030 8"
  by (auto simp: apart_byte_def off_heap_def sample_hardware_fields)

lemma sample_hardware_text:
  assumes "t \<in> set hardware_texts"
  shows "literal sample_hardware (rodata sample_hardware t) (map of_char t)"
    "span (rodata sample_hardware t) (Suc (length t)) \<inter> bitmap_bytes (k_page_bitmap sample_hardware) = {}"
proof -
  have t: "t \<in> fst ` set hardware_table" using assms by (simp only: hardware_table_facts(4) flip: set_map)
  from poke_table_cstring [OF hardware_table_facts(1,3) t, of "mem sample_heap"] obtain a where m: "(t, a) \<in> set hardware_table"
    and f: "map_of hardware_table t = Some a" "length t \<le> 80" and c: "cstring (poke_table hardware_table (mem sample_heap)) a (map of_char t)" .
  have r: "rodata sample_hardware t = a" using f(1) by (simp add: sample_hardware_def)
  have b: "0xC0120000 \<le> unat b \<and> unat b < 0xC0120800" if "b \<in> span a (Suc (length t))" for b
    using hardware_table_bytes [OF m that] by simp
  have "apart_byte sample_hardware x" if "x \<in> span a (Suc (length t))" for x
    using b [OF that] by (auto simp: sample_apart_byte span_nat_iff)
  then show "literal sample_hardware (rodata sample_hardware t) (map of_char t)"
    using c f(2) by (simp add: literal_def r) (simp add: sample_hardware_def)
  show "span (rodata sample_hardware t) (Suc (length t)) \<inter> bitmap_bytes (k_page_bitmap sample_hardware) = {}"
    using b by (fastforce simp: r sample_hardware_fields bitmap_bytes_def span_nat_iff)
qed

lemma sample_hardware_mem:
  assumes "\<not> (0xC0120000 \<le> unat b \<and> unat b < 0xC0120800)"
  shows "mem sample_hardware b = mem sample_heap b"
proof -
  have "b \<notin> span a (Suc (length t))" if "(t, a) \<in> set hardware_table" for t a
    using hardware_table_bytes [OF that, of b] assms by blast
  then have "poke_table hardware_table (mem sample_heap) b = mem sample_heap b" by (intro poke_table_outside) blast
  then show ?thesis by (simp only: sample_hardware_def) simp
qed

lemma sample_hardware_wf: "heap_wf sample_hardware []" "alloc_wf sample_hardware"
proof -
  have "mem sample_hardware b = mem sample_heap b" if "b \<in> span (chain_hd sample_heap) 8" for b
    using that by (intro sample_hardware_mem) (auto simp: sample_heap_wf(4) span_nat_iff)
  then show "heap_wf sample_hardware []"
    by (intro heap_wf_frame [OF sample_heap_wf(1), of "mem sample_hardware"]) (auto simp: sample_hardware_def)
  show "alloc_wf sample_hardware"
  proof (rule alloc_wf_cong [OF sample_alloc_wf])
    show "mem sample_hardware b = mem sample b" if "b \<in> bitmap_bytes (k_page_bitmap sample)" for b
    proof -
      have b: "0xC0200000 \<le> unat b" using that by (simp add: bitmap_bytes_def span_nat_iff)
      then have "mem sample_hardware b = mem sample_heap b" by (intro sample_hardware_mem) simp
      also have "\<dots> = mem sample b"
        using b by (simp add: sample_heap_def init_heap_only list_head_outside span_nat_iff del: sample_fields(1))
      finally show ?thesis .
    qed
  qed (simp_all add: sample_hardware_def sample_heap_def init_heap_only)
qed

lemma sample_detected: "detected 0x40 = [(4, ''floppy0'', 0)]"
  by (simp add: detected_def found_def Let_def)

lemma sample_detection: "detection_ready sample_hardware (\<lambda>_. map of_char drive_name)"
proof -
  have "parts_apart sample_hardware"
    unfolding parts_apart_def off_heap_def sample_apart_byte sample_hardware_fields
    by (auto simp: bitmap_bytes_def span_nat_iff)
  moreover have "heap_room 124 sample_hardware" by (simp add: heap_room_def sample_hardware_fields)
  moreover have "rodata sample_hardware drive_name = 0xC0120700"
    by (simp add: sample_hardware_def hardware_table_def hardware_texts_def core_text_def devmgr_text_def detect_text_def
        floppy_text_def brk_text_def new_brk_text_def drive_name_def)
  then have "names_ready sample_hardware (\<lambda>_. map of_char drive_name) (4, ''floppy0'', 0)"
    using sample_hardware_text(1) [of "''floppy0''"] sample_hardware_text(1) [of drive_name]
    by (simp add: names_ready_def hardware_texts_def sample_hardware_fields)
  moreover have "literal sample_hardware (rodata sample_hardware t) (map of_char t)
      \<and> span (rodata sample_hardware t) (Suc (length t)) \<inter> bitmap_bytes (k_page_bitmap sample_hardware) = {}"
    if "t \<in> {core_text, devmgr_text, detect_text, floppy_text, brk_text, new_brk_text}" for t
    using sample_hardware_text [of t] that by (auto simp: hardware_texts_def)
  ultimately show ?thesis
    using sample_hardware_wf(2) sample_hardware_fields(2)
    by (simp add: detection_ready_def sample_hardware_fields sample_detected del: replicate.simps)
qed

theorem core_detects_floppies_witness:
  "\<exists>s' d. core sample_hardware = Some s' \<and> devs_wf s' [d] \<and> drive_at s' [d] d 4 ''floppy0'' 0"
  using core_detects_floppies [OF sample_detection sample_hardware_wf(1)]
  by (auto simp: sample_hardware_fields sample_detected list_all2_Cons2)

end
