(* ===== verification/Startup.thy ===== *)
theory Startup
  imports Hardware
begin

text \<open>
  From the loader's state to the drives found: \<^verbatim>\<open>main\<close> reaches its final loop, the first timer
  interrupt switches to the process that \<^verbatim>\<open>main\<close> has created, and that process, entered with a fresh
  context, runs \<^verbatim>\<open>core\<close>.
\<close>

section \<open>The first switch\<close>

text \<open>The first call of \<^verbatim>\<open>schedule\<close> finds no current process: it reads the state of a process at
  address 0, and the old context, pushed on the stack in use, is saved in no process.\<close>

lemma first_schedule:
  assumes wf: "procs_wf s [p]" and cur: "current s = 0" and on: "is_kernel_preempt s \<noteq> 0" "pcount s \<noteq> 0"
    and v: "p_state (mem s) p = PROC_READY" "0 < p_ticks (mem s) p" and null: "p_state (mem s) 0 \<noteq> PROC_RUNNING"
    and frame: "frame_at (mem s) (p_esp (mem s) p) (start_words p proc)" "span p 84 \<inter> span (p_esp (mem s) p) 64 = {}"
    and stack: "stack_clear s [p]" "span (esp (cpu s) - 64) 64 \<inter> span (p_esp (mem s) p) 64 = {}"
  obtains m where "schedule s = Some (True, s\<lparr>ports := ports s @ [(0x20, 0x20)], mem := m, current := p,
      cpu := start_regs (p_esp (mem s) p + 60) proc\<rparr>)"
    "procs_wf (s\<lparr>mem := m\<rparr>) [p]" "view m p = account ((view (mem s) p)\<lparr>v_state := PROC_RUNNING\<rparr>)"
    "\<And>b. b \<notin> span p 84 \<Longrightarrow> b \<notin> span (esp (cpu s) - 64) 64 \<Longrightarrow> m b = mem s b"
    "load32 m (p_esp (mem s) p + 60) = p"
proof -
  let ?S = "span (esp (cpu s) - 64) 64" and ?F = "p_esp (mem s) p"
  have pm: "procs_mem (mem s) (proc_hd s) [p]" using wf by (simp add: procs_wf_def)
  then have p0: "p \<noteq> 0" by (simp add: procs_mem_def procs_apart_def)
  define m1 where "m1 = account_ticks p (set_p_state p PROC_RUNNING (mem s))"
  have up: "update_timeouts s = Some s" using update_timeouts_eq [OF wf] v(1) by (simp add: update_timeout_def)
  have el: "eligible (view (mem s) p)" using v by (simp add: eligible_def view_sels)
  have sel: "select_next_process s = Some (p, s)"
    using p0 el by (simp add: select_next_process.simps find_ready_eq [OF wf])
  let ?s1 = "s\<lparr>ports := ports s @ [(0x20, 0x20)], mem := m1\<rparr>"
  have sch: "schedule s = Some (True, call_switchTo p ?s1)"
    using on cur null up sel by (simp add: schedule_def outportb_def m1_def)
  have loc: "local_to p (mem s) m1"
    unfolding m1_def by (rule local_trans [OF local_sets(5)]) (rule actsD(1) [OF acts_account])
  have pm1: "procs_mem m1 (proc_hd s) [p]" using procs_mem_local [OF pm _ loc] by simp
  have view1: "view m1 p = account ((view (mem s) p)\<lparr>v_state := PROC_RUNNING\<rparr>)"
    using actsD(2) [OF acts_account, of p] actsD(2) [OF acts_state [of PROC_RUNNING], of p "mem s"] by (simp add: m1_def)
  have out1: "m1 b = mem s b" if "b \<notin> span p 84" for b using local_off [OF loc, of "[p]" b] that by simp
  have esp1: "p_esp m1 p = ?F"
    by (simp add: m1_def account_ticks_def Let_def p_field_defs set_p_defs mem_frame apart_def)
  obtain m where cs: "call_switchTo p ?s1 = ?s1\<lparr>mem := m, current := p, cpu := restore_regs m (p_esp m p)\<rparr>"
    and same: "\<And>b. b \<notin> ?S \<Longrightarrow> m b = m1 b"
    using call_switchTo_effect [of ?s1 p] cur by auto
  have pS: "b \<notin> ?S" if "b \<in> span p 84" for b using stack(1) that unfolding stack_clear_def by auto
  have hS: "b \<notin> ?S" if "b \<in> span (proc_hd s) 8" for b using stack(1) that unfolding stack_clear_def by auto
  have fS: "m b = mem s b" if "b \<in> span ?F 64" for b
  proof -
    have "b \<notin> ?S" "b \<notin> span p 84" using that stack(2) frame(2) by blast+
    then show ?thesis by (simp add: same out1)
  qed
  have esp: "p_esp m p = ?F"
  proof -
    have "m b = m1 b" if "b \<in> span p 4" for b using span_mono [OF that, of 84] by (intro same pS) simp
    then show ?thesis using load32_cong [of p m m1] esp1 by (simp add: p_esp_def)
  qed
  have "frame_at m ?F (start_words p proc)"
    by (rule frame_cong [OF frame(1)]) (use fS in \<open>simp_all add: start_words_def\<close>)
  note r = restore_start [OF this]
  have "procs_mem m (proc_hd s) [p]"
  proof (rule procs_mem_cong [OF pm1])
    show "m b = m1 b" if "b \<in> span (proc_hd s) 8" for b using that by (intro same hS)
    show "m b = m1 b" if "q \<in> set [p]" "b \<in> span (q + 24) 8" for q b
      using that span_offset [of b p 24 8 84] by (intro same pS) simp
  qed
  moreover have "view m p = view m1 p"
  proof (rule view_cong_tail)
    show "m b = m1 b" if "b \<in> span (p + 64) 20" for b
      using span_offset [OF that, of 84] by (intro same pS) simp
  qed
  ultimately show ?thesis
    using sch cs esp r same out1 by (intro that [of m]) (simp_all add: procs_wf_def view1)
qed

section \<open>The first timer interrupt\<close>

text \<open>The 64 bytes below the stack pointer at which \<^verbatim>\<open>schedule\<close> is called: on the stack that the
  loader gave to \<^verbatim>\<open>main\<close>, which lies in the image, apart from the variables.\<close>

definition boot_stack :: "'a system_scheme \<Rightarrow> u32 \<Rightarrow> bool" where
  "boot_stack s e \<longleftrightarrow> in_image s (e - 64, 64) \<and> (\<forall>r \<in> set (boot_vars s). separate (e - 64, 64) r)"

text \<open>The byte that \<^verbatim>\<open>schedule\<close> takes for the state of the process at address 0.\<close>

definition null_quiet :: "'a system_scheme \<Rightarrow> bool" where
  "null_quiet s \<longleftrightarrow> image_rest s 64 \<and> mem s 64 \<noteq> PROC_RUNNING"

lemma boot_stack_rest: "boot_stack s e \<Longrightarrow> b \<in> span (e - 64) 64 \<Longrightarrow> image_rest s b"
  using in_imageD [of s "(e - 64, 64)" b] by (auto simp: boot_stack_def image_rest_def separate_def)

lemma booted_bounds:
  assumes "loaded s" "booted s core_entry p xs t"
  shows "b \<in> span p 84 \<Longrightarrow> unat (KERNEL_END s) + 4116 \<le> unat b \<and> unat b < unat (KERNEL_END s) + 4200"
    "b \<in> span (p_esp (mem t) p) 64 \<Longrightarrow> unat (KERNEL_END s) + 8255 \<le> unat b"
proof -
  have K: "unat (KERNEL_END s) < 0xFFBF0000" using assms(1) by (simp add: loaded_def word_less_nat_alt)
  have b: "unat p = unat (KERNEL_END s) + 4116" "unat (heap_brk t) = unat (KERNEL_END s) + 8316"
    "p_esp (mem t) p = heap_brk t - 61" using assms(2) by (simp_all add: booted_def algebra_simps)
  show "unat (KERNEL_END s) + 4116 \<le> unat b \<and> unat b < unat (KERNEL_END s) + 4200" if "b \<in> span p 84"
    using that K b(1) by (subst (asm) span_nat_iff) simp_all
  have "unat (p_esp (mem t) p) = unat (KERNEL_END s) + 8255" using b(2) by (simp add: b(3) unat_minus_cases)
  then show "unat (KERNEL_END s) + 8255 \<le> unat b" if "b \<in> span (p_esp (mem t) p) 64"
    using that K by (subst (asm) span_nat_iff) simp_all
qed

lemma first_tick:
  assumes ld: "loaded s" and bt: "booted s core_entry p xs t" and null: "null_quiet s"
    and st: "boot_stack s (esp c)" and r: "int_no r = 32"
  obtains m where "irq_handler r (t\<lparr>cpu := c\<rparr>) = Some (True, t\<lparr>ports := ports t @ [(0x20, 0x20)], mem := m, current := p,
      cpu := start_regs (heap_brk t - 1) core_entry\<rparr>)"
    "procs_wf (t\<lparr>mem := m\<rparr>) [p]" "view m p = \<lparr>v_state = PROC_RUNNING, v_ticks = 99, v_timeout = 0, v_tt = 1\<rparr>"
    "\<And>b. b \<notin> span p 84 \<Longrightarrow> b \<notin> span (esp c - 64) 64 \<Longrightarrow> m b = mem t b" "load32 m (heap_brk t - 1) = p"
proof -
  let ?t = "t\<lparr>cpu := c\<rparr>"
  have v: "view (mem t) p = \<lparr>v_state = PROC_READY, v_ticks = 100, v_timeout = 0, v_tt = 0\<rparr>" and top: "p_esp (mem t) p + 60 = heap_brk t - 1"
    and on: "is_kernel_preempt t = 1" "pcount t = 1" and cur: "current t = 0" and wf: "procs_wf t [p]"
    and fr: "frame_at (mem t) (p_esp (mem t) p) (start_words p core_entry)" and hd: "proc_hd t = proc_hd s"
    and rt: "k_irq_routines t = (k_irq_routines s)[0 := Timer_Handler, 1 := Press]"
    and rest: "\<And>b. image_rest s b \<Longrightarrow> mem t b = mem s b" using bt by (simp_all add: booted_def)
  have vp: "p_state (mem t) p = PROC_READY" "0 < p_ticks (mem t) p" using v by (simp_all add: view_def)
  note bd = booted_bounds [OF ld bt]
  have low: "17 \<le> unat b \<and> unat b < unat (KERNEL_END s)" if "b \<in> span (esp c - 64) 64" for b
    using boot_stack_rest [OF st that] by (simp add: image_rest_def)
  have "span (proc_hd s) 8 \<inter> span (esp c - 64) 64 = {}"
    using boot_stack_rest [OF st] by (auto simp: image_rest_def boot_vars_def)
  moreover have "span p 84 \<inter> span (esp c - 64) 64 = {}" using bd(1) low by fastforce
  ultimately have sc: "stack_clear ?t [p]" by (simp add: stack_clear_def hd)
  have fs: "span (esp c - 64) 64 \<inter> span (p_esp (mem t) p) 64 = {}" using bd(2) low by fastforce
  have fp: "span p 84 \<inter> span (p_esp (mem t) p) 64 = {}" using bd by fastforce
  have low_state: "p_state (mem t) 0 \<noteq> PROC_RUNNING"
    using rest [of 64] null by (simp add: p_state_def null_quiet_def)
  obtain m where m: "schedule ?t = Some (True, ?t\<lparr>ports := ports t @ [(0x20, 0x20)], mem := m, current := p,
      cpu := start_regs (p_esp (mem t) p + 60) core_entry\<rparr>)"
    "procs_wf (?t\<lparr>mem := m\<rparr>) [p]" "view m p = account ((view (mem t) p)\<lparr>v_state := PROC_RUNNING\<rparr>)"
    and out: "\<And>b. b \<notin> span p 84 \<Longrightarrow> b \<notin> span (esp c - 64) 64 \<Longrightarrow> m b = mem t b"
    and ret: "load32 m (p_esp (mem t) p + 60) = p"
    using first_schedule [of ?t p core_entry] wf cur on vp low_state fr fp sc fs
    by (auto simp: procs_wf_def is_kernel_preempt_def)
  have "length (k_irq_routines s) = 16" using ld by (simp add: loaded_def)
  then have "irq_handler r ?t = schedule ?t"
    using m(1) r by (simp add: irq_handler_def rt nth_list_update call_routine_def timer_handler_def)
  then show ?thesis using m out ret v top
    by (intro that [of m]) (simp_all add: procs_wf_def account_def)
qed

text \<open>C3: The first timer interrupt after \<^verbatim>\<open>main\<close>, whatever the registers it finds, as long as the stack
  pointer is on the stack of \<^verbatim>\<open>main\<close>: \<^verbatim>\<open>irq_handler\<close> calls the timer's handler, and that switches to
  the process that \<^verbatim>\<open>main\<close> has created, which enters its function with interrupts on and its own
  \<^verbatim>\<open>process_t\<close> for a return address. It is the current process then, marked running, with a tick spent,
  in a well-formed list.\<close>

theorem first_tick_starts_core:
  assumes ld: "loaded s" and null: "null_quiet s" and st: "boot_stack s (esp c)" and r: "int_no r = 32"
  shows "\<exists>s1 p s2. main core_entry s = Some s1 \<and> irq_handler r (s1\<lparr>cpu := c\<rparr>) = Some (True, s2)
    \<and> current s2 = p \<and> eip (cpu s2) = core_entry \<and> bit (eflags (cpu s2)) 9 \<and> load32 (mem s2) (esp (cpu s2)) = p
    \<and> procs_wf s2 [p] \<and> view (mem s2) p = \<lparr>v_state = PROC_RUNNING, v_ticks = 99, v_timeout = 0, v_tt = 1\<rparr>
    \<and> ports s2 = ports s1 @ [(0x20, 0x20)]"
proof -
  obtain s1 p xs where 1: "main core_entry s = Some s1" and bt: "booted s core_entry p xs s1"
    by (rule main_booted [OF ld])
  obtain m where m: "irq_handler r (s1\<lparr>cpu := c\<rparr>) = Some (True, s1\<lparr>ports := ports s1 @ [(0x20, 0x20)], mem := m, current := p,
      cpu := start_regs (heap_brk s1 - 1) core_entry\<rparr>)" (is "_ = Some (True, ?s2)")
    "procs_wf (s1\<lparr>mem := m\<rparr>) [p]" "view m p = \<lparr>v_state = PROC_RUNNING, v_ticks = 99, v_timeout = 0, v_tt = 1\<rparr>"
    "load32 m (heap_brk s1 - 1) = p"
    by (rule first_tick [OF ld bt null st r])
  have "bit (0x202 :: u32) 9" by (simp add: bit_numeral_rec)
  then show ?thesis
    using 1 m by (intro exI [of _ s1] exI [of _ p] exI [of _ ?s2]) (simp add: start_regs_def procs_wf_def)
qed

section \<open>From the loader to the drives\<close>

text \<open>What \<^verbatim>\<open>core\<close> needs of the image: the head of the device list, the literals and the names, apart
  from the other variables, from each other's and from the stack.\<close>

definition text_loaded :: "'a devices_scheme \<Rightarrow> u32 \<Rightarrow> u32 \<Rightarrow> u8 list \<Rightarrow> bool" where
  "text_loaded s e p bs \<longleftrightarrow> cstring (mem s) p bs \<and> length bs < 4294967295
     \<and> (\<forall>b \<in> span p (Suc (length bs)). image_rest s b \<and> b \<notin> span (k_devs s) 8 \<and> b \<notin> span (e - 64) 64)"

definition core_literals :: "string list" where
  "core_literals = [core_text, devmgr_text, detect_text, floppy_text, brk_text, new_brk_text]"

definition drives_loaded :: "'a devices_scheme \<Rightarrow> u32 \<Rightarrow> (u16 \<Rightarrow> u8 list) \<Rightarrow> bool" where
  "drives_loaded s e ty \<longleftrightarrow> in_image s (k_devs s, 8) \<and> (\<forall>r \<in> set (boot_vars s). separate (k_devs s, 8) r)
     \<and> (\<forall>t \<in> set core_literals. text_loaded s e (rodata s t) (map of_char t))
     \<and> (\<forall>(f, name, minor) \<in> set (detected (port_in s 0x71)). unat f < length (floppydev_types s)
          \<and> text_loaded s e (rodata s name) (map of_char name) \<and> text_loaded s e (floppydev_types s ! unat f) (ty f))"

lemma more_devices:
  fixes s t :: "'a devices_scheme"
  assumes "system.more s = system.more t"
  shows "k_devs s = k_devs t" "floppydev_types s = floppydev_types t"
  using assms by (cases s, cases t, simp)+

lemma drives_head_rest:
  assumes "drives_loaded s e ty" "b \<in> span (k_devs s) 8"
  shows "image_rest s b"
proof -
  have "in_image s (k_devs s, 8)" "\<forall>r \<in> set (boot_vars s). separate (k_devs s, 8) r" using assms(1) by (simp_all add: drives_loaded_def)
  then show ?thesis using in_imageD [of s "(k_devs s, 8)" b] assms(2) by (auto simp: image_rest_def separate_def)
qed

lemma rest_apart: "image_rest s b \<Longrightarrow> b \<notin> screen s \<and> b \<notin> span (chain_hd s) 8"
  by (simp add: image_rest_def boot_vars_def screen_def)

text \<open>The state that the first timer interrupt leaves, seen from the hardware detection.\<close>

lemma started_ready:
  fixes s t :: "'a devices_scheme" and pt :: "(u32 \<times> u8) list" and rg :: cpu_regs
  assumes ld: "loaded s" and bt: "booted s core_entry p xs t" and st: "boot_stack s (esp c)" and dr: "drives_loaded s (esp c) ty"
    and out: "\<And>b. b \<notin> span p 84 \<Longrightarrow> b \<notin> span (esp c - 64) 64 \<Longrightarrow> m b = mem t b"
  defines "u \<equiv> t\<lparr>ports := pt, mem := m, current := p, cpu := rg\<rparr>"
  shows "heap_wf u xs" "detection_ready u ty"
proof -
  have K: "unat (KERNEL_END s) < 0xFFBF0000" using ld by (simp add: loaded_def word_less_nat_alt)
  have u4: "unat (KERNEL_END s + 4096) = unat (KERNEL_END s) + 4096" using K unat_plus_small [of "KERNEL_END s" 4096] by simp
  have f: "rodata t = rodata s" "screen t = screen s" "chain_hd t = chain_hd s" "heap_base t = KERNEL_END s + 4096"
    "brk_max t = 0xFFBFC000" "k_page_bitmap t = \<lparr>bm_base = KERNEL_END s, bm_limit = 8192\<rparr>" "port_in t = port_in s"
    "k_devs t = k_devs s" "floppydev_types t = floppydev_types s"
    and hw: "heap_wf t xs" and own: "\<exists>k \<ge> 84. (p, k) \<in> heap_owned t" and al: "alloc_wf t" and tw: "tty_wf t"
    and brk: "unat (heap_brk t) = unat (KERNEL_END s) + 8316" and rest: "\<And>b. image_rest s b \<Longrightarrow> mem t b = mem s b"
    using bt more_devices [of t s] by (simp_all add: booted_def)
  have g: "rodata u = rodata s" "screen u = screen s" "k_devs u = k_devs s" "floppydev_types u = floppydev_types s" "mem u = m"
    "port_in u = port_in s" "k_page_bitmap u = k_page_bitmap t" "off_heap u = off_heap t" "heap_brk u = heap_brk t" "brk_max u = brk_max t"
    using f by (simp_all add: u_def screen_def off_heap_def fun_eq_iff)
  have ap: "off_heap t {b}" if "17 \<le> unat b" "unat b < unat (KERNEL_END s) + 4096" "b \<notin> span (chain_hd s) 8" for b
    using that u4 by (auto simp: off_heap_def f)
  have so: "off_heap t {b}" if "b \<in> span (esp c - 64) 64" for b
    using boot_stack_rest [OF st that] by (intro ap) (auto simp: image_rest_def boot_vars_def)
  have w: "off_heap t {b} \<or> (\<exists>(q, j) \<in> heap_owned t. b \<in> span q j)" if "m b \<noteq> mem t b" for b
    using out [of b] that so [of b] own span_mono [of b p 84] by blast
  note cw = heap_client_write [OF hw, of m, OF w]
  then show "heap_wf u xs" by (simp add: u_def heap_wf_def heap_shape_def)
  have low: "m b = mem s b" if "image_rest s b" "b \<notin> span (esp c - 64) 64" for b
    using out [of b] rest [OF that(1)] that booted_bounds(1) [OF ld bt, of b] by (fastforce simp: image_rest_def)
  have ab: "apart_byte u b" if "image_rest s b" "b \<notin> span (k_devs s) 8" for b
    using that ap [of b] rest_apart [OF that(1)] by (auto simp: apart_byte_def g image_rest_def)
  have lit: "literal u a bs \<and> span a (Suc (length bs)) \<inter> bitmap_bytes (k_page_bitmap u) = {}" if tl: "text_loaded s (esp c) a bs" for a bs
  proof -
    have i: "image_rest s b \<and> b \<notin> span (k_devs s) 8 \<and> b \<notin> span (esp c - 64) 64" if "b \<in> span a (Suc (length bs))" for b
      using tl that by (simp add: text_loaded_def)
    have "cstring m a bs = cstring (mem s) a bs" using tl i low by (intro cstring_cong) (auto simp: text_loaded_def)
    then have "literal u a bs" using tl i ab by (simp add: literal_def g text_loaded_def)
    moreover have "b \<notin> bitmap_bytes (k_page_bitmap u)" if "b \<in> span a (Suc (length bs))" for b
      using i [OF that] loaded_bitmap(1) [OF ld, of b] by (auto simp: g f image_rest_def)
    ultimately show ?thesis by blast
  qed
  have bm: "apart_byte u b" "m b = mem t b" if "b \<in> bitmap_bytes (k_page_bitmap t)" for b
  proof -
    have b: "unat (KERNEL_END s) \<le> unat b" "unat b < unat (KERNEL_END s) + 1024" using loaded_bitmap [OF ld, of b] that by (simp_all add: f)
    have img: "17 \<le> unat x \<and> unat x < unat (KERNEL_END s)" if "x \<in> screen s \<or> x \<in> span (chain_hd s) 8" for x
      using loaded_image [OF ld, of x] that by blast
    have "17 \<le> unat (KERNEL_END s)" using img [of "chain_hd s"] by (simp add: self_in_span)
    moreover have "b \<notin> span (k_devs s) 8" using drives_head_rest [OF dr, of b] b(1) by (auto simp: image_rest_def)
    moreover have "b \<notin> screen s" "b \<notin> span (chain_hd s) 8" using img [of b] b(1) by auto
    ultimately show "apart_byte u b" using ap [of b] b by (simp add: apart_byte_def g)
    have "b \<notin> span (esp c - 64) 64" using boot_stack_rest [OF st, of b] b(1) by (auto simp: image_rest_def)
    then show "m b = mem t b" using out [of b] booted_bounds(1) [OF ld bt, of b] b(2) by fastforce
  qed
  have "alloc_wf u" by (rule alloc_wf_cong [OF al]) (use bm(2) in \<open>simp_all add: u_def\<close>)
  moreover have "parts_apart u"
  proof -
    have each: "off_heap t R" if "\<And>b. b \<in> R \<Longrightarrow> off_heap t {b}" for R using that by (auto simp: off_heap_def)
    have "off_heap t (screen s)"
      by (rule each, rule ap) (use loaded_image [OF ld] loaded_apart(1) [OF ld] in fastforce)+
    moreover have "off_heap t (span (k_devs s) 8)"
      by (rule each, rule ap) (use drives_head_rest [OF dr] rest_apart in \<open>fastforce simp: image_rest_def\<close>)+
    moreover have "screen s \<inter> span (k_devs s) 8 = {}" using drives_head_rest [OF dr] rest_apart by blast
    ultimately show ?thesis using bm(1) by (simp add: parts_apart_def g)
  qed
  moreover have "heap_room 124 u" using K by (simp add: heap_room_def g brk f)
  moreover have "tty_wf u" using tw by (simp add: u_def tty_wf_def)
  moreover have "literal u (rodata u x) (map of_char x)
      \<and> span (rodata u x) (Suc (length x)) \<inter> bitmap_bytes (k_page_bitmap u) = {}" if "x \<in> set core_literals" for x
    using lit [of "rodata s x" "map of_char x"] dr that by (simp add: drives_loaded_def g(1))
  moreover have "names_ready u ty x \<and> unat (fst x) < length (floppydev_types u)" if "x \<in> set (detected (port_in u 0x71))" for x
    using lit dr that by (auto simp: drives_loaded_def names_ready_def g(1,4,6) split: prod.splits)
  ultimately show "detection_ready u ty"
    by (simp add: detection_ready_def core_literals_def)
qed

text \<open>C2: The whole start. On the loaded kernel \<^verbatim>\<open>main\<close> reaches its final loop; the first timer
  interrupt, whatever the registers it finds, as long as the stack pointer is on the stack of \<^verbatim>\<open>main\<close>,
  enters the function \<^verbatim>\<open>core\<close> in a process of its own; and \<^verbatim>\<open>core\<close> reaches its final loop with the
  device list holding one device for each drive that the CMOS reports. No step of the way panics, and at
  the end the invariants of heap, device list, page allocator and terminal hold together.\<close>

theorem start_finds_drives:
  fixes s :: "'a devices_scheme"
  assumes ld: "loaded s" and null: "null_quiet s" and st: "boot_stack s (esp c)" and r: "int_no r = 32"
    and dr: "drives_loaded s (esp c) ty"
  shows "\<exists>s1 s2 s3 dl. main core_entry s = Some s1 \<and> irq_handler r (s1\<lparr>cpu := c\<rparr>) = Some (True, s2)
    \<and> eip (cpu s2) = core_entry \<and> core s2 = Some s3 \<and> devs_wf s3 dl
    \<and> list_all2 (\<lambda>d (f, name, minor). drive_at s3 dl d f name minor) dl (detected (port_in s 0x71))
    \<and> alloc_wf s3 \<and> tty_wf s3 \<and> panics s3 = panics s"
proof -
  obtain s1 p xs where 1: "main core_entry s = Some s1" and bt: "booted s core_entry p xs s1"
    by (rule main_booted [OF ld])
  obtain m where 2: "irq_handler r (s1\<lparr>cpu := c\<rparr>) = Some (True, s1\<lparr>ports := ports s1 @ [(0x20, 0x20)], mem := m, current := p,
      cpu := start_regs (heap_brk s1 - 1) core_entry\<rparr>)" (is "_ = Some (True, ?s2)")
    and out: "\<And>b. b \<notin> span p 84 \<Longrightarrow> b \<notin> span (esp c - 64) 64 \<Longrightarrow> m b = mem s1 b"
    by (rule first_tick [OF ld bt null st r]) (rule that; assumption)
  note ready = started_ready [OF ld bt st dr out]
  obtain s3 dl where 3: "core ?s2 = Some s3" "devs_wf s3 dl" "drives_at s3 dl (detected (port_in ?s2 0x71))"
    "alloc_wf s3" "tty_wf s3" "panics s3 = panics ?s2" by (rule core_runs [OF ready(2,1)])
  have "port_in ?s2 = port_in s" "panics ?s2 = panics s" "eip (cpu ?s2) = core_entry"
    using bt by (simp_all add: booted_def start_regs_def)
  then show ?thesis using 1 2 3 unfolding drives_at_def by metis
qed

end
