(* ===== verification/Sample_Startup.thy ===== *)
theory Sample_Startup
  imports Sample_Hardware Startup
begin

text \<open>
  The whole start on the sample machine: the loaded kernel with the literals of \<^verbatim>\<open>core\<close> beside those of
  \<^verbatim>\<open>main\<close>, and a 1.44 MB drive. The timer interrupts \<^verbatim>\<open>main\<close> with its stack at 0xC0180000.
\<close>

definition sample_start :: devices where
  "sample_start = sample_loaded\<lparr>rodata := (\<lambda>t. case map_of hardware_table t of None \<Rightarrow> rodata sample_loaded t | Some a \<Rightarrow> a),
     mem := poke_table hardware_table (mem sample_loaded), port_in := \<lambda>_. 0x40, floppydev_types := replicate 5 0xC0120700\<rparr>"

definition timer_regs :: regs where
  "timer_regs = \<lparr>int_no = 32, err_code = 0, r_eax = 0, r_ebx = 0, r_ecx = 0, r_edx = 0, r_eip = 0, r_cs = 0\<rparr>"

definition main_regs :: cpu_regs where
  "main_regs = no_regs\<lparr>esp := 0xC0180000\<rparr>"

lemma sample_start_fields:
  "boot_vars sample_start = boot_vars sample_loaded" "KERNEL_END sample_start = 0xC0200000" "KERNEL_START sample_start = 0xC0100000"
  "tty_wf sample_start" "screen sample_start = span 0xB8000 4000" "eflags_mask sample_start = eflags_mask sample_loaded"
  "cpuid_leaf sample_start = cpuid_leaf sample_loaded" "k_irq_routines sample_start = k_irq_routines sample_loaded"
  "k_devs sample_start = 0xC01F0030" "port_in sample_start 0x71 = 0x40" "floppydev_types sample_start = replicate 5 0xC0120700"
  by (simp_all add: sample_start_def sample_loaded_def sample_boot_def sample_def boot_vars_def tty_wf_def screen_def)

lemma sample_start_mem:
  assumes "\<not> (0xC0120000 \<le> unat b \<and> unat b < 0xC0120800)"
  shows "mem sample_start b = mem sample_loaded b"
proof -
  have "b \<notin> span a (Suc (length t))" if "(t, a) \<in> set hardware_table" for t a
    using hardware_table_bytes [OF that, of b] assms by blast
  then have "poke_table hardware_table (mem sample_loaded) b = mem sample_loaded b" by (intro poke_table_outside) blast
  then show ?thesis by (simp only: sample_start_def) simp
qed

lemma tables_differ: "set hardware_texts \<inter> set boot_texts = {}"
  by (simp add: hardware_texts_def boot_texts_def core_text_def devmgr_text_def detect_text_def floppy_text_def brk_text_def
      new_brk_text_def drive_name_def banner_lines_def init_message_def preempt_message_def spawn_message_def)

lemma sample_start_loaded: "loaded sample_start"
proof -
  have ld: "loaded sample_loaded" by (rule sample_is_loaded)
  have f: "frame_of sample_start v = frame_of sample_loaded v" for v
  proof -
    have "mem sample_start b = mem sample_loaded b" if "b \<in> span (pte_addr v) 4" for b
    proof -
      have "0xFFC00000 \<le> unat b" using that page_bounds [of v] by (subst (asm) span_nat_iff) (simp_all add: unat_addrs)
      then show ?thesis by (intro sample_start_mem) simp
    qed
    then have "load32 (mem sample_start) (pte_addr v) = load32 (mem sample_loaded) (pte_addr v)" by (rule load32_cong)
    then show ?thesis by (simp only: frame_of_def)
  qed
  have r: "rodata sample_start t = rodata sample_loaded t" if "t \<in> set boot_texts" for t
  proof -
    have "t \<notin> fst ` set hardware_table" using tables_differ that hardware_table_facts(4) by (auto simp flip: set_map)
    then have "map_of hardware_table t = None" by (simp add: map_of_eq_None_iff)
    then show ?thesis by (simp add: sample_start_def)
  qed
  have "message_at sample_start t" if t: "t \<in> set boot_texts" for t
  proof -
    note m = sample_loaded_text [OF t]
    have "mem sample_start b = mem sample_loaded b" if "b \<in> span (rodata sample_loaded t) (Suc (length t))" for b
    proof -
      have "unat b < 0xC0120000" using that m by (subst (asm) span_nat_iff) simp_all
      then show ?thesis by (intro sample_start_mem) simp
    qed
    then have "cstring (mem sample_start) (rodata sample_loaded t) (map of_char t) =
        cstring (mem sample_loaded) (rodata sample_loaded t) (map of_char t)"
      using m(1) by (intro cstring_cong) (simp_all add: message_at_def)
    then show ?thesis using m(1) by (simp add: message_at_def r [OF t] sample_start_fields(5) sample_loaded_vars(5))
  qed
  moreover have "in_image sample_start = in_image sample_loaded" by (simp add: in_image_def fun_eq_iff sample_start_fields sample_loaded_vars)
  ultimately show ?thesis
    using ld r unfolding loaded_def by (simp add: sample_start_fields f sample_loaded_vars(2,3))
qed

lemma sample_image_rest: "image_rest sample_start b \<longleftrightarrow> 17 \<le> unat b \<and> unat b < 0xC0200000 \<and> b \<notin> span 0xB8000 4000
    \<and> b \<notin> span 0xC01F1800 6 \<and> b \<notin> span 0xC01F1000 2048 \<and> b \<notin> span 0xC01F0000 8 \<and> b \<notin> span 0xC01F0010 8
    \<and> b \<notin> span 0xC01F2000 283 \<and> b \<notin> span 0xC01F0020 8"
  by (simp add: image_rest_def sample_start_fields sample_loaded_vars)

lemma sample_start_text:
  assumes "t \<in> set hardware_texts"
  shows "text_loaded sample_start 0xC0180000 (rodata sample_start t) (map of_char t)"
proof -
  have t: "t \<in> fst ` set hardware_table" using assms by (simp only: hardware_table_facts(4) flip: set_map)
  from poke_table_cstring [OF hardware_table_facts(1,3) t, of "mem sample_loaded"] obtain a where m: "(t, a) \<in> set hardware_table"
    and f: "map_of hardware_table t = Some a" "length t \<le> 80"
    and c: "cstring (poke_table hardware_table (mem sample_loaded)) a (map of_char t)" .
  have r: "rodata sample_start t = a" using f(1) by (simp add: sample_start_def)
  have "image_rest sample_start b \<and> b \<notin> span 0xC01F0030 8 \<and> b \<notin> span 0xC017FFC0 64" if "b \<in> span a (Suc (length t))" for b
    using hardware_table_bytes [OF m that] by (auto simp: sample_image_rest span_nat_iff)
  then show ?thesis using c f(2) by (simp add: text_loaded_def r sample_start_fields) (simp add: sample_start_def)
qed

lemma sample_start_ready: "null_quiet sample_start" "boot_stack sample_start (esp main_regs)"
    "drives_loaded sample_start (esp main_regs) (\<lambda>_. map of_char drive_name)"
proof -
  have "64 \<notin> span a (Suc (length t))" if "(t, a) \<in> set boot_table" for t a
    using that boot_table_facts(1) by (subst span_nat_iff) (auto simp: list_all_iff word_le_nat_alt)
  then have "poke_table boot_table (\<lambda>_. 0) 64 = 0" by (intro poke_table_outside) blast
  moreover have "64 \<notin> span 0xFFF00400 4" "64 \<notin> span 0xFFF00800 4" by (simp_all add: span_nat_iff)
  then have "mem sample_loaded 64 = poke_table boot_table (\<lambda>_. 0) 64" by (simp add: sample_loaded_def store32_outside)
  ultimately have "mem sample_start 64 = 0" using sample_start_mem [of 64] by simp
  then show "null_quiet sample_start" by (simp add: null_quiet_def sample_image_rest span_nat_iff proc_state_defs)
  show "boot_stack sample_start (esp main_regs)"
    by (simp add: boot_stack_def main_regs_def in_image_def sample_start_fields sample_loaded_vars separate_nat)
  have "rodata sample_start drive_name = 0xC0120700"
    by (simp add: sample_start_def hardware_table_def hardware_texts_def core_text_def devmgr_text_def detect_text_def
        floppy_text_def brk_text_def new_brk_text_def drive_name_def)
  then have "text_loaded sample_start 0xC0180000 (floppydev_types sample_start ! 4) (map of_char drive_name)"
    using sample_start_text [of drive_name] by (simp add: hardware_texts_def sample_start_fields)
  moreover have "\<forall>t \<in> set core_literals. text_loaded sample_start 0xC0180000 (rodata sample_start t) (map of_char t)"
    using sample_start_text by (simp add: core_literals_def hardware_texts_def)
  moreover have "in_image sample_start (k_devs sample_start, 8)" "\<forall>r \<in> set (boot_vars sample_start). separate (k_devs sample_start, 8) r"
    by (simp_all add: in_image_def sample_start_fields sample_loaded_vars separate_nat)
  moreover have "text_loaded sample_start 0xC0180000 (rodata sample_start ''floppy0'') (map of_char ''floppy0'')"
    by (rule sample_start_text) (simp add: hardware_texts_def)
  moreover have "length (floppydev_types sample_start) = 5" "esp main_regs = 0xC0180000" by (simp_all add: sample_start_fields main_regs_def)
  ultimately show "drives_loaded sample_start (esp main_regs) (\<lambda>_. map of_char drive_name)"
    unfolding drives_loaded_def sample_start_fields(10) sample_detected by simp
qed

theorem first_tick_starts_core_witness:
  "\<exists>s1 s2. main 0xC0105000 sample_start = Some s1 \<and> irq_handler timer_regs (s1\<lparr>cpu := main_regs\<rparr>) = Some (True, s2)
    \<and> eip (cpu s2) = 0xC0105000"
  using first_tick_starts_core [OF sample_start_loaded sample_start_ready(1,2), of timer_regs "0xC0105000"]
  by (auto simp: timer_regs_def)

theorem start_finds_drives_witness:
  "\<exists>s1 s2 s3 d. main 0xC0105000 sample_start = Some s1 \<and> irq_handler timer_regs (s1\<lparr>cpu := main_regs\<rparr>) = Some (True, s2)
    \<and> core s2 = Some s3 \<and> devs_wf s3 [d] \<and> drive_at s3 [d] d 4 ''floppy0'' 0"
  using start_finds_drives [OF sample_start_loaded sample_start_ready(1,2) _ sample_start_ready(3), of timer_regs "0xC0105000"]
  by (auto simp: timer_regs_def sample_start_fields sample_detected list_all2_Cons2)

end
