(* ===== verification/Mutex.thy ===== *)
theory Mutex
  imports Sched_Run
begin

text \<open>
  The mutex of \<^verbatim>\<open>process/mutex.c\<close> under preemption. \<open>mutex_lock\<close> is the function run without
  an interruption; \<open>mutex_step\<close> is one C statement of it, and \<open>mstep\<close> interleaves the statements of
  all processes with timer interrupts, sleeps and their other work, on the machine's state. The lock
  excludes, since the check and the taking run with preemption off; and, as the kernel has no
  operation that unlocks, it is never passed on.
\<close>

section \<open>The function, uninterrupted\<close>

partial_function (option) mutex_spin :: "u32 \<Rightarrow> 'a kernel_scheme \<Rightarrow> 'a kernel_scheme option" where
  "mutex_spin x s =
     (if mx_state (mem s) x = MUTEX_LOCKED then mutex_spin x (mutex_wait s) else Some s)"

definition mutex_lock :: "u32 \<Rightarrow> 'a kernel_scheme \<Rightarrow> 'a kernel_scheme option" where
  "mutex_lock x s =
     (if is_kernel_preempt s = 0 then Some s
      else if mx_owner (mem s) x = get_current_process s \<and> mx_state (mem s) x = MUTEX_LOCKED then Some s
      else do {
        s \<leftarrow> mutex_spin x (disable_kernel_preempt s);
        let s = s\<lparr>mem := store8 (mem s) x MUTEX_LOCKED\<rparr>;
        let s = s\<lparr>mem := store32 (mem s) (x + 4) (get_current_process s)\<rparr>;
        Some (enable_kernel_preempt s)
      })"

section \<open>The function, by statements\<close>

text \<open>Where a process stands: outside, before each statement of \<^verbatim>\<open>mutex_lock\<close> and
  \<^verbatim>\<open>mutex_wait\<close>, or back from the call, with the lock or because preemption is off.\<close>

datatype mutex_pc = Outside | Test_Preempt | Test_Owner | Disable | Spin | Wait_Cli | Wait_Preempt
  | Wait_Sti | Take_State | Take_Owner | Enable | Locked | Unprotected

fun mutex_step :: "u32 \<Rightarrow> mutex_pc \<Rightarrow> 'a kernel_scheme \<Rightarrow> mutex_pc \<times> 'a kernel_scheme" where
  "mutex_step x Test_Preempt s = (if is_kernel_preempt s = 0 then Unprotected else Test_Owner, s)"
| "mutex_step x Test_Owner s =
     (if mx_owner (mem s) x = get_current_process s \<and> mx_state (mem s) x = MUTEX_LOCKED
      then Locked else Disable, s)"
| "mutex_step x Disable s = (Spin, disable_kernel_preempt s)"
| "mutex_step x Spin s = (if mx_state (mem s) x = MUTEX_LOCKED then Wait_Cli else Take_State, s)"
| "mutex_step x Wait_Cli s = (Wait_Preempt, disable_ints s)"
| "mutex_step x Wait_Preempt s = (Wait_Sti, enable_kernel_preempt s)"
| "mutex_step x Wait_Sti s = (Spin, enable_ints s)"
| "mutex_step x Take_State s = (Take_Owner, s\<lparr>mem := store8 (mem s) x MUTEX_LOCKED\<rparr>)"
| "mutex_step x Take_Owner s = (Enable, s\<lparr>mem := store32 (mem s) (x + 4) (get_current_process s)\<rparr>)"
| "mutex_step x Enable s = (Locked, enable_kernel_preempt s)"
| "mutex_step x Outside s = (Outside, s)"
| "mutex_step x Locked s = (Locked, s)"
| "mutex_step x Unprotected s = (Unprotected, s)"

definition returned :: "mutex_pc \<Rightarrow> bool" where
  "returned pc \<longleftrightarrow> pc \<in> {Outside, Locked, Unprotected}"

fun mutex_steps :: "nat \<Rightarrow> u32 \<Rightarrow> mutex_pc \<times> 'a kernel_scheme \<Rightarrow> mutex_pc \<times> 'a kernel_scheme" where
  "mutex_steps 0 x c = c"
| "mutex_steps (Suc n) x c = mutex_steps n x (mutex_step x (fst c) (snd c))"

lemmas mutex_effects = disable_kernel_preempt_def enable_kernel_preempt_def disable_ints_def enable_ints_def
  mutex_wait_def is_kernel_preempt_def get_current_process_def

lemma returned_simps [simp]:
  "returned Outside" "returned Locked" "returned Unprotected" "\<not> returned Test_Preempt"
  "\<not> returned Test_Owner" "\<not> returned Disable" "\<not> returned Spin" "\<not> returned Wait_Cli"
  "\<not> returned Wait_Preempt" "\<not> returned Wait_Sti" "\<not> returned Take_State" "\<not> returned Take_Owner"
  "\<not> returned Enable"
  by (simp_all add: returned_def)

lemma mutex_states_differ [simp]: "MUTEX_UNLOCKED \<noteq> MUTEX_LOCKED" "MUTEX_LOCKED \<noteq> MUTEX_UNLOCKED"
  by (simp_all add: MUTEX_UNLOCKED_def MUTEX_LOCKED_def)

lemma mx_store [simp]:
  "mx_state (store8 m x v) x = v" "mx_owner (store8 m x v) x = mx_owner m x"
  "mx_state (store32 m (x + 4) w) x = mx_state m x" "mx_owner (store32 m (x + 4) w) x = w"
  by (simp_all add: mx_state_def mx_owner_def mem_frame apart_def)

text \<open>The places where a process waits for the lock.\<close>

definition waiting :: "mutex_pc \<Rightarrow> bool" where
  "waiting pc \<longleftrightarrow> pc \<in> {Spin, Wait_Cli, Wait_Preempt, Wait_Sti}"

lemma waiting_step:
  assumes "waiting pc" "mx_state (mem s) x = MUTEX_LOCKED" "mutex_step x pc s = (pc', s')"
  shows "waiting pc' \<and> mx_state (mem s') x = MUTEX_LOCKED \<and> mx_owner (mem s') x = mx_owner (mem s) x"
  using assms by (cases pc) (auto simp: waiting_def mutex_effects)

lemma waiting_steps:
  "waiting (fst c) \<Longrightarrow> mx_state (mem (snd c)) x = MUTEX_LOCKED \<Longrightarrow> waiting (fst (mutex_steps n x c))"
proof (induction n arbitrary: c)
  case (Suc n)
  then show ?case using waiting_step [of "fst c" "snd c" x] by (simp add: prod_eq_iff)
qed simp

lemma spin_locked:
  assumes "mx_state (mem s) x = MUTEX_LOCKED"
  shows "mutex_spin x s = None"
proof (cases "mutex_spin x s")
  case (Some r)
  let ?P = "\<lambda>y (s :: 'a kernel_scheme) (_ :: 'a kernel_scheme). mx_state (mem s) y \<noteq> MUTEX_LOCKED"
  have "?P x s r"
  proof (rule mutex_spin.raw_induct [of ?P "(x, s)" r, unfolded prod.case, OF _ Some])
    fix spin :: "u32 \<Rightarrow> 'a kernel_scheme \<Rightarrow> 'a kernel_scheme option" and y s r
    assume "\<And>y s r. spin y s = Some r \<Longrightarrow> ?P y s r"
      and "(if mx_state (mem s) y = MUTEX_LOCKED then spin y (mutex_wait s) else Some s) = Some r"
    then show "?P y s r" by (fastforce simp: mutex_effects split: if_splits)
  qed
  with assms show ?thesis by simp
qed

lemma mutex_steps_add: "mutex_steps (m + n) x c = mutex_steps n x (mutex_steps m x c)"
  by (induction m arbitrary: c) simp_all

lemma mutex_steps_returned: "returned (fst c) \<Longrightarrow> mutex_steps n x c = c"
proof (induction n)
  case (Suc n)
  then have "mutex_step x (fst c) (snd c) = c" by (cases "fst c"; cases c) simp_all
  then show ?case using Suc by simp
qed simp

lemma mutex_steps_result:
  assumes "mutex_steps k x c = d" "returned (fst d)"
  shows "(\<exists>n pc. mutex_steps n x c = (pc, s') \<and> returned pc) \<longleftrightarrow> s' = snd d"
proof
  assume "\<exists>n pc. mutex_steps n x c = (pc, s') \<and> returned pc"
  then obtain n pc where n: "mutex_steps n x c = (pc, s')" "returned pc" by blast
  then have "mutex_steps (n + k) x c = (pc, s')" by (simp add: mutex_steps_add mutex_steps_returned)
  moreover have "mutex_steps (k + n) x c = d" using assms by (simp add: mutex_steps_add mutex_steps_returned)
  ultimately show "s' = snd d" by (simp add: add.commute)
next
  assume "s' = snd d"
  then show "\<exists>n pc. mutex_steps n x c = (pc, s') \<and> returned pc"
    using assms by (intro exI [of _ k] exI [of _ "fst d"]) simp
qed

text \<open>Run without interruption, the statements come back with exactly the state that the function
  returns, and they come back if and only if it returns at all.\<close>

lemma lock_by_steps:
  "mutex_lock x s = Some s' \<longleftrightarrow>
    (\<exists>n pc. mutex_steps n x (Test_Preempt, s) = (pc, s') \<and> returned pc)"
proof -
  let ?own = "mx_owner (mem s) x = current s" and ?held = "mx_state (mem s) x = MUTEX_LOCKED"
  have n: "mutex_steps (Suc (Suc (Suc 0))) x (Test_Preempt, s) = (Spin, disable_kernel_preempt s)"
    if "is_kernel_preempt s \<noteq> 0" "\<not> (?own \<and> ?held)"
    using that by (simp add: get_current_process_def)
  consider "is_kernel_preempt s = 0" | "is_kernel_preempt s \<noteq> 0" "?own" "?held"
    | "is_kernel_preempt s \<noteq> 0" "\<not> ?own" "?held" | "is_kernel_preempt s \<noteq> 0" "\<not> ?held" by blast
  then show ?thesis
  proof cases
    case 1
    have "mutex_steps (Suc 0) x (Test_Preempt, s) = (Unprotected, s)" using 1 by simp
    from mutex_steps_result [OF this] show ?thesis using 1 by (auto simp: mutex_lock_def)
  next
    case 2
    have "mutex_steps (Suc (Suc 0)) x (Test_Preempt, s) = (Locked, s)" using 2 by (simp add: get_current_process_def)
    from mutex_steps_result [OF this] show ?thesis using 2 by (auto simp: mutex_lock_def get_current_process_def)
  next
    case 3
    let ?c = "(Spin, disable_kernel_preempt s)"
    have w: "waiting (fst (mutex_steps k x ?c))" for k
      by (rule waiting_steps) (use 3 in \<open>simp_all add: waiting_def disable_kernel_preempt_def\<close>)
    have "\<not> returned (fst (mutex_steps k x (Test_Preempt, s)))" for k
    proof
      assume "returned (fst (mutex_steps k x (Test_Preempt, s)))"
      then have "returned (fst (mutex_steps (k + Suc (Suc (Suc 0))) x (Test_Preempt, s)))"
        by (simp only: mutex_steps_add mutex_steps_returned)
      then have "returned (fst (mutex_steps k x ?c))"
        using n 3 by (simp only: add.commute [of k]) (simp only: mutex_steps_add simp_thms)
      then show False using w [of k] by (auto simp: waiting_def)
    qed
    moreover have "mutex_spin x (disable_kernel_preempt s) = None"
      by (rule spin_locked) (use 3 in \<open>simp add: disable_kernel_preempt_def\<close>)
    ultimately show ?thesis using 3 by (auto simp: mutex_lock_def get_current_process_def) (metis fst_conv)
  next
    case 4
    let ?s = "(disable_kernel_preempt s)\<lparr>mem := store32 (store8 (mem s) x MUTEX_LOCKED) (x + 4) (current s)\<rparr>"
    have d: "mem (disable_kernel_preempt s) = mem s" "get_current_process (disable_kernel_preempt s) = current s"
      by (simp_all add: mutex_effects)
    have "mutex_steps (Suc (Suc (Suc (Suc 0)))) x (Spin, disable_kernel_preempt s) = (Locked, enable_kernel_preempt ?s)"
      using 4 by (simp add: d get_current_process_def) (simp add: disable_kernel_preempt_def)
    then have "mutex_steps (Suc (Suc (Suc 0)) + Suc (Suc (Suc (Suc 0)))) x (Test_Preempt, s) = (Locked, enable_kernel_preempt ?s)"
      using n 4 by (simp only: mutex_steps_add simp_thms)
    from mutex_steps_result [OF this]
    have "(\<exists>n pc. mutex_steps n x (Test_Preempt, s) = (pc, s') \<and> returned pc) \<longleftrightarrow> s' = enable_kernel_preempt ?s"
      by simp
    moreover have "mutex_lock x s = Some (enable_kernel_preempt ?s)"
      using 4 by (simp add: mutex_lock_def mutex_spin.simps d get_current_process_def) (simp add: disable_kernel_preempt_def)
    ultimately show ?thesis by auto
  qed
qed

text \<open>
  What a lock is meant to do for a caller that nothing interrupts: nothing when preemption is off or
  the caller has the lock; to wait for ever when another process has it, since nobody runs that could
  free it; else to become the caller's, with preemption on and nothing else changed.
\<close>

definition lock_spec :: "u32 \<Rightarrow> 'a kernel_scheme \<Rightarrow> 'a kernel_scheme option" where
  "lock_spec x s =
     (if is_kernel_preempt s = 0 then Some s
      else if mx_state (mem s) x = MUTEX_LOCKED then (if mx_owner (mem s) x = current s then Some s else None)
      else Some (s\<lparr>mem := store32 (store8 (mem s) x MUTEX_LOCKED) (x + 4) (current s), kernel_preempt := 1\<rparr>))"

lemma mutex_lock_spec: "mutex_lock x s = lock_spec x s"
proof (cases "mx_state (mem s) x = MUTEX_LOCKED")
  case True
  then have "mutex_spin x (disable_kernel_preempt s) = None" by (intro spin_locked) (simp add: disable_kernel_preempt_def)
  with True show ?thesis by (simp add: mutex_lock_def lock_spec_def get_current_process_def)
next
  case False
  then show ?thesis
    by (simp add: mutex_lock_def lock_spec_def mutex_spin.simps [of x "disable_kernel_preempt s"])
      (simp add: disable_kernel_preempt_def enable_kernel_preempt_def get_current_process_def)
qed

text \<open>The places where preemption is off, or else the lock is held by another process.\<close>

definition guarded :: "u32 \<Rightarrow> mutex_pc \<Rightarrow> 'a kernel_scheme \<Rightarrow> bool" where
  "guarded x pc s \<longleftrightarrow> (pc \<in> {Take_State, Take_Owner, Enable} \<longrightarrow> is_kernel_preempt s = 0)
     \<and> (pc = Spin \<longrightarrow> is_kernel_preempt s = 0 \<or> mx_state (mem s) x = MUTEX_LOCKED)
     \<and> (pc \<in> {Wait_Cli, Wait_Preempt, Wait_Sti} \<longrightarrow> mx_state (mem s) x = MUTEX_LOCKED)"

lemma guarded_step: "guarded x pc s \<Longrightarrow> mutex_step x pc s = (pc', s') \<Longrightarrow> guarded x pc' s'"
  by (cases pc) (auto simp: guarded_def mutex_effects split: if_splits)

lemma guarded_steps: "guarded x (fst c) (snd c) \<Longrightarrow> guarded x (fst (mutex_steps n x c)) (snd (mutex_steps n x c))"
proof (induction n arbitrary: c)
  case (Suc n)
  then show ?case using guarded_step [of x "fst c" "snd c"] by (simp add: prod_eq_iff)
qed simp

text \<open>C19: An uninterrupted call of \<^verbatim>\<open>mutex_lock\<close>, run as a function or statement by statement, does
  what \<open>lock_spec\<close> asks for: it leaves everything as it is when preemption is off or the caller has
  the lock, it never returns when another process has it, and else it makes the caller the owner,
  turns preemption on and changes nothing else. The statements that take the lock all run with
  preemption off.\<close>

theorem mutex_lock_refines:
  "mutex_lock x s = lock_spec x s
    \<and> (\<forall>s'. lock_spec x s = Some s' \<longleftrightarrow> (\<exists>n pc. mutex_steps n x (Test_Preempt, s) = (pc, s') \<and> returned pc))
    \<and> (\<forall>n pc s'. mutex_steps n x (Test_Preempt, s) = (pc, s') \<and> pc \<in> {Take_State, Take_Owner, Enable} \<longrightarrow>
        is_kernel_preempt s' = 0)"
proof (intro conjI allI impI)
  show "mutex_lock x s = lock_spec x s" by (rule mutex_lock_spec)
  show "lock_spec x s = Some s' \<longleftrightarrow> (\<exists>n pc. mutex_steps n x (Test_Preempt, s) = (pc, s') \<and> returned pc)" for s'
    using lock_by_steps by (simp only: flip: mutex_lock_spec)
  fix n pc s' assume a: "mutex_steps n x (Test_Preempt, s) = (pc, s') \<and> pc \<in> {Take_State, Take_Owner, Enable}"
  have "guarded x (fst (Test_Preempt, s)) (snd (Test_Preempt, s))" by (simp add: guarded_def)
  from guarded_steps [OF this, of n] a show "is_kernel_preempt s' = 0" by (auto simp: guarded_def)
qed

section \<open>Interleaving\<close>

text \<open>
  A configuration is where every process stands, and the machine. A statement of the current process
  may run at any time; a timer interrupt may come between any two of them when interrupts are on, and
  calls the scheduler, which does nothing while preemption is off. A process that is not in the
  function may call it, sleep, or do anything that leaves the process list, the mutex and preemption
  alone. Where the scheduler is entered, its data are sound and the stack lies apart from the mutex.
\<close>

type_synonym 'a mutex_config = "(u32 \<Rightarrow> mutex_pc) \<times> 'a kernel_scheme"

definition interrupts_on :: "'a kernel_scheme \<Rightarrow> bool" where
  "interrupts_on s \<longleftrightarrow> bit (eflags (cpu s)) 9"

definition entry_ok :: "u32 list \<Rightarrow> u32 \<Rightarrow> 'a kernel_scheme \<Rightarrow> bool" where
  "entry_ok pl x s \<longleftrightarrow> procs_wf s pl \<and> current s \<in> set pl \<and> stack_clear s pl \<and> pcount s \<noteq> 0
     \<and> (\<forall>p \<in> set pl. span p 84 \<inter> span x 8 = {}) \<and> span (esp (cpu s) - 64) 64 \<inter> span x 8 = {}"

inductive mstep :: "u32 list \<Rightarrow> u32 \<Rightarrow> 'a mutex_config \<Rightarrow> 'a mutex_config \<Rightarrow> bool" for pl x where
  code: "\<not> returned (pcs (current s)) \<Longrightarrow> mutex_step x (pcs (current s)) s = (pc, s') \<Longrightarrow>
    mstep pl x (pcs, s) (pcs(current s := pc), s')"
| call: "returned (pcs (current s)) \<Longrightarrow> mstep pl x (pcs, s) (pcs(current s := Test_Preempt), s)"
| timer: "interrupts_on s \<Longrightarrow> entry_ok pl x s \<Longrightarrow> schedule s = Some (sw, s') \<Longrightarrow>
    mstep pl x (pcs, s) (pcs, s')"
| sleep: "returned (pcs (current s)) \<Longrightarrow> entry_ok pl x s \<Longrightarrow> is_kernel_preempt s \<noteq> 0 \<Longrightarrow>
    process_sleep n s = Some (sw, s') \<Longrightarrow> mstep pl x (pcs, s) (pcs, s')"
| work: "returned (pcs (current s)) \<Longrightarrow> same_procs s s' pl \<Longrightarrow> \<forall>b \<in> span x 8. mem s' b = mem s b \<Longrightarrow>
    kernel_preempt s' = kernel_preempt s \<Longrightarrow> mstep pl x (pcs, s) (pcs, s')"

text \<open>A property of configurations that the steps keep holds in all runs.\<close>

locale step_invariant =
  fixes moves :: "'c \<Rightarrow> 'c \<Rightarrow> bool" and inv :: "'c \<Rightarrow> bool"
  assumes preserved: "inv c \<Longrightarrow> moves c c' \<Longrightarrow> inv c'"
begin

lemma holds_in_runs: "rtranclp moves c c' \<Longrightarrow> inv c \<Longrightarrow> inv c'"
  by (induction rule: rtranclp_induct) (use preserved in blast)+

end

text \<open>The statements of one process are a run.\<close>

lemma mutex_step_current: "mutex_step x pc s = (pc', s') \<Longrightarrow> current s' = current s"
  by (cases pc) (auto simp: mutex_effects)

lemma steps_run:
  assumes "pcs c = pc" "current s = c"
  shows "rtranclp (mstep pl x) (pcs, s) (pcs(c := fst (mutex_steps n x (pc, s))), snd (mutex_steps n x (pc, s)))"
  using assms
proof (induction n arbitrary: pcs pc s)
  case 0
  then have "pcs(c := pc) = pcs" by auto
  then show ?case by simp
next
  case (Suc n)
  show ?case
  proof (cases "returned pc")
    case True
    then have "mutex_steps (Suc n) x (pc, s) = (pc, s)" by (simp only: mutex_steps_returned fst_conv)
    moreover have "pcs(c := pc) = pcs" using Suc.prems by auto
    ultimately show ?thesis by (simp only: fst_conv snd_conv rtranclp.rtrancl_refl)
  next
    case False
    obtain pc' s' where st: "mutex_step x pc s = (pc', s')" by fastforce
    have "mstep pl x (pcs, s) (pcs(c := pc'), s')"
      using mstep.code [of pcs s x pc' s'] False Suc.prems st by simp
    moreover have "current s' = c" using mutex_step_current [OF st] Suc.prems(2) by simp
    note Suc.IH [of "pcs(c := pc')" pc' s', OF _ this, unfolded fun_upd_upd]
    ultimately show ?thesis using st by (simp only: mutex_steps.simps fst_conv snd_conv fun_upd_same)
      (rule converse_rtranclp_into_rtranclp, assumption, simp only: simp_thms)
  qed
qed

text \<open>What a scheduler call does as far as the mutex is concerned.\<close>

definition mutex_same :: "u32 \<Rightarrow> 'a kernel_scheme \<Rightarrow> 'a kernel_scheme \<Rightarrow> bool" where
  "mutex_same x s s' \<longleftrightarrow> mx_state (mem s') x = mx_state (mem s) x \<and> mx_owner (mem s') x = mx_owner (mem s) x
     \<and> is_kernel_preempt s' = is_kernel_preempt s"

lemma mutex_sameI:
  assumes "\<And>b. b \<in> span x 8 \<Longrightarrow> mem s' b = mem s b" "kernel_preempt s' = kernel_preempt s"
  shows "mutex_same x s s'"
proof -
  have "mx_state (mem s') x = mx_state (mem s) x" using assms(1) [of x] by (simp add: mx_state_def span_iff)
  moreover have "mx_owner (mem s') x = mx_owner (mem s) x"
    unfolding mx_owner_def by (rule load32_cong) (use assms(1) span_offset [of _ x 4 4 8] in simp)
  ultimately show ?thesis using assms(2) by (simp add: mutex_same_def is_kernel_preempt_def)
qed

lemma sched_frame_mutex:
  assumes "entry_ok pl x s" "sched_frame pl s s'"
  shows "mutex_same x s s'"
proof (rule mutex_sameI)
  fix b assume "b \<in> span x 8"
  then have "\<forall>p \<in> set pl. b \<notin> span p 84" "b \<notin> span (esp (cpu s) - 64) 64"
    using assms(1) unfolding entry_ok_def by blast+
  then show "mem s' b = mem s b" using assms(2) by (simp add: sched_frame_def)
qed (use assms(2) in \<open>simp add: sched_frame_def\<close>)

lemma timer_mutex:
  assumes "entry_ok pl x s" "schedule s = Some (sw, s')"
  shows "mutex_same x s s' \<and> (is_kernel_preempt s = 0 \<longrightarrow> s' = s)"
proof (cases "is_kernel_preempt s = 0")
  case True
  then show ?thesis using assms(2) by (simp add: schedule_def mutex_same_def)
next
  case False
  then have "sched_frame pl s s'"
    using schedule_effect [of s pl] assms by (auto simp: entry_ok_def split: option.splits)
  then show ?thesis using sched_frame_mutex [OF assms(1)] False by simp
qed

lemma sleep_mutex:
  assumes "entry_ok pl x s" "is_kernel_preempt s \<noteq> 0" "process_sleep n s = Some (sw, s')"
  shows "mutex_same x s s'"
proof -
  have "sched_frame pl s s'"
    using process_sleep_effect [of s pl n] assms by (auto simp: entry_ok_def split: option.splits)
  then show ?thesis by (rule sched_frame_mutex [OF assms(1)])
qed

section \<open>Exclusion\<close>

text \<open>
  The invariant: between the check and the end of the taking the process is the current one and
  preemption is off; a process waits only for a lock that is held; and who is back with the lock is
  its recorded owner. \<open>place_ok c held ow off took p pc\<close> allows process \<open>p\<close> to stand at \<open>pc\<close> while
  \<open>c\<close> is current, \<open>held\<close> and \<open>ow\<close> are the fields of the mutex, \<open>off\<close> says that preemption is off and
  \<open>took\<close> that the current process has taken the lock but not yet signed for it.
\<close>

fun place_ok :: "u32 \<Rightarrow> bool \<Rightarrow> u32 \<Rightarrow> bool \<Rightarrow> bool \<Rightarrow> u32 \<Rightarrow> mutex_pc \<Rightarrow> bool" where
  "place_ok c held ow off took p Outside = True"
| "place_ok c held ow off took p Test_Preempt = (p = c \<longrightarrow> \<not> off)"
| "place_ok c held ow off took p Test_Owner = (p = c \<longrightarrow> \<not> off)"
| "place_ok c held ow off took p Disable = (p = c \<longrightarrow> \<not> off)"
| "place_ok c held ow off took p Spin = (held \<or> p = c \<and> off)"
| "place_ok c held ow off took p Wait_Cli = held"
| "place_ok c held ow off took p Wait_Preempt = held"
| "place_ok c held ow off took p Wait_Sti = (held \<and> (p = c \<longrightarrow> \<not> off))"
| "place_ok c held ow off took p Take_State = (p = c \<and> off \<and> \<not> held)"
| "place_ok c held ow off took p Take_Owner = (p = c \<and> off \<and> held \<and> took)"
| "place_ok c held ow off took p Enable = (p = c \<and> off \<and> held \<and> ow = p \<and> \<not> took)"
| "place_ok c held ow off took p Locked = (held \<and> ow = p \<and> \<not> took \<and> (p = c \<longrightarrow> \<not> off))"
| "place_ok c held ow off took p Unprotected = False"

definition places_ok :: "(u32 \<Rightarrow> mutex_pc) \<Rightarrow> u32 \<Rightarrow> bool \<Rightarrow> u32 \<Rightarrow> bool \<Rightarrow> bool" where
  "places_ok pcs c held ow off \<longleftrightarrow> (\<forall>p. place_ok c held ow off (pcs c = Take_Owner) p (pcs p))
     \<and> (pcs c = Outside \<longrightarrow> \<not> off)"

definition mutex_inv :: "u32 \<Rightarrow> 'a mutex_config \<Rightarrow> bool" where
  "mutex_inv x c \<longleftrightarrow> (case c of (pcs, s) \<Rightarrow>
     places_ok pcs (current s) (mx_state (mem s) x = MUTEX_LOCKED) (mx_owner (mem s) x) (is_kernel_preempt s = 0))"

lemma step_fields:
  "is_kernel_preempt (disable_kernel_preempt s) = 0" "is_kernel_preempt (enable_kernel_preempt s) = 1"
  "is_kernel_preempt (disable_ints s) = is_kernel_preempt s" "is_kernel_preempt (enable_ints s) = is_kernel_preempt s"
  "mem (disable_kernel_preempt s) = mem s" "mem (enable_kernel_preempt s) = mem s"
  "mem (disable_ints s) = mem s" "mem (enable_ints s) = mem s"
  "current (disable_kernel_preempt s) = current s" "current (enable_kernel_preempt s) = current s"
  "current (disable_ints s) = current s" "current (enable_ints s) = current s"
  "is_kernel_preempt (s\<lparr>mem := m\<rparr>) = is_kernel_preempt s" "get_current_process s = current s"
  by (simp_all add: mutex_effects)

text \<open>A statement of the current process moves it to an allowed place, and leaves every other process at one.\<close>

lemma places_ok_move:
  assumes "places_ok pcs c held ow off" "pcs c \<noteq> pc"
    and "place_ok c held' ow' off' (pc = Take_Owner) c pc" "pc = Outside \<longrightarrow> \<not> off'"
    and "\<And>p. p \<noteq> c \<Longrightarrow> place_ok c held ow off (pcs c = Take_Owner) p (pcs p) \<Longrightarrow>
      place_ok c held' ow' off' (pc = Take_Owner) p (pcs p)"
  shows "places_ok (pcs(c := pc)) c held' ow' off'"
  using assms by (simp add: places_ok_def)

lemma place_ok_other:
  assumes "p \<noteq> c" "place_ok c held ow off took p pc" "held \<longrightarrow> held'" "pc = Locked \<longrightarrow> ow' = ow \<and> \<not> took'"
  shows "place_ok c held' ow' off' took' p pc"
  using assms by (cases pc) auto

lemma mutex_inv_code:
  assumes i: "mutex_inv x (pcs, s)" and r: "\<not> returned (pcs (current s))"
    and st: "mutex_step x (pcs (current s)) s = (pc, s')"
  shows "mutex_inv x (pcs(current s := pc), s')"
proof -
  let ?c = "current s" and ?held = "mx_state (mem s) x = MUTEX_LOCKED" and ?off = "is_kernel_preempt s = 0"
  let ?held' = "mx_state (mem s') x = MUTEX_LOCKED" and ?ow' = "mx_owner (mem s') x" and ?off' = "is_kernel_preempt s' = 0"
  have ok: "places_ok pcs ?c ?held (mx_owner (mem s) x) ?off" using i by (simp add: mutex_inv_def)
  have p: "place_ok ?c ?held (mx_owner (mem s) x) ?off (pcs ?c = Take_Owner) p (pcs p)" for p
    using ok by (simp add: places_ok_def)
  have c: "current s' = ?c" using st by (cases "pcs ?c") (auto simp: step_fields)
  have unowned: "pcs ?c = Take_State \<or> pcs ?c = Take_Owner \<longrightarrow> pcs q \<noteq> Locked" for q
    using p [of q] p [of ?c] by auto
  have "places_ok (pcs(?c := pc)) ?c ?held' ?ow' ?off'"
  proof (rule places_ok_move [OF ok])
    show "pcs ?c \<noteq> pc" "pc = Outside \<longrightarrow> \<not> ?off'"
      using r st by (cases "pcs ?c"; auto split: if_splits)+
    show "place_ok ?c ?held' ?ow' ?off' (pc = Take_Owner) ?c pc"
      using r st p [of ?c] by (cases "pcs ?c") (auto simp: step_fields split: if_splits)
    show "place_ok ?c ?held' ?ow' ?off' (pc = Take_Owner) q (pcs q)"
      if q: "q \<noteq> ?c" and "place_ok ?c ?held (mx_owner (mem s) x) ?off (pcs ?c = Take_Owner) q (pcs q)" for q
    proof (rule place_ok_other [OF that])
      show "?held \<longrightarrow> ?held'" using st by (cases "pcs ?c") (auto simp: step_fields)
      show "pcs q = Locked \<longrightarrow> ?ow' = mx_owner (mem s) x \<and> pc \<noteq> Take_Owner"
      proof
        assume "pcs q = Locked"
        then have "pcs ?c \<noteq> Take_State" "pcs ?c \<noteq> Take_Owner" using unowned [of q] by blast+
        then show "?ow' = mx_owner (mem s) x \<and> pc \<noteq> Take_Owner"
          using st r by (cases "pcs ?c") (auto simp: step_fields split: if_splits)
      qed
    qed
  qed
  then show ?thesis using c by (simp add: mutex_inv_def)
qed

lemma places_ok_switch: "places_ok pcs c held ow False \<Longrightarrow> places_ok pcs c' held ow False"
proof -
  assume a: "places_ok pcs c held ow False"
  have "place_ok c' held ow False (pcs c' = Take_Owner) p (pcs p)" for p
  proof -
    have "place_ok c held ow False (pcs c = Take_Owner) p (pcs p)" "place_ok c held ow False (pcs c = Take_Owner) c' (pcs c')"
      using a by (simp_all add: places_ok_def)
    then show ?thesis by (cases "pcs p") auto
  qed
  then show ?thesis by (simp add: places_ok_def)
qed

lemma mutex_inv_same:
  assumes "mutex_inv x (pcs, s)" "mutex_same x s s'" "is_kernel_preempt s = 0 \<Longrightarrow> current s' = current s"
  shows "mutex_inv x (pcs, s')"
proof (cases "is_kernel_preempt s = 0")
  case True
  then show ?thesis using assms by (simp add: mutex_inv_def mutex_same_def)
next
  case False
  then show ?thesis using assms places_ok_switch by (simp add: mutex_inv_def mutex_same_def)
qed

lemma mutex_inv_step:
  assumes "mutex_inv x c" "mstep pl x c c'"
  shows "mutex_inv x c'"
proof -
  from assms(2) show ?thesis
  proof cases
    case (code pcs s pc s')
    then show ?thesis using mutex_inv_code [of x pcs s pc s'] assms(1) by simp
  next
    case (call pcs s)
    have "place_ok (current s) held ow off took q pc \<Longrightarrow> returned (pcs (current s)) \<Longrightarrow> q \<noteq> current s \<Longrightarrow>
        took = (pcs (current s) = Take_Owner) \<Longrightarrow> place_ok (current s) held ow off False q pc" for held ow off took q pc
      by (cases pc) auto
    moreover have "is_kernel_preempt s \<noteq> 0"
    proof -
      have "place_ok (current s) h ow (is_kernel_preempt s = 0) t (current s) (pcs (current s))
          \<and> (pcs (current s) = Outside \<longrightarrow> is_kernel_preempt s \<noteq> 0)"
        if "places_ok pcs (current s) h ow (is_kernel_preempt s = 0)" "t = (pcs (current s) = Take_Owner)" for h ow t
        using that by (simp add: places_ok_def)
      then show ?thesis using assms(1) call by (cases "pcs (current s)") (auto simp: mutex_inv_def)
    qed
    ultimately show ?thesis using assms(1) call by (auto simp: mutex_inv_def places_ok_def)
  next
    case (timer s sw s' pcs)
    then show ?thesis using mutex_inv_same [of x pcs s s'] timer_mutex [of pl x s sw s'] assms(1) by auto
  next
    case (sleep pcs s n sw s')
    then show ?thesis using mutex_inv_same [of x pcs s s'] sleep_mutex [of pl x s n sw s'] assms(1) by simp
  next
    case (work pcs s s')
    then show ?thesis
      using mutex_inv_same [of x pcs s s'] mutex_sameI [of x s' s] assms(1) by (simp add: same_procs_def)
  qed
qed

interpretation exclusion: step_invariant "mstep pl x" "mutex_inv x" for pl x
  by unfold_locales (rule mutex_inv_step)

lemma mutex_inv_start:
  "mx_state (mem s) x \<noteq> MUTEX_LOCKED \<Longrightarrow> is_kernel_preempt s \<noteq> 0 \<Longrightarrow> mutex_inv x (\<lambda>_. Outside, s)"
  by (simp add: mutex_inv_def places_ok_def)

lemma mutex_inv_place:
  "mutex_inv x (pcs, s) \<Longrightarrow> place_ok (current s) (mx_state (mem s) x = MUTEX_LOCKED) (mx_owner (mem s) x)
    (is_kernel_preempt s = 0) (pcs (current s) = Take_Owner) p (pcs p)"
  by (simp add: mutex_inv_def places_ok_def)

text \<open>C17: Mutual exclusion: from an unlocked mutex with preemption on and all processes outside, in every
  interleaving of their statements with timer interrupts, sleeps and other work, a process that is
  back from \<^verbatim>\<open>mutex_lock\<close> has the lock and is its recorded owner, no two processes have it, and
  while one is between the check and the end of the taking it is the current one, with preemption off.\<close>

theorem mutex_excludes:
  assumes "rtranclp (mstep pl x) (\<lambda>_. Outside, s) (pcs, s')"
    and "mx_state (mem s) x \<noteq> MUTEX_LOCKED" "is_kernel_preempt s \<noteq> 0"
  shows "pcs p \<noteq> Unprotected
    \<and> (pcs p = Locked \<longrightarrow> mx_state (mem s') x = MUTEX_LOCKED \<and> mx_owner (mem s') x = p)
    \<and> (pcs p = Locked \<and> pcs q = Locked \<longrightarrow> p = q)
    \<and> (pcs p \<in> {Take_State, Take_Owner, Enable} \<longrightarrow> p = current s' \<and> is_kernel_preempt s' = 0)"
proof -
  have "mutex_inv x (pcs, s')"
    using exclusion.holds_in_runs [OF assms(1)] mutex_inv_start [OF assms(2,3)] by blast
  note i = mutex_inv_place [OF this]
  show ?thesis using i [of p] i [of q] by (cases "pcs p") auto
qed

section \<open>No unlocking\<close>

text \<open>Once a process has the lock nobody else gets it: the waiters \<open>W\<close> go on waiting.\<close>

definition kept_by :: "u32 \<Rightarrow> u32 \<Rightarrow> u32 set \<Rightarrow> 'a mutex_config \<Rightarrow> bool" where
  "kept_by x p W c \<longleftrightarrow> (case c of (pcs, s) \<Rightarrow>
     mx_state (mem s) x = MUTEX_LOCKED \<and> mx_owner (mem s) x = p
     \<and> (\<forall>q. pcs q \<noteq> Take_State \<and> pcs q \<noteq> Take_Owner \<and> (pcs q = Enable \<or> pcs q = Locked \<longrightarrow> q = p))
     \<and> (\<forall>q \<in> W. waiting (pcs q)))"

lemma waiting_simps [simp]:
  "waiting Spin" "waiting Wait_Cli" "waiting Wait_Preempt" "waiting Wait_Sti"
  "\<not> waiting Test_Preempt" "\<not> waiting Test_Owner" "\<not> waiting Disable" "\<not> waiting Take_State"
  "\<not> waiting Take_Owner" "\<not> waiting Enable" "returned pc \<Longrightarrow> \<not> waiting pc"
  by (auto simp: waiting_def returned_def)

lemma kept_by_code:
  assumes "kept_by x p W (pcs, s)" "\<not> returned (pcs (current s))" "mutex_step x (pcs (current s)) s = (pc, s')"
  shows "kept_by x p W (pcs(current s := pc), s')"
proof -
  let ?c = "current s"
  have k: "mx_state (mem s) x = MUTEX_LOCKED" "mx_owner (mem s) x = p"
    and q: "pcs q \<noteq> Take_State" "pcs q \<noteq> Take_Owner" "pcs q = Enable \<or> pcs q = Locked \<Longrightarrow> q = p"
    and w: "q \<in> W \<Longrightarrow> waiting (pcs q)" for q using assms(1) by (auto simp: kept_by_def)
  have m: "mem s' = mem s" using assms(3) q [of ?c] by (cases "pcs ?c") (auto simp: step_fields)
  have pc: "pc \<noteq> Take_State" "pc \<noteq> Take_Owner" "pc = Enable \<or> pc = Locked \<Longrightarrow> ?c = p" "waiting (pcs ?c) \<Longrightarrow> waiting pc"
    using assms(2,3) q [of ?c] k by (cases "pcs ?c"; auto simp: step_fields split: if_splits)+
  show ?thesis using k q w pc by (simp add: kept_by_def m)
qed

lemma kept_by_same: "kept_by x p W (pcs, s) \<Longrightarrow> mutex_same x s s' \<Longrightarrow> kept_by x p W (pcs, s')"
  by (simp add: kept_by_def mutex_same_def)

lemma kept_by_step:
  assumes "kept_by x p W c" "mstep pl x c c'"
  shows "kept_by x p W c'"
  using assms(2)
proof cases
  case (code pcs s pc s')
  then show ?thesis using kept_by_code [of x p W pcs s pc s'] assms(1) by simp
next
  case (call pcs s)
  then show ?thesis using assms(1) by (auto simp: kept_by_def)
next
  case (timer s sw s' pcs)
  then show ?thesis using kept_by_same [of x p W pcs s s'] timer_mutex [of pl x s sw s'] assms(1) by simp
next
  case (sleep pcs s n sw s')
  then show ?thesis using kept_by_same [of x p W pcs s s'] sleep_mutex [of pl x s n sw s'] assms(1) by simp
next
  case (work pcs s s')
  then show ?thesis using kept_by_same [of x p W pcs s s'] mutex_sameI [of x s' s] assms(1) by simp
qed

interpretation keeping: step_invariant "mstep pl x" "kept_by x p W" for pl x p W
  by unfold_locales (rule kept_by_step)

lemma kept_by_start:
  assumes "mutex_inv x (pcs, s)" "pcs p = Locked" "\<forall>q \<in> W. waiting (pcs q)"
  shows "kept_by x p W (pcs, s)"
proof -
  note i = mutex_inv_place [OF assms(1)]
  have p: "mx_state (mem s) x = MUTEX_LOCKED" "mx_owner (mem s) x = p" "pcs (current s) \<noteq> Take_Owner"
    using i [of p] assms(2) by auto
  have "pcs q \<noteq> Take_State \<and> pcs q \<noteq> Take_Owner \<and> (pcs q = Enable \<or> pcs q = Locked \<longrightarrow> q = p)" for q
    using i [of q] p by (cases "pcs q") auto
  with p assms(3) show ?thesis by (simp add: kept_by_def)
qed

text \<open>C18: The lock is never passed on: after a process has got it, no other process ever gets it, and a
  process that waits in the spin loop waits for ever; nothing in the kernel unlocks a mutex.\<close>

theorem mutex_never_passed_on:
  assumes "rtranclp (mstep pl x) (\<lambda>_. Outside, s) (pcs1, s1)"
    and "mx_state (mem s) x \<noteq> MUTEX_LOCKED" "is_kernel_preempt s \<noteq> 0"
    and "pcs1 p = Locked" "rtranclp (mstep pl x) (pcs1, s1) (pcs2, s2)" "q \<noteq> p"
  shows "mx_state (mem s2) x = MUTEX_LOCKED \<and> mx_owner (mem s2) x = p \<and> pcs2 q \<noteq> Locked
    \<and> (waiting (pcs1 q) \<longrightarrow> waiting (pcs2 q))"
proof -
  let ?W = "{q. waiting (pcs1 q)}"
  have "mutex_inv x (pcs1, s1)"
    using exclusion.holds_in_runs [OF assms(1)] mutex_inv_start [OF assms(2,3)] by blast
  then have "kept_by x p ?W (pcs1, s1)" using kept_by_start [of x pcs1 s1 p ?W] assms(4) by simp
  then have "kept_by x p ?W (pcs2, s2)" by (rule keeping.holds_in_runs [OF assms(5)])
  with assms(6) show ?thesis by (auto simp: kept_by_def)
qed

end
