(* ===== verification/Sample_Mutex.thy ===== *)
theory Sample_Mutex
  imports Sample_Proc Mutex
begin

text \<open>
  The two processes of the sample machine contend for a mutex: the first takes it, loses the CPU to a
  timer interrupt, and the second one waits in the spin loop.
\<close>

definition sample_free :: devices where
  "sample_free = mutex_init 0xC01F0200 sample_procs"

definition sample_taken :: devices where
  "sample_taken = sample_free\<lparr>mem := store32 (store8 (mem sample_free) 0xC01F0200 MUTEX_LOCKED) 0xC01F0204 0xC0300000\<rparr>"

lemma sample_free_fields [simp]:
  "current sample_free = 0xC0300000" "proc_hd sample_free = 0xC01F0020" "pcount sample_free = 2"
  "kernel_preempt sample_free = 1" "cpu sample_free = no_regs" "mx_state (mem sample_free) 0xC01F0200 = MUTEX_UNLOCKED"
  by (simp_all add: sample_free_def mutex_init_def sample_procs_def)

lemma sample_free_outside:
  assumes "b \<notin> span 0xC01F0200 8"
  shows "mem sample_taken b = ring2 b"
proof -
  have "b \<notin> span 0xC01F0204 4" "b \<noteq> 0xC01F0200"
    using assms span_offset [of b "0xC01F0200" 4 4 8] self_in_span [of 8 "0xC01F0200"] by auto
  then show ?thesis
    by (simp add: sample_taken_def sample_free_def mutex_init_def store32_outside store8_outside)
qed

lemma sample_taken_entry: "entry_ok [0xC0300000, 0xC0300100] 0xC01F0200 sample_taken"
    "kready sample_taken [0xC0300000, 0xC0300100]"
    "\<And>p. p \<in> {0xC0300000, 0xC0300100} \<Longrightarrow> views sample_taken p = view ring2 p"
proof -
  have far: "b \<in> span 0xC0300000 84 \<or> b \<in> span 0xC0300100 84 \<or> b \<in> span 0xC01F0020 8 \<or> b \<in> span 0xC030FFC0 64 \<Longrightarrow>
      b \<notin> span 0xC01F0200 8" for b :: u32
    by (auto simp: span_nat_iff)
  show v: "views sample_taken p = view ring2 p" if "p \<in> {0xC0300000, 0xC0300100}" for p
    using that far sample_free_outside by (intro view_cong) blast
  have sub: "b \<in> span (p + 24) 8 \<Longrightarrow> b \<in> span p 84" for b p using span_offset [of b p 24 8 84] by simp
  have f: "proc_hd sample_taken = 0xC01F0020" "current sample_taken = 0xC0300000" "pcount sample_taken = 2"
    "kernel_preempt sample_taken = 1" "cpu sample_taken = no_regs"
    by (simp_all add: sample_taken_def)
  have "procs_wf sample_taken [0xC0300000, 0xC0300100]"
    unfolding procs_wf_def f
    by (rule procs_mem_cong [OF ring_procs(2)]) (use far sub in \<open>auto intro!: sample_free_outside\<close>)
  then show k: "kready sample_taken [0xC0300000, 0xC0300100]"
    using sample_kready(2) by (simp add: kready_def f stack_clear_def is_kernel_preempt_def no_regs_def)
  have "span (0xC0300000 :: u32) 84 \<inter> span 0xC01F0200 8 = {}" "span (0xC0300100 :: u32) 84 \<inter> span 0xC01F0200 8 = {}"
    "span (0xC030FFC0 :: u32) 64 \<inter> span 0xC01F0200 8 = {}"
    using far by blast+
  then show "entry_ok [0xC0300000, 0xC0300100] 0xC01F0200 sample_taken"
    using k by (simp add: entry_ok_def kready_def f no_regs_def)
qed

text \<open>The first process takes the lock in one call; the fifth statement, which takes it, runs with
  preemption off.\<close>

theorem mutex_lock_refines_witness:
  "mutex_lock 0xC01F0200 sample_free = Some sample_taken
    \<and> (\<exists>s'. mutex_steps 4 0xC01F0200 (Test_Preempt, sample_free) = (Take_State, s') \<and> is_kernel_preempt s' = 0)"
proof -
  have "sample_free\<lparr>mem := m, kernel_preempt := 1\<rparr> = sample_free\<lparr>mem := m\<rparr>" for m
    by (simp add: sample_free_def mutex_init_def sample_procs_def)
  then have l: "lock_spec 0xC01F0200 sample_free = Some sample_taken"
    by (simp add: lock_spec_def sample_taken_def is_kernel_preempt_def)
  have "mutex_steps 4 0xC01F0200 (Test_Preempt, sample_free) = (Take_State, disable_kernel_preempt sample_free)"
    by (simp add: eval_nat_numeral is_kernel_preempt_def) (simp add: disable_kernel_preempt_def)
  with mutex_lock_refines [of "0xC01F0200" sample_free] l show ?thesis by auto
qed

text \<open>The first process calls the function and runs through it.\<close>

lemma sample_takes:
  "rtranclp (mstep pl 0xC01F0200) (\<lambda>_. Outside, sample_free) ((\<lambda>_. Outside)(0xC0300000 := Locked), sample_taken)"
proof -
  have s: "mutex_steps (Suc (Suc (Suc (Suc (Suc (Suc (Suc 0))))))) 0xC01F0200 (Test_Preempt, sample_free) = (Locked, sample_taken)"
    by (simp add: is_kernel_preempt_def get_current_process_def disable_kernel_preempt_def enable_kernel_preempt_def
        sample_taken_def sample_free_def mutex_init_def sample_procs_def)
  have "mstep pl 0xC01F0200 (\<lambda>_. Outside, sample_free) ((\<lambda>_. Outside)(0xC0300000 := Test_Preempt), sample_free)"
    using mstep.call [of "\<lambda>_. Outside" sample_free] by simp
  moreover have "rtranclp (mstep pl 0xC01F0200) ((\<lambda>_. Outside)(0xC0300000 := Test_Preempt), sample_free)
      ((\<lambda>_. Outside)(0xC0300000 := Locked), sample_taken)"
    using steps_run [of "(\<lambda>_. Outside)(0xC0300000 := Test_Preempt)" "0xC0300000" Test_Preempt sample_free pl "0xC01F0200"
        "Suc (Suc (Suc (Suc (Suc (Suc (Suc 0))))))"] unfolding s by simp
  ultimately show ?thesis by (rule converse_rtranclp_into_rtranclp)
qed

theorem mutex_excludes_witness:
  "\<exists>pcs s'. rtranclp (mstep [0xC0300000, 0xC0300100] 0xC01F0200) (\<lambda>_. Outside, sample_free) (pcs, s')
    \<and> pcs 0xC0300000 = Locked \<and> mx_owner (mem s') 0xC01F0200 = 0xC0300000 \<and> pcs 0xC0300100 \<noteq> Locked"
  using mutex_excludes [OF sample_takes, of "0xC0300000" "0xC0300100"]
  by (intro exI [of _ "(\<lambda>_. Outside)(0xC0300000 := Locked)"] exI [of _ sample_taken] conjI sample_takes)
    (simp_all add: is_kernel_preempt_def)

text \<open>A timer interrupt gives the CPU to the second process, whose call ends in the spin loop.\<close>

lemma sample_interrupted:
  "\<exists>s2. schedule sample_taken = Some (True, s2) \<and> current s2 = 0xC0300100
    \<and> mutex_same 0xC01F0200 sample_taken s2"
proof -
  let ?pl = "[0xC0300000, 0xC0300100] :: u32 list"
  have c: "current sample_taken = 0xC0300000" by (simp add: sample_taken_def)
  have "spec_schedule ?pl (views sample_taken) 0xC0300000 \<noteq> None
      \<and> (\<forall>sw n W. spec_schedule ?pl (views sample_taken) 0xC0300000 = Some (sw, n, W) \<longrightarrow> sw \<and> n = 0xC0300100)"
    using spec_schedule_cong [of ?pl "view ring2" "views sample_taken" "0xC0300000"] sample_taken_entry(3) sample_switch
    by auto
  then obtain W where "spec_schedule ?pl (views sample_taken) 0xC0300000 = Some (True, 0xC0300100, W)" by auto
  then obtain s2 where "schedule sample_taken = Some (True, s2)" "current s2 = 0xC0300100"
    using schedule_effect [of sample_taken ?pl] sample_taken_entry(2) by (auto simp: kready_def c)
  then show ?thesis using timer_mutex [OF sample_taken_entry(1)] by blast
qed

lemma sample_contends:
  "\<exists>s3. rtranclp (mstep [0xC0300000, 0xC0300100] 0xC01F0200) (\<lambda>_. Outside, sample_free)
      ((\<lambda>_. Outside)(0xC0300000 := Locked, 0xC0300100 := Spin), s3)
    \<and> current s3 = 0xC0300100 \<and> mx_state (mem s3) 0xC01F0200 = MUTEX_LOCKED"
proof -
  let ?m = "mstep [0xC0300000, 0xC0300100] 0xC01F0200" and ?p1 = "(\<lambda>_. Outside)(0xC0300000 := Locked)"
  obtain s2 where s2: "schedule sample_taken = Some (True, s2)" "current s2 = 0xC0300100"
    "mutex_same 0xC01F0200 sample_taken s2" using sample_interrupted by blast
  have "bit (0x202 :: u32) 9" by simp
  then have "interrupts_on sample_taken" by (simp add: interrupts_on_def sample_taken_def no_regs_def)
  then have t: "?m (?p1, sample_taken) (?p1, s2)" by (rule mstep.timer [OF _ sample_taken_entry(1) s2(1)])
  have c: "?m (?p1, s2) (?p1(0xC0300100 := Test_Preempt), s2)"
    using mstep.call [of ?p1 s2] s2(2) by simp
  have k: "is_kernel_preempt s2 = 1" "mx_owner (mem s2) 0xC01F0200 = 0xC0300000" "mx_state (mem s2) 0xC01F0200 = MUTEX_LOCKED"
    using s2(3) by (simp_all add: mutex_same_def sample_taken_def is_kernel_preempt_def)
      (simp_all add: mx_state_def mx_owner_def mem_frame apart_def)
  have "mutex_steps (Suc (Suc (Suc 0))) 0xC01F0200 (Test_Preempt, s2) = (Spin, disable_kernel_preempt s2)"
    using k s2(2) by (simp add: get_current_process_def)
  with steps_run [of "?p1(0xC0300100 := Test_Preempt)" "0xC0300100" Test_Preempt s2 "[0xC0300000, 0xC0300100]"
      "0xC01F0200" "Suc (Suc (Suc 0))"] s2(2)
  have w: "rtranclp ?m (?p1(0xC0300100 := Test_Preempt), s2) (?p1(0xC0300100 := Spin), disable_kernel_preempt s2)"
    by (simp only: fun_upd_same fun_upd_upd fst_conv snd_conv)
  note rtranclp.rtrancl_into_rtrancl [where r = ?m, OF sample_takes t]
  note rtranclp.rtrancl_into_rtrancl [where r = ?m, OF this c]
  from rtranclp_trans [OF this w] show ?thesis using s2(2) k(3)
    by (intro exI [of _ "disable_kernel_preempt s2"]) (simp add: disable_kernel_preempt_def)
qed

theorem mutex_never_passed_on_witness:
  "\<exists>s3 pcs s4. rtranclp (mstep [0xC0300000, 0xC0300100] 0xC01F0200) (\<lambda>_. Outside, sample_free)
      ((\<lambda>_. Outside)(0xC0300000 := Locked, 0xC0300100 := Spin), s3)
    \<and> mstep [0xC0300000, 0xC0300100] 0xC01F0200
        ((\<lambda>_. Outside)(0xC0300000 := Locked, 0xC0300100 := Spin), s3) (pcs, s4)
    \<and> waiting (pcs 0xC0300100)"
proof -
  let ?p = "(\<lambda>_. Outside)(0xC0300000 := Locked, 0xC0300100 := Spin)"
  obtain s3 where r: "rtranclp (mstep [0xC0300000, 0xC0300100] 0xC01F0200) (\<lambda>_. Outside, sample_free) (?p, s3)"
    and c: "current s3 = 0xC0300100" "mx_state (mem s3) 0xC01F0200 = MUTEX_LOCKED" using sample_contends by blast
  have st: "mstep [0xC0300000, 0xC0300100] 0xC01F0200 (?p, s3) (?p(0xC0300100 := Wait_Cli), s3)"
    using mstep.code [of ?p s3 "0xC01F0200" Wait_Cli s3] c by simp
  have "waiting (?p 0xC0300100) \<longrightarrow> waiting ((?p(0xC0300100 := Wait_Cli)) 0xC0300100)"
    using mutex_never_passed_on [OF r _ _ _ r_into_rtranclp [of "mstep [0xC0300000, 0xC0300100] 0xC01F0200", OF st],
        of "0xC0300000" "0xC0300100"]
    by (simp add: is_kernel_preempt_def)
  then have "waiting ((?p(0xC0300100 := Wait_Cli)) 0xC0300100)" by simp
  with r st show ?thesis by blast
qed

end
