(* ===== verification/Sample_Dev.thy ===== *)
theory Sample_Dev
  imports Sample Dev_Props
begin

text \<open>
  Clients of the heap on the sample machine: one that takes a block, writes to it and gives it back, and
  the device manager, with an empty heap and the device list just made, and with a list
  of one device, its name and the format of \<^verbatim>\<open>dump_devices\<close> in the read-only data.
\<close>

lemma sample_client: "well_behaved [Alloc 64, Store 0xC0201014 7, Free 0xC0201014] sample_heap"
proof -
  let ?s = "sample_alloc\<lparr>mem := (mem sample_alloc)(0xC0201014 := 7)\<rparr>"
  have w: "\<exists>xs. heap_wf sample_heap xs" and n: "(64 :: u32) \<noteq> 0" and r: "heap_room 64 sample_heap"
    using sample_heap_wf(1) by (auto simp: sample_room)
  obtain k where k: "(0xC0201014, k) \<in> heap_owned sample_alloc" "64 \<le> k"
    using kh.alloc_ok [OF w n r] by (auto simp: sample_alloc_facts(1))
  obtain xs where wf: "heap_wf sample_alloc xs" using sample_alloc_facts(2) by blast
  have "0 < k" using k(2) by simp
  then have b: "0xC0201014 \<in> span 0xC0201014 k" by (rule self_in_span)
  have "off_heap sample_alloc {c} \<or> (\<exists>(q, j) \<in> heap_owned sample_alloc. c \<in> span q j)"
    if "mem ?s c \<noteq> mem sample_alloc c" for c using that k(1) b by (auto split: if_splits)
  from heap_client_write(2) [where m' = "mem ?s", OF wf this] k(1) have "(0xC0201014, k) \<in> heap_owned ?s" by simp
  then show ?thesis using k(1) b by (auto simp: sample_alloc_facts(1) sample_room)
qed

theorem heap_runs_sound_witness:
  "\<exists>s'. client_run [Alloc 64, Store 0xC0201014 7, Free 0xC0201014] sample_heap = Some s' \<and> (\<exists>xs. heap_wf s' xs)"
  using heap_runs_sound [OF _ sample_client] sample_heap_wf(1) by blast

definition sample_devs :: devices where
  "sample_devs = init_devices sample_heap"

lemma sample_devs_wf: "devs_wf sample_devs []" "heap_room 52 sample_devs" "floppydev_types sample_devs = [0, 0, 0, 0, 0]"
proof -
  have k: "k_devs sample_heap = 0xC01F0030" "heap_base sample_heap = 0xC0201000" "brk_max sample_heap = 0xFFBFC000"
    by (simp_all add: sample_heap_def init_heap_def Let_def sample_def)
  have "off_heap sample_heap (span 0xC01F0030 8)"
    unfolding off_heap_def k sample_heap_wf(4) by (auto simp: span_nat_iff)
  then show "devs_wf sample_devs []" "heap_room 52 sample_devs"
    using init_devices_wf [OF sample_heap_wf(1)] by (simp_all add: sample_devs_def k sample_room)
qed (simp add: sample_devs_def sample_heap_def init_devices_def init_heap_def Let_def sample_def)

theorem register_device_pushes_witness:
  "\<exists>p s'. register_device 0xC0110000 3 1 0 0 sample_devs = Some s' \<and> devs_wf s' [p]"
proof -
  have "heap_room 24 sample_devs" using sample_devs_wf(2) by (simp add: heap_room_def)
  then show ?thesis using register_device_pushes [OF sample_devs_wf(1), of "0xC0110000" 3 1 0 0] by auto
qed

theorem add_floppy_registers_witness:
  "\<exists>p di s'. add_floppy 4 ''floppy0'' 0 sample_devs = Some s' \<and> devs_wf s' [p] \<and> d_devinfo (mem s') p = di \<and> mem s' di = 4"
  using add_floppy_registers [OF sample_devs_wf(1,2), of 4 "''floppy0''" 0]
  by (auto simp: sample_devs_wf(3) device_at_def)

section \<open>A list of one device\<close>

definition sample_device :: device where
  "sample_device = \<lparr>dv_name = 0xC0120000, dv_major = 0, dv_minor = 1, dv_info = 0, dv_size = 0\<rparr>"

definition device_texts :: bytes where
  "device_texts = poke 0xC0120000 (text_bytes ''floppy1'') (poke 0xC0121000 (text_bytes device_text) (\<lambda>_. 0))"

definition sample_listed :: devices where
  "sample_listed = sample\<lparr>rodata := (\<lambda>_. 0xC0121000),
     mem := list_add 0xC0300000 0xC01F0030 (device_stores 0xC0300000 sample_device (INIT_LIST_HEAD 0xC01F0030 device_texts))\<rparr>"

lemma sample_listed_list:
  "dlist (mem sample_listed) (k_devs sample_listed) [0xC0300000]" "device_at (mem sample_listed) 0xC0300000 = sample_device"
  "b \<notin> span 0xC0300000 24 \<Longrightarrow> b \<notin> span 0xC01F0030 8 \<Longrightarrow> mem sample_listed b = device_texts b"
proof -
  let ?h = "0xC01F0030 :: u32" and ?d = "0xC0300000 :: u32"
  let ?m = "INIT_LIST_HEAD ?h device_texts" and ?m1 = "device_stores ?d sample_device (INIT_LIST_HEAD ?h device_texts)"
  have k: "k_devs sample_listed = ?h" "mem sample_listed = list_add ?d ?h ?m1" by (simp_all add: sample_listed_def sample_def)
  have new: "b \<notin> span ?h 8 \<and> (\<forall>d \<in> set []. b \<notin> span d 24)" if "b \<in> span ?d 24" for b
    using that by (simp add: span_nat_iff)
  have st: "?m1 b = ?m b" if "b \<notin> span ?d 24" for b using that by (rule device_stores(2))
  have d: "dlist ?m1 ?h []" by (rule dlist_frame [OF dlist_init]) (use st new in auto)
  have l: "dlist (list_add ?d ?h ?m1) ?h [?d]" "device_at (list_add ?d ?h ?m1) ?d = device_at ?m1 ?d"
    "\<And>b. list_add ?d ?h ?m1 b \<noteq> ?m1 b \<Longrightarrow> \<exists>x \<in> set [?h, ?d]. b \<in> span x 8"
    by (rule link_device [OF d]; use new in simp)+
  show "dlist (mem sample_listed) (k_devs sample_listed) [?d]" "device_at (mem sample_listed) ?d = sample_device"
    unfolding k using l(1,2) device_stores(1) by simp_all
  show "mem sample_listed b = device_texts b" if "b \<notin> span ?d 24" "b \<notin> span ?h 8" for b
  proof -
    have "mem sample_listed b = ?m1 b"
      using l(3) [of b] that link_in_device [of b ?d] unfolding k by auto
    also have "\<dots> = ?m b" by (rule device_stores(2) [OF that(1)])
    finally show ?thesis using list_head_outside [OF that(2)] by simp
  qed
qed

theorem foreachdevice_filter_witness:
  "foreachdevice 0 (\<lambda>d s. Some (s\<lparr>total_blocks := total_blocks s + 1\<rparr>)) sample_listed
     = Some (sample_listed\<lparr>total_blocks := total_blocks sample_listed + 1\<rparr>)"
proof -
  let ?f = "\<lambda>d s. Some (s\<lparr>total_blocks := total_blocks s + 1\<rparr>) :: devices option"
  let ?P = "same_devices [0xC0300000] sample_listed"
  have m: "d_major (mem sample_listed) 0xC0300000 = 0"
    using sample_listed_list(2) by (simp add: device_at_def sample_device_def)
  have start: "?P sample_listed" using sample_listed_list(1) by (simp add: same_devices_def)
  have keep: "?P u'" if "d \<in> set [0xC0300000]" "?P u" "?f d u = Some u'" for d u u'
    using that(2) that(3) [symmetric] by (auto simp: same_devices_def)
  have "foreachdevice 0 ?f sample_listed =
      each_device ?f (filter (\<lambda>d. d_major (mem sample_listed) d = 0) [0xC0300000]) sample_listed"
    by (rule foreachdevice_filter [where P = ?P, OF start _ keep])
  then show ?thesis by (simp add: m)
qed

theorem dump_devices_prints_witness:
  "dump_devices sample_listed = Some (fold tty_putc (map of_char (''Device Registered 0,1 floppy1'' @ [CHR 0x0A])) sample_listed)"
proof -
  let ?s = sample_listed
  have scr: "screen ?s = span 0xB8000 4000" "tty_wf ?s"
    by (simp_all add: screen_def tty_wf_def sample_listed_def sample_def)
  have k: "k_devs ?s = 0xC01F0030" "rodata ?s device_text = 0xC0121000" by (simp_all add: sample_listed_def sample_def)
  have far: "span a n \<inter> span 0xB8000 4000 = {}" if "0xC0120000 \<le> unat a" "unat a + n < 0xC0400000" for a n
    using that by (auto simp: span_nat_iff)
  have same: "mem ?s b = device_texts b" if "b \<in> span a 64" "a = 0xC0120000 \<or> a = 0xC0121000" for a b
    using that by (intro sample_listed_list(3)) (auto simp: span_nat_iff)
  have tr: "cstring (mem ?s) a (map of_char t)"
    if "cstring device_texts a (map of_char t)" "length t < 64" "a = 0xC0120000 \<or> a = 0xC0121000" for a and t :: string
  proof -
    have "mem ?s b = device_texts b" if "b \<in> span a (Suc (length t))" for b
      using same [of b a] span_mono [OF that, of 64] \<open>length t < 64\<close> \<open>a = 0xC0120000 \<or> a = 0xC0121000\<close> by auto
    then have "cstring (mem ?s) a (map of_char t) = cstring device_texts a (map of_char t)"
      using that(2) by (intro cstring_cong) simp_all
    then show ?thesis using that(1) by simp
  qed
  have t1: "text_at device_texts 0xC0120000 (text_bytes ''floppy1'')"
    unfolding device_texts_def by (rule poke_text) (simp add: text_bytes_def)
  have t2: "text_at device_texts 0xC0121000 (text_bytes device_text)"
    unfolding device_texts_def by (rule poke_other [OF poke_text]) (simp_all add: text_bytes_def device_text_def apart_def)
  have "cstring device_texts 0xC0120000 (map of_char ''floppy1'')"
    using t1 by (simp only: cstring_text text_bytes_def) simp
  then have c1: "cstring (mem ?s) 0xC0120000 (map of_char ''floppy1'')"
    by (rule tr) simp_all
  have "cstring device_texts 0xC0121000 (map of_char device_text)"
    using t2 by (simp only: cstring_text text_bytes_def) (simp add: device_text_def)
  then have c2: "cstring (mem ?s) 0xC0121000 (map of_char device_text)"
    by (rule tr) (simp_all add: device_text_def)
  define nm where "nm = (map of_char ''floppy1'' :: u8 list)"
  have len: "length device_text = 27" "length nm = 7" by (simp_all add: device_text_def nm_def)
  have lit: "text_ready ?s device_text"
    using c2 far [of "0xC0121000" 28] len by (simp add: text_ready_def k scr)
  have dv: "d_name (mem ?s) 0xC0300000 = 0xC0120000" "d_major (mem ?s) 0xC0300000 = 0" "d_minor (mem ?s) 0xC0300000 = 1"
    using sample_listed_list(2) by (simp_all add: device_at_def sample_device_def)
  have rd: "\<forall>d \<in> set [0xC0300000]. device_ready ?s (\<lambda>_. nm) d"
    using c1 [folded nm_def] len far [of "0xC0300000" 24] far [of "0xC0120000" 8] by (simp add: device_ready_def scr dv arg_ok_def)
  have "device_line (mem ?s) (\<lambda>_. nm) 0xC0300000
      = map of_char (''Device Registered 0,1 floppy1'' @ [CHR 0x0A])"
    by (simp add: device_line_def nm_def dv number_def justify_def digits.simps digit_char_def)
  then show ?thesis
    using dump_devices_prints [OF scr(2) lit sample_listed_list(1) _ rd] far [of "0xC01F0030" 8] by (simp add: k scr)
qed

end
