(* ===== verification/Low_Video.thy ===== *)
theory Low_Video
  imports Machine
begin

text \<open>
  The early console \<^verbatim>\<open>lib/tty/low_level_video.c\<close>: a cursor into the text screen with the position
  it stands for, kept in two C integers. The names are swapped: \<^verbatim>\<open>_xpos\<close> counts the rows and
  \<^verbatim>\<open>_ypos\<close> the columns. The cursor always is the address of that cell, a printed text fills the cells
  from it on, and nothing stops it at the end of the screen.
\<close>

section \<open>State and operations\<close>

record low_video = machine +
  ll_cursor :: u32
  ll_xpos :: u32
  ll_ypos :: u32

definition VIDEO_MEM :: u32 where "VIDEO_MEM = 0xB8000"

definition low_level_setup :: "'a low_video_scheme \<Rightarrow> 'a low_video_scheme" where
  "low_level_setup s = s"

definition low_level_getxpos :: "'a low_video_scheme \<Rightarrow> u32" where
  "low_level_getxpos s = ll_xpos s"

definition low_level_getypos :: "'a low_video_scheme \<Rightarrow> u32" where
  "low_level_getypos s = ll_ypos s"

definition low_level_setxpos :: "u32 \<Rightarrow> 'a low_video_scheme \<Rightarrow> 'a low_video_scheme" where
  "low_level_setxpos x s = s\<lparr>ll_xpos := x, ll_cursor := VIDEO_MEM + (x * 80) * 2 + ll_ypos s * 2\<rparr>"

definition low_level_setypos :: "u32 \<Rightarrow> 'a low_video_scheme \<Rightarrow> 'a low_video_scheme" where
  "low_level_setypos y s = s\<lparr>ll_ypos := y, ll_cursor := VIDEO_MEM + (ll_xpos s * 80) * 2 + y * 2\<rparr>"

definition low_level_putchar :: "u8 \<Rightarrow> 'a low_video_scheme \<Rightarrow> 'a low_video_scheme" where
  "low_level_putchar c s =
     (if c = 0x0A then
        let s = s\<lparr>ll_xpos := ll_xpos s + 1, ll_ypos := 0\<rparr>
        in low_level_setxpos (ll_xpos s) s
      else
        let s = s\<lparr>mem := store8 (mem s) (ll_cursor s) c\<rparr>;
            s = s\<lparr>ll_cursor := ll_cursor s + 1\<rparr>;
            s = s\<lparr>mem := store8 (mem s) (ll_cursor s) 7\<rparr>;
            s = s\<lparr>ll_cursor := ll_cursor s + 1\<rparr>
        in s\<lparr>ll_ypos := ll_ypos s + 1\<rparr>)"

section \<open>The cursor and the cells\<close>

text \<open>The address of cell \<open>n\<close>, counted along the rows, and the cell a state stands at.\<close>

definition cell :: "u32 \<Rightarrow> u32" where
  "cell n = VIDEO_MEM + 2 * n"

definition ll_cell :: "'a low_video_scheme \<Rightarrow> u32" where
  "ll_cell s = ll_xpos s * 80 + ll_ypos s"

definition ll_wf :: "'a low_video_scheme \<Rightarrow> bool" where
  "ll_wf s \<longleftrightarrow> ll_cursor s = cell (ll_cell s)"

lemma ll_setpos_wf:
  "ll_wf (low_level_setxpos x s)" "ll_wf (low_level_setypos y s)" "ll_wf s \<Longrightarrow> ll_wf (low_level_setup s)"
  by (simp_all add: ll_wf_def cell_def ll_cell_def low_level_setxpos_def low_level_setypos_def low_level_setup_def
      algebra_simps)

lemma putchar_newline:
  "low_level_putchar 0x0A s = low_level_setxpos (ll_xpos s + 1) (s\<lparr>ll_ypos := 0\<rparr>)"
  by (simp add: low_level_putchar_def low_level_setxpos_def)

lemma putchar_char:
  assumes "ll_wf s" "c \<noteq> 0x0A"
  shows "low_level_putchar c s = s\<lparr>mem := (mem s)(cell (ll_cell s) := c, cell (ll_cell s) + 1 := 7),
    ll_cursor := cell (ll_cell s + 1), ll_ypos := ll_ypos s + 1\<rparr>"
  using assms by (simp add: low_level_putchar_def ll_wf_def store8_def cell_def algebra_simps)

lemma putchar_wf: "ll_wf s \<Longrightarrow> ll_wf (low_level_putchar c s)"
proof (cases "c = 0x0A")
  case True
  then show ?thesis by (simp add: putchar_newline ll_setpos_wf(1))
next
  case False
  moreover assume "ll_wf s"
  ultimately show ?thesis by (simp add: putchar_char ll_wf_def ll_cell_def algebra_simps)
qed

lemma unat_cell:
  assumes "unat n \<le> 0x10000"
  shows "unat (cell n) = 0xB8000 + 2 * unat n"
proof -
  have "unat (2 * n) = 2 * unat n" using assms by (simp add: unat_word_ariths)
  then show ?thesis using assms unat_plus_small [of VIDEO_MEM "2 * n"] by (simp add: cell_def VIDEO_MEM_def)
qed

section \<open>Printing\<close>

text \<open>A text without a newline fills the cells from the cursor on and changes no other byte.\<close>

lemma fold_putchar:
  assumes "ll_wf s" "0x0A \<notin> set bs" "unat (ll_cell s) + length bs \<le> 0x10000"
  shows "ll_wf (fold low_level_putchar bs s)"
    "ll_cell (fold low_level_putchar bs s) = ll_cell s + of_nat (length bs)"
    "i < length bs \<Longrightarrow> mem (fold low_level_putchar bs s) (cell (ll_cell s + of_nat i)) = bs ! i"
    "i < length bs \<Longrightarrow> mem (fold low_level_putchar bs s) (cell (ll_cell s + of_nat i) + 1) = 7"
    "b \<notin> span (cell (ll_cell s)) (2 * length bs) \<Longrightarrow> mem (fold low_level_putchar bs s) b = mem s b"
proof -
  have "ll_wf (fold low_level_putchar bs s)
    \<and> ll_cell (fold low_level_putchar bs s) = ll_cell s + of_nat (length bs)
    \<and> (\<forall>i < length bs. mem (fold low_level_putchar bs s) (cell (ll_cell s + of_nat i)) = bs ! i
         \<and> mem (fold low_level_putchar bs s) (cell (ll_cell s + of_nat i) + 1) = 7)
    \<and> (\<forall>b. b \<notin> span (cell (ll_cell s)) (2 * length bs) \<longrightarrow> mem (fold low_level_putchar bs s) b = mem s b)"
    using assms
  proof (induction bs arbitrary: s)
    case (Cons c bs)
    let ?s = "low_level_putchar c s" and ?n = "ll_cell s"
    have c: "c \<noteq> 0x0A" using Cons.prems(2) by simp
    note p = putchar_char [OF Cons.prems(1) c]
    have n1: "ll_cell ?s = ?n + 1" by (simp add: p ll_cell_def)
    have un: "unat (?n + 1) = unat ?n + 1" using Cons.prems(3) unat_plus_small [of ?n 1] by simp
    note IH = Cons.IH [OF putchar_wf [OF Cons.prems(1), of c], unfolded n1 un]
    have sp: "b \<notin> span (cell ?n) (2 * length (c # bs)) \<Longrightarrow> b \<notin> span (cell (?n + 1)) (2 * length bs)
        \<and> b \<noteq> cell ?n \<and> b \<noteq> cell ?n + 1" for b
      using span_offset [of b "cell ?n" 2 "2 * length bs" "2 * length (c # bs)"] Cons.prems(3)
      by (auto simp: cell_def algebra_simps span_iff)
    have low: "cell ?n \<notin> span (cell (?n + 1)) (2 * length bs)" "cell ?n + 1 \<notin> span (cell (?n + 1)) (2 * length bs)"
    proof -
      have u: "unat (cell ?n) = 0xB8000 + 2 * unat ?n" "unat (cell (?n + 1)) = 0xB8000 + 2 * (unat ?n + 1)"
        using unat_cell [of ?n] unat_cell [of "?n + 1"] Cons.prems(3) by (simp_all add: un)
      have "unat (cell ?n + 1) = 0xB8001 + 2 * unat ?n"
        using u(1) Cons.prems(3) unat_plus_small [of "cell ?n" 1] by simp
      then show "cell ?n \<notin> span (cell (?n + 1)) (2 * length bs)" "cell ?n + 1 \<notin> span (cell (?n + 1)) (2 * length bs)"
        using u Cons.prems(3) by (subst span_nat_iff; simp)+
    qed
    have IH': "ll_wf (fold low_level_putchar bs ?s)"
      "ll_cell (fold low_level_putchar bs ?s) = ?n + 1 + of_nat (length bs)"
      "\<And>i. i < length bs \<Longrightarrow> mem (fold low_level_putchar bs ?s) (cell (?n + 1 + of_nat i)) = bs ! i
         \<and> mem (fold low_level_putchar bs ?s) (cell (?n + 1 + of_nat i) + 1) = 7"
      "\<And>b. b \<notin> span (cell (?n + 1)) (2 * length bs) \<Longrightarrow> mem (fold low_level_putchar bs ?s) b = mem ?s b"
      using IH Cons.prems(2,3) by simp_all
    have "mem (fold low_level_putchar (c # bs) s) (cell (?n + of_nat i)) = (c # bs) ! i
        \<and> mem (fold low_level_putchar (c # bs) s) (cell (?n + of_nat i) + 1) = 7" if "i < length (c # bs)" for i
    proof (cases i)
      case 0
      then show ?thesis using IH'(4) [OF low(1)] IH'(4) [OF low(2)] by (simp add: p)
    next
      case (Suc j)
      then show ?thesis using IH'(3) [of j] that by (simp add: algebra_simps)
    qed
    moreover have "mem (fold low_level_putchar (c # bs) s) b = mem s b" if "b \<notin> span (cell ?n) (2 * length (c # bs))" for b
      using IH'(4) [of b] sp [OF that] by (simp add: p)
    ultimately show ?case using IH'(1,2) by (simp add: algebra_simps)
  qed simp
  then show "ll_wf (fold low_level_putchar bs s)"
    "ll_cell (fold low_level_putchar bs s) = ll_cell s + of_nat (length bs)"
    "i < length bs \<Longrightarrow> mem (fold low_level_putchar bs s) (cell (ll_cell s + of_nat i)) = bs ! i"
    "i < length bs \<Longrightarrow> mem (fold low_level_putchar bs s) (cell (ll_cell s + of_nat i) + 1) = 7"
    "b \<notin> span (cell (ll_cell s)) (2 * length bs) \<Longrightarrow> mem (fold low_level_putchar bs s) b = mem s b"
    by blast+
qed

text \<open>C32: The cursor of the early console is always the address of the cell its position names, whatever
  is printed and wherever it is moved; a text without newlines is stored there and advances it by its
  length. The bytes it writes are those of the screen's 2000 cells exactly as long as the text fits
  behind the position: a longer one runs past the end of the screen, as nothing scrolls.\<close>

theorem low_level_bounds:
  assumes "ll_wf s" "0x0A \<notin> set bs" "bs \<noteq> []" "unat (ll_cell s) + length bs \<le> 0x10000"
  shows "ll_wf (fold low_level_putchar bs s) \<and> ll_wf (low_level_putchar c s)
    \<and> ll_wf (low_level_setxpos x s) \<and> ll_wf (low_level_setypos x s)
    \<and> (\<forall>i < length bs. mem (fold low_level_putchar bs s) (ll_cursor s + 2 * of_nat i) = bs ! i)
    \<and> ((\<forall>b. mem (fold low_level_putchar bs s) b \<noteq> mem s b \<longrightarrow> b \<in> span VIDEO_MEM 4000)
       \<or> 2000 < unat (ll_cell s) + length bs)
    \<and> (2000 < unat (ll_cell s) + length bs \<longrightarrow>
         ll_cursor s + 2 * of_nat (length bs - 1) \<notin> span VIDEO_MEM 4000)"
proof -
  let ?n = "ll_cell s" and ?s = "fold low_level_putchar bs s"
  note f = fold_putchar [OF assms(1,2,4)]
  have cur: "ll_cursor s + 2 * of_nat i = cell (?n + of_nat i)" for i
    using assms(1) by (simp add: ll_wf_def cell_def algebra_simps)
  have "b \<in> span VIDEO_MEM 4000" if "mem ?s b \<noteq> mem s b" "unat ?n + length bs \<le> 2000" for b
  proof -
    have "b \<in> span (cell ?n) (2 * length bs)" using f(5) that(1) by blast
    then show ?thesis using unat_cell [of ?n] that(2) by (simp add: span_nat_iff VIDEO_MEM_def)
  qed
  moreover have "cell (?n + of_nat (length bs - 1)) \<notin> span VIDEO_MEM 4000" if "2000 < unat ?n + length bs"
  proof -
    have "unat (of_nat (length bs - 1) :: u32) = length bs - 1" using assms(4) by (simp add: unat_of_nat)
    then have "unat (?n + of_nat (length bs - 1)) = unat ?n + (length bs - 1)"
      using assms(4) unat_plus_small [of ?n "of_nat (length bs - 1)"] by simp
    moreover have "length bs - 1 + 1 = length bs" using assms(3) by (cases bs) simp_all
    ultimately show ?thesis
      using unat_cell [of "?n + of_nat (length bs - 1)"] that assms(4) by (simp add: span_nat_iff VIDEO_MEM_def)
  qed
  ultimately show ?thesis using f(1,3) assms(1) putchar_wf ll_setpos_wf by (auto simp: cur not_less)
qed

definition ll_start :: low_video where
  "ll_start = \<lparr>mem = \<lambda>_. 0, ports = [], port_in = \<lambda>_. 0, panics = [], rodata = \<lambda>_. 0, ll_cursor = VIDEO_MEM,
     ll_xpos = 0, ll_ypos = 0\<rparr>"

theorem low_level_bounds_witness:
  "mem (fold low_level_putchar [0x4F, 0x4B] (low_level_setxpos 24 ll_start)) 0xB8F02 = 0x4B
    \<and> {b. mem (fold low_level_putchar [0x4F, 0x4B] (low_level_setxpos 24 ll_start)) b \<noteq> mem (low_level_setxpos 24 ll_start) b}
         \<subseteq> span VIDEO_MEM 4000"
proof -
  let ?s = "low_level_setxpos 24 ll_start"
  have f: "ll_wf ?s" "ll_cell ?s = 1920" "ll_cursor ?s = 0xB8F00"
    by (rule ll_setpos_wf) (simp_all add: ll_cell_def low_level_setxpos_def ll_start_def VIDEO_MEM_def)
  have u: "unat (ll_cell ?s) = 1920" by (simp add: f(2))
  have "(\<forall>i < length [0x4F, 0x4B :: u8]. mem (fold low_level_putchar [0x4F, 0x4B] ?s) (ll_cursor ?s + 2 * of_nat i) = [0x4F, 0x4B] ! i)
    \<and> (\<forall>b. mem (fold low_level_putchar [0x4F, 0x4B] ?s) b \<noteq> mem ?s b \<longrightarrow> b \<in> span VIDEO_MEM 4000)"
    using low_level_bounds [of ?s "[0x4F, 0x4B]", OF f(1)] by (simp add: u del: fold_simps)
  then show ?thesis by (auto simp: f(3) simp del: fold_simps dest: spec [of _ 1])
qed

end
