(* ===== verification/Spec2Isabelle.thy ===== *)
theory Spec2Isabelle
  imports Sample_Startup Sample_Mutex Sample_Dev Low_Video
begin

text \<open>
  A model of the LineOS kernel, a small preemptive kernel for 32-bit x86, and the theorems that make it
  correct. This theory imports all others; their opening texts give the details.

  \<^bold>\<open>The program.\<close> The loader enters \<^verbatim>\<open>src/start.asm\<close>, which turns paging on and calls \<^verbatim>\<open>main\<close> of
  \<^verbatim>\<open>src/main.c\<close>. \<^verbatim>\<open>main\<close> sets up the interrupt table, the page frame allocator with its bitmap, the heap
  behind the kernel image, the interrupt controller, the timer and the process list, turns interrupts on
  and creates the first process. From then on every timer interrupt calls \<^verbatim>\<open>schedule\<close>, which counts
  sleepers down, charges a tick to the current process and switches to the next ready process when the
  ticks are used up. Processes take memory from \<^verbatim>\<open>kmalloc\<close>, whose pages are mapped by \<^verbatim>\<open>page_fault\<close>
  when they are first touched, and print with \<^verbatim>\<open>kprintf\<close> on the text screen.

  \<^bold>\<open>The state.\<close> The components are layers of one extensible record, in the order in which the C code
  stacks them: \<open>machine\<close> (memory as a function from 32-bit addresses to bytes, the port writes, the
  panics, the addresses of string literals), \<open>tty\<close>, \<open>paging\<close>, \<open>heap\<close>, \<open>kernel\<close> (the registers, the
  process list), \<open>system\<close> (descriptor tables, interrupt handlers), \<open>devices\<close>. A C variable is a field of
  its component. What the C code keeps in memory, structures reached through pointers, the bitmap, page
  tables, stacks, the screen, is in memory here too, at the offsets the compiler gives it, so that
  aliasing and stores to wrong addresses are part of the model. Integers are words of their C width and
  wrap, except the terminal's four \<^verbatim>\<open>int\<close> variables (width, height, column, row), which are \<open>int\<close>: under
  \<open>tty_wf\<close> they stay between 0 and the size of the screen, where C's arithmetic is exact. A function is a state transformer; it is an option where it may loop for ever, read outside an
  array or call one that may, and \<open>None\<close> is the run that does not come back.

  \<^bold>\<open>Theories.\<close>
  \<^item> \<open>Prelude\<close>: integer types, address ranges \<open>span\<close> and \<open>apart\<close>, collections of rules.
  \<^item> \<open>Machine\<close>: loads and stores, \<^verbatim>\<open>src/lib/stdlib\<close>, \<^verbatim>\<open>src/lib/string\<close>, \<^verbatim>\<open>src/cpu/portio.c\<close>.
  \<^item> \<open>Tty\<close>: the terminal \<^verbatim>\<open>src/lib/tty/tty.c\<close>; \<open>term_putc\<close> is the terminal it implements.
    \<open>Low_Video\<close>: the early console \<^verbatim>\<open>src/lib/tty/low_level_video.c\<close>.
  \<^item> \<open>Printf\<close>: \<^verbatim>\<open>src/lib/stdio/doprintf.c\<close>, \<^verbatim>\<open>kprintf.c\<close> and \<^verbatim>\<open>panic\<close>; \<open>Printf_Spec\<close>: formats as
    data, what they stand for, and that the interpreter prints it; \<open>Printf_Safe\<close>: what a run may change,
    whatever the format; \<open>Messages\<close>: the kernel's literals.
  \<^item> \<open>DList\<close>: the intrusive list \<^verbatim>\<open>src/include/ds/list.h\<close> and \<open>dlist\<close>, the list a ring stands for.
  \<^item> \<open>Bitmap\<close>: \<^verbatim>\<open>src/lib/ds/bitmap.c\<close>.
  \<^item> \<open>Paging\<close>: \<^verbatim>\<open>src/cpu/page.c\<close>; \<open>Page_Alloc\<close>: the frame allocator's invariant \<open>alloc_wf\<close>;
    \<open>Frames\<close>: taking single frames; \<open>Page_Map\<close>: mapping against the processor's page walk
    \<open>translate\<close>; \<open>Page_Init\<close>: the set-up; \<open>Alloc_Test\<close>: \<^verbatim>\<open>src/testing/test_alloc_pages.c\<close> and
    \<^verbatim>\<open>dump_stats\<close>, with the exact outcome of the allocator's own test. Two notions of a zone occur, as in
    the code: \<^verbatim>\<open>alloc_pages\<close> searches up to but not including the end page (\<open>search_range\<close>, \<open>free_frames\<close>),
    \<^verbatim>\<open>__get_zone\<close> counts the end page to the zone (\<open>zone_free\<close>).
  \<^item> \<open>Kheap\<close>: \<^verbatim>\<open>src/mm/heap.c\<close> and \<^verbatim>\<open>heapchecker.c\<close>; \<open>Kheap_Inv\<close>: the heap invariant \<open>heap_wf\<close>;
    \<open>Heap_Props\<close>: what the heap promises; \<open>Heap_Client\<close>: sequences of operations of its clients.
  \<^item> \<open>Lib_Props\<close>: what the library routines promise.
  \<^item> \<open>Process\<close>: \<^verbatim>\<open>src/process/process.c\<close>, \<^verbatim>\<open>pid.c\<close>, \<^verbatim>\<open>switchto.asm\<close>; \<open>Context\<close>:
    the context switch; \<open>Sched\<close>: the abstract scheduler \<open>spec_schedule\<close> and the refinement;
    \<open>Sched_Run\<close>: runs of timer interrupts, sleeps and process steps; \<open>Create\<close>: \<^verbatim>\<open>create_process\<close>.
  \<^item> \<open>Mutex\<close>: \<^verbatim>\<open>src/process/mutex.c\<close>, as a function and statement by statement, both against
    \<open>lock_spec\<close>; in the runs of statements timer interrupts, sleeps and other processes can come between any two.
  \<^item> \<open>Cpu\<close>: \<^verbatim>\<open>interrupt.c\<close>, \<^verbatim>\<open>pic.c\<close>, \<^verbatim>\<open>handler.c\<close>, \<^verbatim>\<open>timer.c\<close>, \<^verbatim>\<open>cpu.c\<close>, \<^verbatim>\<open>cpuid.c\<close> of
    \<^verbatim>\<open>src/cpu\<close>; \<open>Cpu_Props\<close>: their properties.
  \<^item> \<open>Devmgr\<close>: \<^verbatim>\<open>src/drv\<close>; \<open>Dev_Props\<close>: the list of devices, registration and the walks over it.
  \<^item> \<open>Boot\<close>: \<^verbatim>\<open>src/main.c\<close>, \<^verbatim>\<open>testproc.c\<close>; \<open>Boot_Props\<close>: the start establishes every invariant, one after another;
    \<open>Hardware\<close>: the first process \<^verbatim>\<open>core\<close>, from the device manager to the drives found, on top of all the
    invariants; \<open>Startup\<close>: the first timer interrupt, which enters \<^verbatim>\<open>core\<close>, and the whole way from the loaded
    kernel to the drives. The runs of \<^verbatim>\<open>main\<close> and of \<^verbatim>\<open>core\<close> are ones that no interrupt breaks into: \<^verbatim>\<open>main\<close>
    turns interrupts on before it calls \<^verbatim>\<open>create_process\<close>, and the first timer interrupt is taken to come
    after that. The \<^verbatim>\<open>hlt\<close> of \<^verbatim>\<open>panic\<close> is a step that returns, as it does with interrupts on.
  \<^item> \<open>Sample\<close>, \<open>Sample_Proc\<close>, \<open>Sample_Boot\<close>, \<open>Sample_Mutex\<close>, \<open>Sample_Test\<close>, \<open>Sample_Dev\<close>,
    \<open>Sample_Hardware\<close>, \<open>Sample_Startup\<close>: a concrete machine, at which the properties are instantiated.

  \<^bold>\<open>Interfaces.\<close> \<open>page_map\<close> (what the allocator needs of a bitmap), \<open>node_sequence\<close> (what clients need of
  the list), \<open>allocator\<close> (what clients need of the heap), \<open>char_sink\<close> (what the format interpreter needs
  of its output function), \<open>output_invariant\<close> (what that function keeps, a run of the interpreter keeps)
  and \<open>step_invariant\<close> (what an invariant of the mutex's runs has to satisfy) are
  locales, each interpreted on the model of the code that provides it.

  \<^bold>\<open>Loops.\<close> Bounded loops are recursive functions with termination proofs. Unbounded ones (\<^verbatim>\<open>strlen\<close>,
  the traversal of a ring, the scan for a process, the format loop) are partial functions in \<open>option\<close>,
  and the theorems prove that they return, or that they do not. No fuel is used.

  \<^bold>\<open>Parameters.\<close> What is not in the C source is a field of the state that nothing changes: what a port
  reads as, what \<^verbatim>\<open>cpuid\<close> answers, which flags the processor lets software change, the addresses chosen
  by the linker, and the state in which the loader leaves the machine.

  \<^bold>\<open>Not modelled.\<close> The assembly entry points (multiboot header, mode switch, register saving of the
  interrupt stubs); caching and timing; page faults inside kernel code, as memory is always
  accessible in the model and \<^verbatim>\<open>page_fault\<close> is a handler of its own; the programs under \<^verbatim>\<open>src/local\<close>,
  which are not part of the kernel.
\<close>

end
